(* ===== verification/Prelude.thy ===== *)
theory Prelude
  imports Main "HOL-Library.Word"
begin

text \<open>
  Shared vocabulary of the development: the machine integers of the source as words, the checked
  and saturating arithmetic of Rust's integer types, \<open>Result\<close> as a sum type with the early return
  of the question-mark operator, \<open>Iterator::position\<close>, and the generic facts about lists, folds and
  transition systems that the component theories use.

  Conventions. \<open>Result<A, E>\<close> is \<open>'e + 'a\<close> with \<open>Inl\<close> for the error. An operation on \<open>&mut self\<close>
  returns its result paired with the new state. A fixed array \<open>[T; N]\<close> is a list whose length is
  \<open>N\<close>; the length is part of each component's invariant. \<open>usize\<close> values are \<open>nat\<close>: they index or
  count arrays; where the source computes with them in a way that could leave the 64-bit range the
  bound is written out.
\<close>

unbundle bit_operations_syntax

section \<open>Machine integers\<close>

type_synonym u8 = "8 word"
type_synonym u16 = "16 word"
type_synonym u32 = "32 word"
type_synonym u64 = "64 word"

named_theorems result_simps
named_theorems table_simps
named_theorems inv_intros

definition checked_add :: "'a::len word \<Rightarrow> 'a word \<Rightarrow> 'a word option" where
  "checked_add a b = (if unat a + unat b < 2 ^ LENGTH('a) then Some (a + b) else None)"

definition checked_mul :: "'a::len word \<Rightarrow> 'a word \<Rightarrow> 'a word option" where
  "checked_mul a b = (if unat a * unat b < 2 ^ LENGTH('a) then Some (a * b) else None)"

definition checked_sub :: "'a::len word \<Rightarrow> 'a word \<Rightarrow> 'a word option" where
  "checked_sub a b = (if b \<le> a then Some (a - b) else None)"

definition saturating_add :: "'a::len word \<Rightarrow> 'a word \<Rightarrow> 'a word" where
  "saturating_add a b = (case checked_add a b of Some c \<Rightarrow> c | None \<Rightarrow> - 1)"

definition saturating_mul :: "'a::len word \<Rightarrow> 'a word \<Rightarrow> 'a word" where
  "saturating_mul a b = (case checked_mul a b of Some c \<Rightarrow> c | None \<Rightarrow> - 1)"

definition saturating_sub :: "'a::len word \<Rightarrow> 'a word \<Rightarrow> 'a word" where
  "saturating_sub a b = (if b \<le> a then a - b else 0)"

lemma checked_add_Some:
  "checked_add a b = Some c \<longleftrightarrow> c = a + b \<and> unat c = unat a + unat b"
  for a b c :: "'a::len word"
  using unat_add_lem [of a b] by (auto simp: checked_add_def)

lemma checked_add_None:
  "checked_add a b = None \<longleftrightarrow> 2 ^ LENGTH('a) \<le> unat a + unat b"
  for a b :: "'a::len word"
  by (auto simp: checked_add_def)

lemma checked_mul_Some:
  "checked_mul a b = Some c \<longleftrightarrow> c = a * b \<and> unat c = unat a * unat b"
  for a b c :: "'a::len word"
  using unat_mult_lem [of a b] by (auto simp: checked_mul_def)

lemma unat_bound: "unat w < 2 ^ LENGTH('a)" for w :: "'a::len word"
  by (rule unsigned_less)

lemma unat_max_word: "unat (- 1 :: 'a::len word) = 2 ^ LENGTH('a) - 1"
  by (simp add: unsigned_minus_1_eq_mask mask_eq_exp_minus_1)

lemma unat_saturating_add:
  "unat (saturating_add a b) = min (unat a + unat b) (2 ^ LENGTH('a) - 1)"
  for a b :: "'a::len word"
proof (cases "checked_add a b")
  case None
  then have "2 ^ LENGTH('a) \<le> unat a + unat b"
    by (simp add: checked_add_None)
  with None show ?thesis
    by (simp add: saturating_add_def unat_max_word)
next
  case (Some c)
  then have "unat c = unat a + unat b" and "unat c < 2 ^ LENGTH('a)"
    by (auto simp: checked_add_Some)
  with Some show ?thesis by (simp add: saturating_add_def)
qed

lemma unat_saturating_mul:
  "unat (saturating_mul a b) = min (unat a * unat b) (2 ^ LENGTH('a) - 1)"
  for a b :: "'a::len word"
proof (cases "checked_mul a b")
  case None
  then have "2 ^ LENGTH('a) \<le> unat a * unat b"
    by (auto simp: checked_mul_def split: if_splits)
  with None show ?thesis
    by (simp add: saturating_mul_def unat_max_word)
next
  case (Some c)
  then have "unat c = unat a * unat b" and "unat c < 2 ^ LENGTH('a)"
    by (auto simp: checked_mul_Some)
  with Some show ?thesis by (simp add: saturating_mul_def)
qed

lemma unat_saturating_sub: "unat (saturating_sub a b) = unat a - unat b"
  for a b :: "'a::len word"
  by (auto simp: saturating_sub_def unat_sub word_le_nat_alt)

lemma word_and_subset_trans:
  "a AND b = a \<Longrightarrow> b AND c = b \<Longrightarrow> a AND c = a"
  for a b c :: "'a::len word"
  by (metis and.assoc)

lemma unat_succ:
  fixes a :: "'a::len word"
  assumes "a \<noteq> - 1"
  shows "unat (a + 1) = Suc (unat a)"
proof -
  have "1 + a \<noteq> 0"
    using assms by (metis add_eq_0_iff)
  then show ?thesis
    by (metis unatSuc add.commute)
qed

section \<open>Results\<close>

text \<open>The question-mark operator: an error ends the function, a value goes on.\<close>

fun rbind :: "'e + 'a \<Rightarrow> ('a \<Rightarrow> 'e + 'b) \<Rightarrow> 'e + 'b" where
  "rbind (Inl e) f = Inl e"
| "rbind (Inr x) f = f x"

fun map_err :: "('e \<Rightarrow> 'f) \<Rightarrow> 'e + 'a \<Rightarrow> 'f + 'a" where
  "map_err g (Inl e) = Inl (g e)"
| "map_err g (Inr x) = Inr x"

definition ok_or :: "'e \<Rightarrow> 'a option \<Rightarrow> 'e + 'a" where
  "ok_or e x = (case x of Some a \<Rightarrow> Inr a | None \<Rightarrow> Inl e)"

definition is_ok :: "'e + 'a \<Rightarrow> bool" where
  "is_ok r = (case r of Inr _ \<Rightarrow> True | Inl _ \<Rightarrow> False)"

lemma rbind_Inr [result_simps]:
  "rbind r f = Inr y \<longleftrightarrow> (\<exists>x. r = Inr x \<and> f x = Inr y)"
  by (cases r) auto

lemma rbind_Inl [result_simps]:
  "rbind r f = Inl e \<longleftrightarrow> r = Inl e \<or> (\<exists>x. r = Inr x \<and> f x = Inl e)"
  by (cases r) auto

lemma map_err_Inr [result_simps]: "map_err g r = Inr x \<longleftrightarrow> r = Inr x"
  by (cases r) auto

lemma map_err_Inl [result_simps]: "map_err g r = Inl f \<longleftrightarrow> (\<exists>e. r = Inl e \<and> f = g e)"
  by (cases r) auto

lemma ok_or_Inr [result_simps]: "ok_or e x = Inr a \<longleftrightarrow> x = Some a"
  by (auto simp: ok_or_def split: option.splits)

lemma ok_or_Inl [result_simps]: "ok_or e x = Inl f \<longleftrightarrow> x = None \<and> f = e"
  by (auto simp: ok_or_def split: option.splits)

lemma is_ok_simps [simp]: "is_ok (Inr x)" "\<not> is_ok (Inl e)"
  by (simp_all add: is_ok_def)

lemma is_ok_iff: "is_ok r \<longleftrightarrow> (\<exists>x. r = Inr x)"
  by (cases r) auto

section \<open>Lists as arrays\<close>

text \<open>\<open>Iterator::position\<close>: the first index whose element satisfies the predicate.\<close>

fun position :: "('a \<Rightarrow> bool) \<Rightarrow> 'a list \<Rightarrow> nat option" where
  "position P [] = None"
| "position P (x # xs) = (if P x then Some 0 else map_option Suc (position P xs))"

lemma position_None: "position P xs = None \<longleftrightarrow> (\<forall>x\<in>set xs. \<not> P x)"
  by (induction xs) auto

lemma position_SomeD:
  "position P xs = Some i \<Longrightarrow> i < length xs \<and> P (xs ! i) \<and> (\<forall>j<i. \<not> P (xs ! j))"
proof (induction xs arbitrary: i)
  case (Cons x xs)
  then show ?case
    by (auto simp: nth_Cons less_Suc_eq_0_disj split: if_splits nat.splits)
qed simp

lemma position_Some_eq:
  assumes "i < length xs" and "P (xs ! i)" and "\<And>j. j < i \<Longrightarrow> \<not> P (xs ! j)"
  shows "position P xs = Some i"
proof (cases "position P xs")
  case None
  with assms(1,2) show ?thesis by (auto simp: position_None)
next
  case (Some k)
  then have k: "k < length xs" "P (xs ! k)" "\<forall>j<k. \<not> P (xs ! j)"
    using position_SomeD by blast+
  with assms have "\<not> k < i" and "\<not> i < k" by blast+
  with Some show ?thesis by simp
qed

lemma position_Some_iff:
  "position P xs = Some i \<longleftrightarrow> i < length xs \<and> P (xs ! i) \<and> (\<forall>j<i. \<not> P (xs ! j))"
  using position_SomeD position_Some_eq by metis

lemma position_ex: "i < length xs \<Longrightarrow> P (xs ! i) \<Longrightarrow> \<exists>k. position P xs = Some k \<and> k \<le> i"
proof (cases "position P xs")
  case (Some k)
  assume "i < length xs" and "P (xs ! i)"
  moreover from Some have "\<forall>j<k. \<not> P (xs ! j)" using position_SomeD by blast
  ultimately have "\<not> i < k" by blast
  with Some show ?thesis by simp
qed (auto simp: position_None)

lemma length_filter_update:
  assumes "i < length xs"
  shows "length (filter P (xs[i := x])) + (if P (xs ! i) then 1 else 0)
       = length (filter P xs) + (if P x then 1 else 0)"
  using assms
proof (induction xs arbitrary: i)
  case (Cons y ys)
  then show ?case by (cases i) (auto split: if_splits)
qed simp

lemma length_filter_update_True:
  "i < length xs \<Longrightarrow> \<not> P (xs ! i) \<Longrightarrow> P x \<Longrightarrow> length (filter P (xs[i := x])) = Suc (length (filter P xs))"
  using length_filter_update [of i xs P x] by simp

lemma length_filter_update_False:
  "i < length xs \<Longrightarrow> P (xs ! i) \<Longrightarrow> \<not> P x \<Longrightarrow> Suc (length (filter P (xs[i := x]))) = length (filter P xs)"
  using length_filter_update [of i xs P x] by simp

lemma length_filter_update_same:
  "i < length xs \<Longrightarrow> P (xs ! i) = P x \<Longrightarrow> length (filter P (xs[i := x])) = length (filter P xs)"
  using length_filter_update [of i xs P x] by (simp split: if_splits)

lemma fold_invariant_set:
  assumes "I s" and "\<And>x s. x \<in> set xs \<Longrightarrow> I s \<Longrightarrow> I (f x s)"
  shows "I (fold f xs s)"
  using assms by (induction xs arbitrary: s) auto

text \<open>A loop over the indices of an array that rewrites the element it is at.\<close>

lemma fold_upt_map_update:
  assumes "\<And>i s. i < length (v s) \<Longrightarrow> v (f i s) = (v s)[i := g (v s ! i)]" and "n \<le> length (v s)"
  shows "v (fold f [0..<n] s) = map g (take n (v s)) @ drop n (v s)"
  using assms(2)
proof (induction n)
  case (Suc n)
  let ?s = "fold f [0..<n] s"
  from Suc have IH: "v ?s = map g (take n (v s)) @ drop n (v s)" and n: "n < length (v s)" by simp_all
  then have "length (v ?s) = length (v s)" and "v ?s ! n = v s ! n" by (simp_all add: nth_append)
  with assms(1) [of n ?s] n have "v (f n ?s) = (v ?s)[n := g (v s ! n)]" by simp
  also have "\<dots> = map g (take (Suc n) (v s)) @ drop (Suc n) (v s)"
    using n by (simp add: IH list_update_append take_Suc_conv_app_nth Cons_nth_drop_Suc [symmetric])
  finally show ?case by simp
qed simp

section \<open>Transition systems\<close>

text \<open>
  The safety argument that the stateful components share. A provider gives its initial states, its
  step relation and an invariant with the two closure laws; the client facts are that the invariant
  holds in every state a run can reach, and that a relation that every step from an invariant state
  establishes, and that is reflexive and transitive, holds between the ends of a run.
\<close>

locale transition_system =
  fixes init :: "'s \<Rightarrow> bool"
    and step :: "'s \<Rightarrow> 's \<Rightarrow> bool"
    and inv :: "'s \<Rightarrow> bool"
  assumes inv_init: "init s \<Longrightarrow> inv s"
    and inv_step: "inv s \<Longrightarrow> step s t \<Longrightarrow> inv t"
begin

lemma run_inv: "step\<^sup>*\<^sup>* s t \<Longrightarrow> inv s \<Longrightarrow> inv t"
  by (induction rule: rtranclp_induct) (auto intro: inv_step)

lemma reachable_inv: "init s \<Longrightarrow> step\<^sup>*\<^sup>* s t \<Longrightarrow> inv t"
  by (blast intro: run_inv inv_init)

lemma run_relation:
  assumes "step\<^sup>*\<^sup>* s t" and "inv s"
    and refl: "\<And>s. R s s"
    and trans: "\<And>s t u. R s t \<Longrightarrow> R t u \<Longrightarrow> R s u"
    and step: "\<And>s t. inv s \<Longrightarrow> step s t \<Longrightarrow> R s t"
  shows "R s t"
  using assms(1,2)
proof (induction rule: rtranclp_induct)
  case base
  show ?case by (rule refl)
next
  case (step t u)
  from step.hyps(1) step.prems have "inv t" by (rule run_inv)
  with step assms(5) show ?case by (blast intro: trans)
qed

end

end
