(* ===== verification/Cap_Types.thy ===== *)
theory Cap_Types
  imports Prelude
begin

text \<open>
  The data of the \<open>capability\<close> crate and its pure checks: rights bitsets and their per-class masks
  (\<open>rights.rs\<close>), resource identities (\<open>resource.rs\<close>), errors with their wire codes and syscall
  statuses (\<open>error.rs\<close>), handles and their 64-bit encoding (\<open>handle.rs\<close>), delegation provenance
  (\<open>provenance.rs\<close>), the table record (\<open>record.rs\<close>, \<open>state.rs\<close>, \<open>holder.rs\<close>), and the two
  decision functions \<open>authorize\<close> and \<open>validate_delegation\<close> (\<open>authorize.rs\<close>).
\<close>

section \<open>Errors\<close>

datatype cap_error =
    InvalidHandle
  | StaleHandle
  | RevokedError
  | UnauthorizedHolder
  | WrongResource
  | MissingRight
  | InvalidRights
  | RightsWidening
  | DelegationDepthExceeded
  | CapacityExhausted
  | GenerationExhausted
  | NotDelegable

fun cap_error_as_u8 :: "cap_error \<Rightarrow> u8" where
  "cap_error_as_u8 InvalidHandle = 0"
| "cap_error_as_u8 StaleHandle = 1"
| "cap_error_as_u8 RevokedError = 2"
| "cap_error_as_u8 UnauthorizedHolder = 3"
| "cap_error_as_u8 WrongResource = 4"
| "cap_error_as_u8 MissingRight = 5"
| "cap_error_as_u8 InvalidRights = 6"
| "cap_error_as_u8 RightsWidening = 7"
| "cap_error_as_u8 DelegationDepthExceeded = 8"
| "cap_error_as_u8 CapacityExhausted = 9"
| "cap_error_as_u8 GenerationExhausted = 10"
| "cap_error_as_u8 NotDelegable = 11"

definition cap_error_from_u8 :: "u8 \<Rightarrow> cap_error option" where
  "cap_error_from_u8 raw =
     (if raw = 0 then Some InvalidHandle
      else if raw = 1 then Some StaleHandle
      else if raw = 2 then Some RevokedError
      else if raw = 3 then Some UnauthorizedHolder
      else if raw = 4 then Some WrongResource
      else if raw = 5 then Some MissingRight
      else if raw = 6 then Some InvalidRights
      else if raw = 7 then Some RightsWidening
      else if raw = 8 then Some DelegationDepthExceeded
      else if raw = 9 then Some CapacityExhausted
      else if raw = 10 then Some GenerationExhausted
      else if raw = 11 then Some NotDelegable
      else None)"

fun error_name :: "cap_error \<Rightarrow> string" where
  "error_name InvalidHandle = ''invalid-handle''"
| "error_name StaleHandle = ''stale''"
| "error_name RevokedError = ''revoked''"
| "error_name UnauthorizedHolder = ''wrong-holder''"
| "error_name WrongResource = ''wrong-resource''"
| "error_name MissingRight = ''missing-right''"
| "error_name InvalidRights = ''invalid-rights''"
| "error_name RightsWidening = ''rights-widening''"
| "error_name DelegationDepthExceeded = ''depth-exceeded''"
| "error_name CapacityExhausted = ''capacity''"
| "error_name GenerationExhausted = ''generation-exhausted''"
| "error_name NotDelegable = ''not-delegable''"

text \<open>The status constants are \<open>u64::MAX - n\<close>; \<open>- 1\<close> is \<open>u64::MAX\<close> as a word.\<close>

definition SYSCALL_EACCES :: u64 where "SYSCALL_EACCES = - 1 - 12"
definition SYSCALL_EINVAL :: u64 where "SYSCALL_EINVAL = - 1 - 21"
definition SYSCALL_ENOSPC :: u64 where "SYSCALL_ENOSPC = - 1 - 28"
definition SYSCALL_ESTALE :: u64 where "SYSCALL_ESTALE = - 1 - 116"
definition SYSCALL_ENOSYS :: u64 where "SYSCALL_ENOSYS = - 1 - 37"

fun syscall_status :: "cap_error \<Rightarrow> u64" where
  "syscall_status InvalidHandle = SYSCALL_EINVAL"
| "syscall_status InvalidRights = SYSCALL_EINVAL"
| "syscall_status StaleHandle = SYSCALL_ESTALE"
| "syscall_status RevokedError = SYSCALL_ESTALE"
| "syscall_status UnauthorizedHolder = SYSCALL_EACCES"
| "syscall_status WrongResource = SYSCALL_EACCES"
| "syscall_status MissingRight = SYSCALL_EACCES"
| "syscall_status RightsWidening = SYSCALL_EACCES"
| "syscall_status NotDelegable = SYSCALL_EACCES"
| "syscall_status CapacityExhausted = SYSCALL_ENOSPC"
| "syscall_status GenerationExhausted = SYSCALL_ENOSPC"
| "syscall_status DelegationDepthExceeded = SYSCALL_ENOSPC"

definition error_from_status :: "u64 \<Rightarrow> cap_error option" where
  "error_from_status status =
     (if status = SYSCALL_EINVAL then Some InvalidHandle
      else if status = SYSCALL_ESTALE then Some StaleHandle
      else if status = SYSCALL_EACCES then Some UnauthorizedHolder
      else if status = SYSCALL_ENOSPC then Some CapacityExhausted
      else None)"

section \<open>Resources\<close>

datatype resource_class =
    PersistentObject
  | ProcessControl
  | IpcEndpoint
  | BlockDevice
  | LifecycleControl
  | Audit
  | Network
  | SharedBuffer
  | Graphics
  | Display
  | Input

fun class_as_u8 :: "resource_class \<Rightarrow> u8" where
  "class_as_u8 PersistentObject = 1"
| "class_as_u8 ProcessControl = 2"
| "class_as_u8 IpcEndpoint = 3"
| "class_as_u8 BlockDevice = 4"
| "class_as_u8 LifecycleControl = 5"
| "class_as_u8 Audit = 6"
| "class_as_u8 Network = 7"
| "class_as_u8 SharedBuffer = 8"
| "class_as_u8 Graphics = 9"
| "class_as_u8 Display = 10"
| "class_as_u8 Input = 11"

definition class_from_u8 :: "u8 \<Rightarrow> resource_class option" where
  "class_from_u8 raw =
     (if raw = 1 then Some PersistentObject
      else if raw = 2 then Some ProcessControl
      else if raw = 3 then Some IpcEndpoint
      else if raw = 4 then Some BlockDevice
      else if raw = 5 then Some LifecycleControl
      else if raw = 6 then Some Audit
      else if raw = 7 then Some Network
      else if raw = 8 then Some SharedBuffer
      else if raw = 9 then Some Graphics
      else if raw = 10 then Some Display
      else if raw = 11 then Some Input
      else None)"

record resource_ref =
  res_class :: resource_class
  res_id :: u64
  instance_generation :: u64

definition resource_object :: "u64 \<Rightarrow> resource_ref" where
  "resource_object i = \<lparr>res_class = PersistentObject, res_id = i, instance_generation = 0\<rparr>"

definition resource_process :: "u64 \<Rightarrow> u64 \<Rightarrow> resource_ref" where
  "resource_process pid g = \<lparr>res_class = ProcessControl, res_id = pid, instance_generation = g\<rparr>"

definition resource_network :: "u64 \<Rightarrow> u64 \<Rightarrow> resource_ref" where
  "resource_network service g = \<lparr>res_class = Network, res_id = service, instance_generation = g\<rparr>"

definition resource_network_session :: "u64 \<Rightarrow> u32 \<Rightarrow> resource_ref" where
  "resource_network_session g index =
     \<lparr>res_class = Network, res_id = ucast index, instance_generation = g\<rparr>"

definition resource_ipc_endpoint :: "u64 \<Rightarrow> resource_ref" where
  "resource_ipc_endpoint slot = \<lparr>res_class = IpcEndpoint, res_id = slot, instance_generation = 0\<rparr>"

definition resource_shared_buffer :: "u64 \<Rightarrow> resource_ref" where
  "resource_shared_buffer raw = \<lparr>res_class = SharedBuffer, res_id = raw, instance_generation = 0\<rparr>"

definition resource_graphics :: "u64 \<Rightarrow> u64 \<Rightarrow> resource_ref" where
  "resource_graphics service g = \<lparr>res_class = Graphics, res_id = service, instance_generation = g\<rparr>"

definition resource_display :: "u8 \<Rightarrow> resource_ref" where
  "resource_display index = \<lparr>res_class = Display, res_id = ucast index, instance_generation = 0\<rparr>"

definition resource_input :: "u64 \<Rightarrow> resource_ref" where
  "resource_input seat = \<lparr>res_class = Input, res_id = seat, instance_generation = 0\<rparr>"

section \<open>Rights\<close>

type_synonym rights = u32

definition READ :: rights where "READ = push_bit 0 1"
definition WRITE :: rights where "WRITE = push_bit 1 1"
definition INSPECT :: rights where "INSPECT = push_bit 2 1"
definition DELEGATE :: rights where "DELEGATE = push_bit 3 1"
definition REVOKE :: rights where "REVOKE = push_bit 4 1"
definition OBSERVE :: rights where "OBSERVE = push_bit 5 1"
definition SIGNAL :: rights where "SIGNAL = push_bit 6 1"
definition TERMINATE :: rights where "TERMINATE = push_bit 7 1"
definition AUDIT_READ :: rights where "AUDIT_READ = push_bit 8 1"
definition NET_RESOLVE :: rights where "NET_RESOLVE = push_bit 9 1"
definition NET_CONNECT :: rights where "NET_CONNECT = push_bit 10 1"
definition NET_SEND :: rights where "NET_SEND = push_bit 11 1"
definition NET_RECEIVE :: rights where "NET_RECEIVE = push_bit 12 1"
definition NET_RAW_DEVICE :: rights where "NET_RAW_DEVICE = push_bit 13 1"
definition GFX_CONNECT :: rights where "GFX_CONNECT = push_bit 14 1"
definition GFX_SHELL :: rights where "GFX_SHELL = push_bit 15 1"
definition GFX_OVERLAY :: rights where "GFX_OVERLAY = push_bit 16 1"
definition GFX_SERVE :: rights where "GFX_SERVE = push_bit 17 1"
definition DISPLAY_PRESENT :: rights where "DISPLAY_PRESENT = push_bit 18 1"
definition INPUT_CONSUME :: rights where "INPUT_CONSUME = push_bit 19 1"

lemmas rights_consts =
  READ_def WRITE_def INSPECT_def DELEGATE_def REVOKE_def OBSERVE_def SIGNAL_def TERMINATE_def
  AUDIT_READ_def NET_RESOLVE_def NET_CONNECT_def NET_SEND_def NET_RECEIVE_def NET_RAW_DEVICE_def
  GFX_CONNECT_def GFX_SHELL_def GFX_OVERLAY_def GFX_SERVE_def DISPLAY_PRESENT_def
  INPUT_CONSUME_def

definition ALL_KNOWN :: rights where
  "ALL_KNOWN = push_bit 0 1 OR push_bit 1 1 OR push_bit 2 1 OR push_bit 3 1 OR push_bit 4 1
     OR push_bit 5 1 OR push_bit 6 1 OR push_bit 7 1 OR push_bit 8 1 OR push_bit 9 1
     OR push_bit 10 1 OR push_bit 11 1 OR push_bit 12 1 OR push_bit 13 1 OR push_bit 14 1
     OR push_bit 15 1 OR push_bit 16 1 OR push_bit 17 1 OR push_bit 18 1 OR push_bit 19 1"

definition rights_empty :: rights where
  "rights_empty = 0"

definition rights_from_bits :: "u32 \<Rightarrow> rights option" where
  "rights_from_bits bits = (if bits AND NOT ALL_KNOWN \<noteq> 0 then None else Some bits)"

definition rights_contains :: "rights \<Rightarrow> rights \<Rightarrow> bool" where
  "rights_contains r required \<longleftrightarrow> r AND required = required"

definition is_subset_of :: "rights \<Rightarrow> rights \<Rightarrow> bool" where
  "is_subset_of r allowed \<longleftrightarrow> r AND allowed = r"

definition rights_intersects :: "rights \<Rightarrow> rights \<Rightarrow> bool" where
  "rights_intersects r other \<longleftrightarrow> r AND other \<noteq> 0"

definition attenuate :: "rights \<Rightarrow> rights \<Rightarrow> rights" where
  "attenuate r allowed = r AND allowed"

definition rights_union :: "rights \<Rightarrow> rights \<Rightarrow> rights" where
  "rights_union r other = r OR other"

fun valid_for :: "resource_class \<Rightarrow> rights" where
  "valid_for PersistentObject = READ OR WRITE OR INSPECT OR DELEGATE OR REVOKE"
| "valid_for ProcessControl = OBSERVE OR SIGNAL OR TERMINATE OR DELEGATE OR REVOKE"
| "valid_for IpcEndpoint = READ OR WRITE OR DELEGATE OR REVOKE"
| "valid_for BlockDevice = READ OR WRITE OR INSPECT OR DELEGATE OR REVOKE"
| "valid_for LifecycleControl = OBSERVE OR SIGNAL OR TERMINATE OR DELEGATE OR REVOKE"
| "valid_for Audit = AUDIT_READ OR DELEGATE"
| "valid_for Network = NET_RESOLVE OR NET_CONNECT OR NET_SEND OR NET_RECEIVE OR NET_RAW_DEVICE
     OR DELEGATE OR REVOKE"
| "valid_for SharedBuffer = READ OR WRITE OR DELEGATE OR REVOKE"
| "valid_for Graphics = GFX_CONNECT OR GFX_SHELL OR GFX_OVERLAY OR GFX_SERVE OR DELEGATE OR REVOKE"
| "valid_for Display = DISPLAY_PRESENT OR INSPECT"
| "valid_for Input = INPUT_CONSUME OR INSPECT"

fun root_only_for :: "resource_class \<Rightarrow> rights" where
  "root_only_for Graphics = GFX_SHELL OR GFX_OVERLAY OR GFX_SERVE"
| "root_only_for SharedBuffer = WRITE OR DELEGATE OR REVOKE"
| "root_only_for _ = rights_empty"

text \<open>
  \<open>write_names\<close> prints the names of the set bits, lowest first, separated by bars; the text goes to
  any \<open>fmt::Write\<close>, so the model is the text itself.
\<close>

definition RIGHT_NAMES :: "(string \<times> rights) list" where
  "RIGHT_NAMES =
     [(''read'', push_bit 0 1), (''write'', push_bit 1 1), (''inspect'', push_bit 2 1),
      (''delegate'', push_bit 3 1), (''revoke'', push_bit 4 1), (''observe'', push_bit 5 1),
      (''signal'', push_bit 6 1), (''terminate'', push_bit 7 1), (''audit_read'', push_bit 8 1),
      (''net_resolve'', push_bit 9 1), (''net_connect'', push_bit 10 1),
      (''net_send'', push_bit 11 1), (''net_receive'', push_bit 12 1),
      (''net_raw_device'', push_bit 13 1), (''gfx_connect'', push_bit 14 1),
      (''gfx_shell'', push_bit 15 1), (''gfx_overlay'', push_bit 16 1),
      (''gfx_serve'', push_bit 17 1), (''display_present'', push_bit 18 1),
      (''input_consume'', push_bit 19 1)]"

fun write_names_loop :: "(string \<times> rights) list \<Rightarrow> rights \<Rightarrow> bool \<Rightarrow> string" where
  "write_names_loop [] r first = ''''"
| "write_names_loop ((name, b) # rest) r first =
     (if r AND b \<noteq> 0
      then (if first then '''' else ''|'') @ name @ write_names_loop rest r False
      else write_names_loop rest r first)"

definition write_names :: "rights \<Rightarrow> string" where
  "write_names r = write_names_loop RIGHT_NAMES r True"

section \<open>Handles, holders, provenance, records\<close>

type_synonym holder_id = u64

definition HOLDER_KERNEL :: holder_id where
  "HOLDER_KERNEL = 0"

definition MAX_SLOTS :: nat where
  "MAX_SLOTS = 64"

definition MAX_DELEGATION_DEPTH :: u8 where
  "MAX_DELEGATION_DEPTH = 4"

record cap_handle =
  h_slot :: u16
  h_generation :: u32

definition HANDLE_INVALID :: cap_handle where
  "HANDLE_INVALID = \<lparr>h_slot = 0, h_generation = 0\<rparr>"

definition handle_encode :: "cap_handle \<Rightarrow> u64" where
  "handle_encode h = ucast (h_slot h) OR push_bit 16 (ucast (h_generation h))"

definition handle_decode :: "u64 \<Rightarrow> cap_error + cap_handle" where
  "handle_decode raw =
     (if raw AND 0xffff000000000000 \<noteq> 0 then Inl InvalidHandle
      else let slot = ucast raw :: u16; generation = ucast (drop_bit 16 raw) :: u32 in
        if generation = 0 then Inl InvalidHandle
        else Inr \<lparr>h_slot = slot, h_generation = generation\<rparr>)"

definition generation_next :: "u32 \<Rightarrow> u32 option" where
  "generation_next current = (if current = - 1 then None else Some (current + 1))"

datatype cap_state = Empty | Live | Revoked | Retired

record provenance =
  prov_parent :: "cap_handle option"
  prov_depth :: u8
  root_holder :: holder_id

definition provenance_root :: "holder_id \<Rightarrow> provenance" where
  "provenance_root holder = \<lparr>prov_parent = None, prov_depth = 0, root_holder = holder\<rparr>"

definition child_of :: "cap_handle \<Rightarrow> provenance \<Rightarrow> cap_error + provenance" where
  "child_of parent_handle pp =
     rbind (ok_or DelegationDepthExceeded (checked_add (prov_depth pp) 1)) (\<lambda>new_depth.
       if new_depth > MAX_DELEGATION_DEPTH then Inl DelegationDepthExceeded
       else Inr \<lparr>prov_parent = Some parent_handle, prov_depth = new_depth,
                 root_holder = root_holder pp\<rparr>)"

record cap_record =
  rec_state :: cap_state
  rec_holder :: holder_id
  rec_resource :: resource_ref
  rec_rights :: rights
  rec_provenance :: provenance
  rec_generation :: u32

definition RECORD_EMPTY :: cap_record where
  "RECORD_EMPTY =
     \<lparr>rec_state = Empty, rec_holder = 0,
      rec_resource = \<lparr>res_class = PersistentObject, res_id = 0, instance_generation = 0\<rparr>,
      rec_rights = rights_empty,
      rec_provenance = \<lparr>prov_parent = None, prov_depth = 0, root_holder = 0\<rparr>,
      rec_generation = 0\<rparr>"

section \<open>Authorization decisions\<close>

definition authorize ::
  "cap_record \<Rightarrow> cap_handle \<Rightarrow> holder_id \<Rightarrow> resource_ref \<Rightarrow> rights \<Rightarrow> cap_error + unit" where
  "authorize record handle holder resource required =
     (if rec_state record = Empty then Inl InvalidHandle
      else if rec_state record = Retired then Inl StaleHandle
      else if rec_generation record \<noteq> h_generation handle then Inl StaleHandle
      else if rec_state record = Revoked then Inl RevokedError
      else if rec_holder record \<noteq> holder then Inl UnauthorizedHolder
      else if rec_resource record \<noteq> resource then Inl WrongResource
      else if \<not> rights_contains (rec_rights record) required then Inl MissingRight
      else Inr ())"

definition validate_delegation ::
  "cap_record \<Rightarrow> cap_handle \<Rightarrow> holder_id \<Rightarrow> rights \<Rightarrow> cap_error + rights" where
  "validate_delegation parent parent_handle source_holder requested =
     rbind (authorize parent parent_handle source_holder (rec_resource parent) DELEGATE) (\<lambda>_.
       if \<not> is_subset_of requested (rec_rights parent) then Inl RightsWidening
       else if \<not> is_subset_of requested (valid_for (res_class (rec_resource parent)))
       then Inl InvalidRights
       else if rights_intersects requested (root_only_for (res_class (rec_resource parent)))
       then Inl NotDelegable
       else Inr requested)"

section \<open>Facts about the data\<close>

lemma cap_error_u8_roundtrip: "cap_error_from_u8 (cap_error_as_u8 e) = Some e"
  by (cases e) (simp_all add: cap_error_from_u8_def)

lemma class_u8_roundtrip: "class_from_u8 (class_as_u8 c) = Some c"
  by (cases c) (simp_all add: class_from_u8_def)

lemma class_from_u8_inverse: "class_from_u8 raw = Some c \<Longrightarrow> class_as_u8 c = raw"
  by (auto simp: class_from_u8_def split: if_splits)

lemma is_subset_of_refl [simp]: "is_subset_of r r"
  by (simp add: is_subset_of_def)

lemma is_subset_of_trans: "is_subset_of a b \<Longrightarrow> is_subset_of b c \<Longrightarrow> is_subset_of a c"
  unfolding is_subset_of_def by (rule word_and_subset_trans)

lemma is_subset_of_bits: "is_subset_of a b \<longleftrightarrow> (\<forall>n. bit a n \<longrightarrow> bit b n)"
proof
  assume "is_subset_of a b"
  then have "bit a n = bit (a AND b) n" for n by (simp add: is_subset_of_def)
  then show "\<forall>n. bit a n \<longrightarrow> bit b n" unfolding bit_and_iff by blast
next
  assume "\<forall>n. bit a n \<longrightarrow> bit b n"
  then show "is_subset_of a b"
    unfolding is_subset_of_def by (intro bit_word_eqI) (auto simp: bit_and_iff)
qed

lemma rights_contains_subset: "rights_contains a b \<longleftrightarrow> is_subset_of b a"
  by (simp add: rights_contains_def is_subset_of_def and.commute)

lemma empty_is_subset [simp]: "is_subset_of 0 a"
  by (simp add: is_subset_of_def)

lemma attenuate_subset: "is_subset_of (attenuate r m) r" "is_subset_of (attenuate r m) m"
  by (auto simp: is_subset_of_bits attenuate_def bit_simps)

lemma generation_next_Some:
  "generation_next g = Some g' \<longleftrightarrow> g \<noteq> - 1 \<and> g' = g + 1"
  by (auto simp: generation_next_def)

lemma generation_next_greater: "generation_next g = Some g' \<Longrightarrow> unat g' = Suc (unat g)"
  by (simp add: generation_next_Some unat_succ)

lemma generation_next_nonzero: "generation_next g = Some g' \<Longrightarrow> g' \<noteq> 0"
  using generation_next_greater by (metis nat.distinct(1) unat_0)

lemma child_of_Inr:
  "child_of h pp = Inr p \<longleftrightarrow>
     unat (prov_depth pp) < 4 \<and>
     p = \<lparr>prov_parent = Some h, prov_depth = prov_depth pp + 1, root_holder = root_holder pp\<rparr>"
proof (cases "checked_add (prov_depth pp) 1")
  case None
  then have "255 \<le> unat (prov_depth pp)" by (simp add: checked_add_None)
  with None show ?thesis by (auto simp: child_of_def ok_or_def)
next
  case (Some d)
  then have d: "d = prov_depth pp + 1" "unat d = Suc (unat (prov_depth pp))"
    by (auto simp: checked_add_Some)
  then have "d > MAX_DELEGATION_DEPTH \<longleftrightarrow> 4 \<le> unat (prov_depth pp)"
    by (auto simp: MAX_DELEGATION_DEPTH_def word_less_nat_alt)
  with Some d show ?thesis by (auto simp: child_of_def ok_or_def)
qed

lemma child_of_depth:
  "child_of h pp = Inr p \<Longrightarrow> unat (prov_depth p) = Suc (unat (prov_depth pp)) \<and> unat (prov_depth p) \<le> 4"
proof -
  assume c: "child_of h pp = Inr p"
  then have "unat (prov_depth pp) < 4" and p: "prov_depth p = prov_depth pp + 1"
    by (auto simp: child_of_Inr)
  then have "prov_depth pp \<noteq> - 1" by (auto simp: unat_max_word)
  with p have "unat (prov_depth p) = Suc (unat (prov_depth pp))"
    by (simp add: unat_succ)
  with \<open>unat (prov_depth pp) < 4\<close> show ?thesis by simp
qed

lemma child_of_Inl: "child_of h pp = Inl e \<Longrightarrow> e = DelegationDepthExceeded"
  by (auto simp: child_of_def result_simps split: if_splits)

lemma authorize_Inr:
  "authorize r h holder res req = Inr () \<longleftrightarrow>
     rec_state r = Live \<and> rec_generation r = h_generation h \<and> rec_holder r = holder
     \<and> rec_resource r = res \<and> is_subset_of req (rec_rights r)"
  by (cases "rec_state r") (auto simp: authorize_def rights_contains_subset)

lemma validate_delegation_Inr:
  "validate_delegation p h src req = Inr r \<longleftrightarrow>
     r = req \<and> rec_state p = Live \<and> rec_generation p = h_generation h \<and> rec_holder p = src
     \<and> is_subset_of DELEGATE (rec_rights p) \<and> is_subset_of req (rec_rights p)
     \<and> is_subset_of req (valid_for (res_class (rec_resource p)))
     \<and> \<not> rights_intersects req (root_only_for (res_class (rec_resource p)))"
  by (auto simp: validate_delegation_def result_simps authorize_Inr split: if_splits)

lemma bit_ALL_KNOWN: "bit ALL_KNOWN n \<longleftrightarrow> n < 20"
proof -
  have "ALL_KNOWN = mask 20"
    by (simp add: ALL_KNOWN_def mask_eq_exp_minus_1)
  then have "bit ALL_KNOWN n = bit (mask 20 :: u32) n" by simp
  then show ?thesis by (simp only: bit_mask_iff) auto
qed

lemma rights_from_bits_Some:
  "rights_from_bits b = Some r \<longleftrightarrow> r = b \<and> is_subset_of b ALL_KNOWN"
proof -
  have "b AND NOT ALL_KNOWN = 0 \<longleftrightarrow> is_subset_of b ALL_KNOWN"
    unfolding is_subset_of_bits
  proof
    assume "b AND NOT ALL_KNOWN = 0"
    then have "\<not> bit (b AND NOT ALL_KNOWN) n" for n by simp
    then show "\<forall>n. bit b n \<longrightarrow> bit ALL_KNOWN n"
      using bit_imp_le_length [of b] by (auto simp: bit_simps)
  next
    assume "\<forall>n. bit b n \<longrightarrow> bit ALL_KNOWN n"
    then show "b AND NOT ALL_KNOWN = 0" by (intro bit_word_eqI) (auto simp: bit_simps)
  qed
  then show ?thesis by (auto simp: rights_from_bits_def)
qed

lemma valid_for_known: "is_subset_of (valid_for c) ALL_KNOWN"
  by (cases c) (simp_all add: is_subset_of_def ALL_KNOWN_def rights_consts)

lemma root_only_subset_valid: "is_subset_of (root_only_for c) (valid_for c)"
  by (cases c) (simp_all add: is_subset_of_def rights_empty_def rights_consts)

section \<open>The handle encoding\<close>

lemma bit_high_mask: "bit (0xffff000000000000 :: u64) n \<longleftrightarrow> 48 \<le> n \<and> n < 64"
proof -
  have "(0xffff000000000000 :: u64) = push_bit 48 (mask 16)" by (simp add: mask_eq_exp_minus_1)
  then have "bit (0xffff000000000000 :: u64) n = bit (push_bit 48 (mask 16) :: u64) n" by simp
  then show ?thesis by (simp only: bit_simps) auto
qed

lemma handle_encode_high: "handle_encode h AND 0xffff000000000000 = 0"
proof (rule bit_word_eqI)
  fix n assume n: "n < LENGTH(64)"
  have "bit (handle_encode h) n \<Longrightarrow> n < 48"
    using bit_imp_le_length [of "h_slot h"] bit_imp_le_length [of "h_generation h"]
    by (force simp: handle_encode_def bit_simps)
  then show "bit (handle_encode h AND 0xffff000000000000) n = bit 0 n"
    unfolding bit_and_iff bit_high_mask by auto
qed

lemma handle_encode_slot: "ucast (handle_encode h) = h_slot h"
  unfolding handle_encode_def by (intro bit_word_eqI) (auto simp: bit_simps)

lemma handle_encode_generation: "ucast (drop_bit 16 (handle_encode h)) = h_generation h"
  unfolding handle_encode_def
  by (intro bit_word_eqI) (auto simp: bit_simps dest: bit_imp_le_length)

lemma handle_fields_encode:
  assumes "raw AND 0xffff000000000000 = 0"
  shows "handle_encode \<lparr>h_slot = ucast raw, h_generation = ucast (drop_bit 16 raw)\<rparr> = raw"
proof (rule bit_word_eqI)
  fix n assume n: "n < LENGTH(64)"
  from assms have "\<not> bit (raw AND 0xffff000000000000) n" by simp
  with n have "48 \<le> n \<longrightarrow> \<not> bit raw n" unfolding bit_and_iff bit_high_mask by auto
  with n show "bit (handle_encode \<lparr>h_slot = ucast raw, h_generation = ucast (drop_bit 16 raw)\<rparr>) n = bit raw n"
    by (auto simp: handle_encode_def bit_simps)
qed

text \<open>
  A 64-bit value decodes to a handle exactly when it is the encoding of that handle
  and the generation is not the reserved zero: decoding inverts encoding, and no other value (in
  particular none with a bit above 47) is accepted.
\<close>

theorem handle_decode_encode:
  "handle_decode raw = Inr h \<longleftrightarrow> handle_encode h = raw \<and> h_generation h \<noteq> 0"
proof
  assume "handle_decode raw = Inr h"
  then have "raw AND 0xffff000000000000 = 0" and "ucast (drop_bit 16 raw) \<noteq> (0 :: u32)"
    and "h = \<lparr>h_slot = ucast raw, h_generation = ucast (drop_bit 16 raw)\<rparr>"
    by (auto simp: handle_decode_def Let_def split: if_splits)
  then show "handle_encode h = raw \<and> h_generation h \<noteq> 0"
    by (simp add: handle_fields_encode)
next
  assume "handle_encode h = raw \<and> h_generation h \<noteq> 0"
  then show "handle_decode raw = Inr h"
    using handle_encode_high [of h] handle_encode_slot [of h] handle_encode_generation [of h]
    by (auto simp: handle_decode_def Let_def)
qed

end
