(* ===== verification/Cap_Table.thy ===== *)
theory Cap_Table
  imports Cap_Types
begin

text \<open>
  The slot table of the \<open>capability\<close> crate (\<open>table.rs\<close>): \<open>CapabilityTable<N>\<close> as a record of its slot
  array and live counter, with \<open>N\<close> the length of the array, and one definition per method. The
  invariant \<open>table_wf\<close> ties the counter to the slots, bounds the capacity by the 16-bit slot field
  of a handle and keeps live generations non-zero and live rights non-empty and valid for their class.
\<close>

section \<open>State and operations\<close>

record cap_table =
  slots :: "cap_record list"
  live_count :: nat

definition table_new :: "nat \<Rightarrow> cap_table" where
  "table_new n = \<lparr>slots = replicate n RECORD_EMPTY, live_count = 0\<rparr>"

definition capacity :: "cap_table \<Rightarrow> nat" where
  "capacity t = length (slots t)"

definition set_slot :: "cap_table \<Rightarrow> nat \<Rightarrow> cap_record \<Rightarrow> cap_table" where
  "set_slot t slot r = t\<lparr>slots := (slots t)[slot := r]\<rparr>"

definition validate_rights :: "resource_class \<Rightarrow> rights \<Rightarrow> cap_error + unit" where
  "validate_rights class rights =
     (if rights = rights_empty then Inl InvalidRights
      else if \<not> is_subset_of rights (valid_for class) then Inl InvalidRights
      else Inr ())"

definition slot_index :: "cap_table \<Rightarrow> cap_handle \<Rightarrow> cap_error + nat" where
  "slot_index t handle =
     (let slot = unat (h_slot handle) in
      if slot \<ge> capacity t then Inl InvalidHandle else Inr slot)"

definition slot_as_u16 :: "nat \<Rightarrow> cap_error + u16" where
  "slot_as_u16 slot = (if slot < 65536 then Inr (of_nat slot) else Inl CapacityExhausted)"

text \<open>
  \<open>pick_empty_slot\<close> scans upwards; an empty slot whose generation is exhausted is retired on the way,
  which is a change of the table even when the scan fails.
\<close>

fun pick_empty_slot_from ::
  "nat list \<Rightarrow> cap_table \<Rightarrow> (cap_error + nat \<times> u32) \<times> cap_table" where
  "pick_empty_slot_from [] t = (Inl CapacityExhausted, t)"
| "pick_empty_slot_from (slot # rest) t =
     (let r = slots t ! slot in
      if rec_state r \<noteq> Empty then pick_empty_slot_from rest t
      else case generation_next (rec_generation r) of
             Some next \<Rightarrow> (Inr (slot, next), t)
           | None \<Rightarrow> pick_empty_slot_from rest (set_slot t slot (r\<lparr>rec_state := Retired\<rparr>)))"

definition pick_empty_slot :: "cap_table \<Rightarrow> (cap_error + nat \<times> u32) \<times> cap_table" where
  "pick_empty_slot t = pick_empty_slot_from [0..<capacity t] t"

definition grant ::
  "cap_table \<Rightarrow> holder_id \<Rightarrow> resource_ref \<Rightarrow> rights \<Rightarrow> provenance
     \<Rightarrow> (cap_error + cap_handle) \<times> cap_table" where
  "grant t holder resource rights prov =
     (case validate_rights (res_class resource) rights of
        Inl e \<Rightarrow> (Inl e, t)
      | Inr _ \<Rightarrow>
          (case pick_empty_slot t of
             (Inl e, t1) \<Rightarrow> (Inl e, t1)
           | (Inr (slot, generation), t1) \<Rightarrow>
               let record = \<lparr>rec_state = Live, rec_holder = holder, rec_resource = resource,
                             rec_rights = rights, rec_provenance = prov,
                             rec_generation = generation\<rparr>;
                   t2 = (set_slot t1 slot record)\<lparr>live_count := live_count t1 + 1\<rparr>
               in (rbind (slot_as_u16 slot) (\<lambda>s. Inr \<lparr>h_slot = s, h_generation = generation\<rparr>),
                   t2)))"

definition install :: "cap_table \<Rightarrow> cap_record \<Rightarrow> (cap_error + cap_handle) \<times> cap_table" where
  "install t record =
     (case validate_rights (res_class (rec_resource record)) (rec_rights record) of
        Inl e \<Rightarrow> (Inl e, t)
      | Inr _ \<Rightarrow>
          (case pick_empty_slot t of
             (Inl e, t1) \<Rightarrow> (Inl e, t1)
           | (Inr (slot, generation), t1) \<Rightarrow>
               let installed = \<lparr>rec_state = Live, rec_holder = rec_holder record,
                                rec_resource = rec_resource record,
                                rec_rights = rec_rights record,
                                rec_provenance = rec_provenance record,
                                rec_generation = generation\<rparr>;
                   t2 = (set_slot t1 slot installed)\<lparr>live_count := live_count t1 + 1\<rparr>
               in (rbind (slot_as_u16 slot) (\<lambda>s. Inr \<lparr>h_slot = s, h_generation = generation\<rparr>),
                   t2)))"

definition record_of :: "cap_table \<Rightarrow> cap_handle \<Rightarrow> cap_error + cap_record" where
  "record_of t handle =
     rbind (slot_index t handle) (\<lambda>slot.
       let r = slots t ! slot in
       if rec_state r = Empty
       then Inl (if rec_generation r = 0 then InvalidHandle else StaleHandle)
       else if rec_state r = Retired then Inl StaleHandle
       else if rec_generation r \<noteq> h_generation handle then Inl StaleHandle
       else Inr r)"

definition table_authorize ::
  "cap_table \<Rightarrow> holder_id \<Rightarrow> cap_handle \<Rightarrow> resource_ref \<Rightarrow> rights \<Rightarrow> cap_error + cap_record" where
  "table_authorize t holder handle resource required =
     rbind (record_of t handle) (\<lambda>r.
     rbind (authorize r handle holder resource required) (\<lambda>_. Inr r))"

definition authorize_class ::
  "cap_table \<Rightarrow> holder_id \<Rightarrow> cap_handle \<Rightarrow> resource_class \<Rightarrow> rights
     \<Rightarrow> cap_error + cap_record" where
  "authorize_class t holder handle class required =
     rbind (record_of t handle) (\<lambda>r.
       if res_class (rec_resource r) \<noteq> class then Inl WrongResource
       else rbind (authorize r handle holder (rec_resource r) required) (\<lambda>_. Inr r))"

definition handle_at :: "cap_table \<Rightarrow> nat \<Rightarrow> cap_handle option" where
  "handle_at t slot =
     (if slot \<ge> capacity t then None
      else let r = slots t ! slot in
        if rec_state r = Empty then None
        else Some \<lparr>h_slot = (case slot_as_u16 slot of Inr s \<Rightarrow> s | Inl _ \<Rightarrow> 0),
                   h_generation = rec_generation r\<rparr>)"

text \<open>\<open>record_at\<close> indexes the array and panics out of range; every caller stays below \<open>N\<close>.\<close>

definition record_at :: "cap_table \<Rightarrow> nat \<Rightarrow> cap_record" where
  "record_at t slot = slots t ! slot"

definition revoke_slot :: "cap_table \<Rightarrow> nat \<Rightarrow> bool \<times> cap_table" where
  "revoke_slot t slot =
     (if slot \<ge> capacity t then (False, t)
      else let r = slots t ! slot in
        case rec_state r of
          Live \<Rightarrow> (True, (set_slot t slot (r\<lparr>rec_state := Revoked, rec_rights := rights_empty\<rparr>))
                         \<lparr>live_count := live_count t - 1\<rparr>)
        | _ \<Rightarrow> (False, t))"

definition revoke :: "cap_table \<Rightarrow> cap_handle \<Rightarrow> (cap_error + bool) \<times> cap_table" where
  "revoke t handle =
     (case slot_index t handle of
        Inl e \<Rightarrow> (Inl e, t)
      | Inr slot \<Rightarrow>
          let r = slots t ! slot in
          if rec_state r = Empty \<and> rec_generation r = 0 then (Inr False, t)
          else if rec_generation r \<noteq> h_generation handle \<or> rec_state r = Empty
          then (Inl StaleHandle, t)
          else (case revoke_slot t slot of (b, t') \<Rightarrow> (Inr b, t')))"

definition release_slot :: "cap_table \<Rightarrow> nat \<Rightarrow> bool \<times> cap_table" where
  "release_slot t slot =
     (if slot \<ge> capacity t then (False, t)
      else let r = slots t ! slot in
        if rec_state r \<noteq> Revoked then (False, t)
        else let generation = rec_generation r in
          (True, set_slot t slot
             (case generation_next generation of
                Some next \<Rightarrow> RECORD_EMPTY\<lparr>rec_generation := next\<rparr>
              | None \<Rightarrow> RECORD_EMPTY\<lparr>rec_generation := generation, rec_state := Retired\<rparr>)))"

text \<open>The three bulk revocations share their loop; only the test on the record differs.\<close>

definition revoke_release_where :: "(cap_record \<Rightarrow> bool) \<Rightarrow> cap_table \<Rightarrow> nat \<times> cap_table" where
  "revoke_release_where P t =
     fold (\<lambda>slot (count, t).
            if rec_state (slots t ! slot) = Live \<and> P (slots t ! slot)
            then (case revoke_slot t slot of
                    (True, t') \<Rightarrow> (count + 1, snd (release_slot t' slot))
                  | (False, t') \<Rightarrow> (count, t'))
            else (count, t))
       [0..<capacity t] (0, t)"

definition revoke_holder :: "cap_table \<Rightarrow> holder_id \<Rightarrow> nat \<times> cap_table" where
  "revoke_holder t holder = revoke_release_where (\<lambda>r. rec_holder r = holder) t"

definition revoke_resource :: "cap_table \<Rightarrow> resource_ref \<Rightarrow> nat \<times> cap_table" where
  "revoke_resource t resource = revoke_release_where (\<lambda>r. rec_resource r = resource) t"

definition revoke_resource_id :: "cap_table \<Rightarrow> resource_class \<Rightarrow> u64 \<Rightarrow> nat \<times> cap_table" where
  "revoke_resource_id t class i =
     revoke_release_where (\<lambda>r. res_class (rec_resource r) = class \<and> res_id (rec_resource r) = i) t"

definition state_at :: "cap_table \<Rightarrow> nat \<Rightarrow> cap_state" where
  "state_at t slot = (if slot \<ge> capacity t then Empty else rec_state (slots t ! slot))"

section \<open>Structure of the operations\<close>

abbreviation live :: "cap_table \<Rightarrow> nat \<Rightarrow> bool" where
  "live t slot \<equiv> slot < capacity t \<and> rec_state (slots t ! slot) = Live"

lemma set_slot_simps [simp]:
  "slots (set_slot t slot r) = (slots t)[slot := r]"
  "live_count (set_slot t slot r) = live_count t"
  "capacity (set_slot t slot r) = capacity t"
  by (simp_all add: set_slot_def capacity_def)

lemma capacity_live_count [simp]: "capacity (t\<lparr>live_count := n\<rparr>) = capacity t"
  by (simp add: capacity_def)

lemma capacity_new [simp]: "capacity (table_new n) = n"
  by (simp add: table_new_def capacity_def)

lemma length_slots [simp]: "length (slots t) = capacity t"
  by (simp add: capacity_def)

text \<open>What scanning for a free slot may do to any slot: retire it if it is empty and exhausted.\<close>

definition slot_scanned :: "cap_record \<Rightarrow> cap_record \<Rightarrow> bool" where
  "slot_scanned r r' \<longleftrightarrow>
     r' = r \<or> (rec_state r = Empty \<and> rec_generation r = - 1 \<and> r' = r\<lparr>rec_state := Retired\<rparr>)"

lemma slot_scanned_refl [simp]: "slot_scanned r r"
  by (simp add: slot_scanned_def)

lemma slot_scanned_trans: "slot_scanned r r' \<Longrightarrow> slot_scanned r' r'' \<Longrightarrow> slot_scanned r r''"
  by (auto simp: slot_scanned_def)

lemma slot_scanned_nonempty: "slot_scanned r r' \<Longrightarrow> rec_state r \<noteq> Empty \<Longrightarrow> r' = r"
  by (simp add: slot_scanned_def)

lemma slot_scanned_Live: "slot_scanned r r' \<Longrightarrow> rec_state r' = Live \<longleftrightarrow> rec_state r = Live"
  by (auto simp: slot_scanned_def)

definition scan_result_ok :: "cap_table \<Rightarrow> (cap_error + nat \<times> u32) \<Rightarrow> cap_table \<Rightarrow> bool" where
  "scan_result_ok t res t' \<longleftrightarrow>
     (case res of
        Inl e \<Rightarrow> e = CapacityExhausted
      | Inr (slot, g) \<Rightarrow> slot < capacity t \<and> rec_state (slots t ! slot) = Empty
          \<and> slots t' ! slot = slots t ! slot
          \<and> generation_next (rec_generation (slots t ! slot)) = Some g)"

lemma pick_empty_slot_from_spec:
  assumes "pick_empty_slot_from is t = (res, t')" and "set is \<subseteq> {..<capacity t}"
  shows "capacity t' = capacity t \<and> live_count t' = live_count t
    \<and> (\<forall>i. slot_scanned (slots t ! i) (slots t' ! i)) \<and> scan_result_ok t res t'
    \<and> (\<forall>i\<in>set is. is_ok res \<or> rec_state (slots t' ! i) \<noteq> Empty)"
  using assms
proof (induction "is" t arbitrary: res t' rule: pick_empty_slot_from.induct)
  case (1 t)
  then show ?case by (auto simp: scan_result_ok_def)
next
  case (2 slot rest t)
  let ?r = "slots t ! slot"
  from "2.prems"(2) have slot: "slot < capacity t" and rest: "set rest \<subseteq> {..<capacity t}" by auto
  show ?case
  proof (cases "rec_state ?r = Empty")
    case False
    with "2.prems" have "pick_empty_slot_from rest t = (res, t')" by simp
    from "2.IH"(1) [OF refl False this rest] have
      IH: "capacity t' = capacity t" "live_count t' = live_count t"
        "\<forall>i. slot_scanned (slots t ! i) (slots t' ! i)" "scan_result_ok t res t'"
        "\<forall>i\<in>set rest. is_ok res \<or> rec_state (slots t' ! i) \<noteq> Empty" by auto
    from IH(3) False have "slots t' ! slot = ?r" by (blast intro: slot_scanned_nonempty)
    with IH False show ?thesis by simp
  next
    case True
    show ?thesis
    proof (cases "generation_next (rec_generation ?r)")
      case (Some g)
      with True "2.prems" have "res = Inr (slot, g)" and "t' = t" by auto
      with True Some slot show ?thesis by (auto simp: scan_result_ok_def)
    next
      case None
      let ?t1 = "set_slot t slot (?r\<lparr>rec_state := Retired\<rparr>)"
      from None True "2.prems" have eq: "pick_empty_slot_from rest ?t1 = (res, t')" by simp
      have "rec_state ?r \<noteq> Empty \<Longrightarrow> False" using True by simp
      from rest have rest1: "set rest \<subseteq> {..<capacity ?t1}" by simp
      have IH: "capacity t' = capacity ?t1" "live_count t' = live_count ?t1"
          "\<forall>i. slot_scanned (slots ?t1 ! i) (slots t' ! i)" "scan_result_ok ?t1 res t'"
          "\<forall>i\<in>set rest. is_ok res \<or> rec_state (slots t' ! i) \<noteq> Empty"
        using "2.IH"(2) [OF refl _ None eq rest1] True by auto
      have one: "slot_scanned (slots t ! i) (slots ?t1 ! i)" for i
        using True None slot
        by (cases "i = slot") (auto simp: slot_scanned_def generation_next_def split: if_splits)
      have "scan_result_ok t res t'"
        using IH(4) slot True by (auto simp: scan_result_ok_def nth_list_update split: sum.splits if_splits)
      moreover have "\<forall>i. slot_scanned (slots t ! i) (slots t' ! i)"
        using one IH(3) slot_scanned_trans by blast
      moreover have "rec_state (slots t' ! slot) \<noteq> Empty"
      proof -
        have "rec_state (slots ?t1 ! slot) \<noteq> Empty" using slot by simp
        with IH(3) show ?thesis by (metis slot_scanned_nonempty)
      qed
      ultimately show ?thesis using IH by simp
    qed
  qed
qed

lemma pick_empty_slot_spec:
  assumes "pick_empty_slot t = (res, t')"
  shows "capacity t' = capacity t" and "live_count t' = live_count t"
    and "\<And>i. slot_scanned (slots t ! i) (slots t' ! i)" and "scan_result_ok t res t'"
    and "\<not> is_ok res \<Longrightarrow> i < capacity t \<Longrightarrow> rec_state (slots t' ! i) \<noteq> Empty"
proof -
  have "set [0..<capacity t] \<subseteq> {..<capacity t}" by auto
  then have *: "capacity t' = capacity t \<and> live_count t' = live_count t
    \<and> (\<forall>i. slot_scanned (slots t ! i) (slots t' ! i)) \<and> scan_result_ok t res t'
    \<and> (\<forall>i\<in>set [0..<capacity t]. is_ok res \<or> rec_state (slots t' ! i) \<noteq> Empty)"
    by (intro pick_empty_slot_from_spec) (use assms in \<open>simp_all add: pick_empty_slot_def\<close>)
  then show "capacity t' = capacity t" and "live_count t' = live_count t"
    and "\<And>i. slot_scanned (slots t ! i) (slots t' ! i)" and "scan_result_ok t res t'"
    by blast+
  show "rec_state (slots t' ! i) \<noteq> Empty" if "\<not> is_ok res" "i < capacity t"
    using * that by auto
qed

text \<open>\<open>grant\<close> and \<open>install\<close> build the same record; \<open>install\<close> ignores the state and generation it is given.\<close>

lemma grant_eq_install:
  "grant t holder resource rights prov =
     install t \<lparr>rec_state = st, rec_holder = holder, rec_resource = resource, rec_rights = rights,
                rec_provenance = prov, rec_generation = g\<rparr>"
  by (simp add: grant_def install_def Let_def split: sum.split prod.split)

definition installed_as :: "cap_record \<Rightarrow> u32 \<Rightarrow> cap_record" where
  "installed_as r g = r\<lparr>rec_state := Live, rec_generation := g\<rparr>"

lemma installed_as_simps [simp]:
  "rec_state (installed_as r g) = Live" "rec_generation (installed_as r g) = g"
  "rec_holder (installed_as r g) = rec_holder r" "rec_resource (installed_as r g) = rec_resource r"
  "rec_rights (installed_as r g) = rec_rights r"
  "rec_provenance (installed_as r g) = rec_provenance r"
  by (simp_all add: installed_as_def)

lemma validate_rights_Inr:
  "validate_rights c r = Inr u \<longleftrightarrow> r \<noteq> 0 \<and> is_subset_of r (valid_for c)"
  by (auto simp: validate_rights_def rights_empty_def)

lemma validate_rights_Inl: "validate_rights c r = Inl e \<Longrightarrow> e = InvalidRights"
  by (auto simp: validate_rights_def split: if_splits)

lemma unat_of_nat_slot: "slot < 65536 \<Longrightarrow> unat (of_nat slot :: u16) = slot"
  by (simp add: unat_of_nat)

lemma install_Inr:
  assumes "install t r = (Inr h, t')" and "capacity t \<le> 65536"
  shows "unat (h_slot h) < capacity t"
    and "rec_state (slots t ! unat (h_slot h)) = Empty"
    and "generation_next (rec_generation (slots t ! unat (h_slot h))) = Some (h_generation h)"
    and "slots t' ! unat (h_slot h) = installed_as r (h_generation h)"
    and "i \<noteq> unat (h_slot h) \<Longrightarrow> slot_scanned (slots t ! i) (slots t' ! i)"
    and "capacity t' = capacity t" and "live_count t' = live_count t + 1"
    and "rec_rights r \<noteq> 0" and "is_subset_of (rec_rights r) (valid_for (res_class (rec_resource r)))"
proof -
  from assms(1) obtain u slot g t1 where
    v: "validate_rights (res_class (rec_resource r)) (rec_rights r) = Inr u"
    and p: "pick_empty_slot t = (Inr (slot, g), t1)"
    and h: "rbind (slot_as_u16 slot) (\<lambda>s. Inr \<lparr>h_slot = s, h_generation = g\<rparr>) = Inr h"
    and t': "t' = (set_slot t1 slot \<lparr>rec_state = Live, rec_holder = rec_holder r,
                rec_resource = rec_resource r, rec_rights = rec_rights r,
                rec_provenance = rec_provenance r, rec_generation = g\<rparr>)
              \<lparr>live_count := live_count t1 + 1\<rparr>"
    by (auto simp: install_def Let_def split: sum.splits prod.splits)
  note spec = pick_empty_slot_spec [OF p]
  from spec(4) have ok: "slot < capacity t" "rec_state (slots t ! slot) = Empty"
    "generation_next (rec_generation (slots t ! slot)) = Some g"
    by (auto simp: scan_result_ok_def)
  from h assms(2) ok(1) have hs: "unat (h_slot h) = slot" "h_generation h = g"
    by (auto simp: result_simps slot_as_u16_def unat_of_nat_slot split: if_splits)
  show "unat (h_slot h) < capacity t" "rec_state (slots t ! unat (h_slot h)) = Empty"
    "generation_next (rec_generation (slots t ! unat (h_slot h))) = Some (h_generation h)"
    using ok hs by simp_all
  show "slots t' ! unat (h_slot h) = installed_as r (h_generation h)"
    using t' hs ok spec(1) by (simp add: installed_as_def)
  show "slot_scanned (slots t ! i) (slots t' ! i)" if "i \<noteq> unat (h_slot h)"
    using t' hs that spec(3) by simp
  show "capacity t' = capacity t" "live_count t' = live_count t + 1"
    using t' spec(1,2) by simp_all
  show "rec_rights r \<noteq> 0" "is_subset_of (rec_rights r) (valid_for (res_class (rec_resource r)))"
    using v by (simp_all add: validate_rights_Inr)
qed

lemma install_Inl:
  assumes "install t r = (Inl e, t')" and "capacity t \<le> 65536"
  shows "slot_scanned (slots t ! i) (slots t' ! i)"
    and "capacity t' = capacity t" and "live_count t' = live_count t"
    and "e = InvalidRights \<and> t' = t \<or>
         e = CapacityExhausted \<and> (\<forall>i<capacity t. rec_state (slots t' ! i) \<noteq> Empty)"
proof -
  have "(validate_rights (res_class (rec_resource r)) (rec_rights r) = Inl e \<and> t' = t)
      \<or> (pick_empty_slot t = (Inl e, t'))"
  proof (cases "validate_rights (res_class (rec_resource r)) (rec_rights r)")
    case (Inr u)
    show ?thesis
    proof (cases "pick_empty_slot t")
      case (Pair res t1)
      show ?thesis
      proof (cases res)
        case (Inr sg)
        then obtain slot g where "res = Inr (slot, g)" by (cases sg) auto
        moreover from this Pair have "slot < 65536"
          using pick_empty_slot_spec(4) [of t res t1] assms(2) by (auto simp: scan_result_ok_def)
        ultimately show ?thesis
          using assms(1) Pair \<open>validate_rights _ _ = Inr u\<close>
          by (simp add: install_def slot_as_u16_def)
      qed (use assms(1) Pair \<open>validate_rights _ _ = Inr u\<close> in \<open>simp add: install_def\<close>)
    qed
  qed (use assms(1) in \<open>simp add: install_def\<close>)
  then show "slot_scanned (slots t ! i) (slots t' ! i)" "capacity t' = capacity t"
    "live_count t' = live_count t"
    "e = InvalidRights \<and> t' = t \<or>
         e = CapacityExhausted \<and> (\<forall>i<capacity t. rec_state (slots t' ! i) \<noteq> Empty)"
    using pick_empty_slot_spec [of t "Inl e" t']
    by (auto simp: scan_result_ok_def dest: validate_rights_Inl)
qed

lemma revoke_slot_eq:
  "revoke_slot t slot =
     (live t slot,
      if live t slot
      then (set_slot t slot ((slots t ! slot)\<lparr>rec_state := Revoked, rec_rights := 0\<rparr>))
             \<lparr>live_count := live_count t - 1\<rparr>
      else t)"
  by (cases "rec_state (slots t ! slot)") (auto simp: revoke_slot_def Let_def rights_empty_def)

definition released :: "cap_record \<Rightarrow> cap_record" where
  "released r = (case generation_next (rec_generation r) of
                   Some next \<Rightarrow> RECORD_EMPTY\<lparr>rec_generation := next\<rparr>
                 | None \<Rightarrow> RECORD_EMPTY\<lparr>rec_generation := rec_generation r, rec_state := Retired\<rparr>)"

lemma released_state: "rec_state (released r) = Empty \<or> rec_state (released r) = Retired"
  by (auto simp: released_def RECORD_EMPTY_def split: option.splits)

lemma released_not_live [simp]: "rec_state (released r) \<noteq> Live" "rec_state (released r) \<noteq> Revoked"
  using released_state [of r] by auto

lemma release_slot_eq:
  "release_slot t slot =
     (let rel = slot < capacity t \<and> rec_state (slots t ! slot) = Revoked in
      (rel, if rel then set_slot t slot (released (slots t ! slot)) else t))"
  by (auto simp: release_slot_def released_def Let_def)

lemma capacity_revoke_slot [simp]: "capacity (snd (revoke_slot t slot)) = capacity t"
  by (simp add: revoke_slot_eq)

lemma capacity_release_slot [simp]: "capacity (snd (release_slot t slot)) = capacity t"
  by (simp add: release_slot_eq Let_def)

lemma slots_revoke_slot:
  "slots (snd (revoke_slot t slot)) ! i =
     (if i = slot \<and> live t slot then (slots t ! i)\<lparr>rec_state := Revoked, rec_rights := 0\<rparr>
      else slots t ! i)"
  by (auto simp: revoke_slot_eq nth_list_update)

lemma slots_release_slot:
  "slots (snd (release_slot t slot)) ! i =
     (if i = slot \<and> slot < capacity t \<and> rec_state (slots t ! slot) = Revoked
      then released (slots t ! i) else slots t ! i)"
  by (auto simp: release_slot_eq Let_def nth_list_update)

lemma record_of_Inr:
  "record_of t h = Inr r \<longleftrightarrow>
     unat (h_slot h) < capacity t \<and> r = slots t ! unat (h_slot h)
     \<and> (rec_state r = Live \<or> rec_state r = Revoked) \<and> rec_generation r = h_generation h"
  by (cases "rec_state (slots t ! unat (h_slot h))")
     (auto simp: record_of_def slot_index_def Let_def result_simps)

lemma record_of_Inl: "record_of t h = Inl e \<Longrightarrow> e = InvalidHandle \<or> e = StaleHandle"
  by (auto simp: record_of_def slot_index_def Let_def result_simps split: if_splits)

lemma table_authorize_Inr:
  "table_authorize t holder h res req = Inr r \<longleftrightarrow>
     unat (h_slot h) < capacity t \<and> r = slots t ! unat (h_slot h) \<and> rec_state r = Live
     \<and> rec_generation r = h_generation h \<and> rec_holder r = holder \<and> rec_resource r = res
     \<and> is_subset_of req (rec_rights r)"
  by (auto simp: table_authorize_def result_simps record_of_Inr authorize_Inr)

lemma handle_at_Some:
  "capacity t \<le> 65536 \<Longrightarrow> handle_at t slot = Some h \<longleftrightarrow>
     slot < capacity t \<and> rec_state (slots t ! slot) \<noteq> Empty
     \<and> h = \<lparr>h_slot = of_nat slot, h_generation = rec_generation (slots t ! slot)\<rparr>"
  by (auto simp: handle_at_def Let_def slot_as_u16_def)

lemma record_of_handle_at:
  assumes "capacity t \<le> 65536" and "live t slot"
  obtains h where "handle_at t slot = Some h" and "unat (h_slot h) = slot"
    and "record_of t h = Inr (slots t ! slot)"
proof
  let ?h = "\<lparr>h_slot = of_nat slot, h_generation = rec_generation (slots t ! slot)\<rparr>"
  show "handle_at t slot = Some ?h" using assms by (simp add: handle_at_Some)
  show "unat (h_slot ?h) = slot" using assms by (simp add: unat_of_nat_slot)
  then show "record_of t ?h = Inr (slots t ! slot)" using assms by (simp add: record_of_Inr)
qed

section \<open>The table invariant\<close>

definition record_wf :: "cap_record \<Rightarrow> bool" where
  "record_wf r \<longleftrightarrow>
     (rec_state r = Live \<longrightarrow> rec_generation r \<noteq> 0 \<and> rec_rights r \<noteq> 0
        \<and> is_subset_of (rec_rights r) (valid_for (res_class (rec_resource r))))
     \<and> (rec_state r = Revoked \<longrightarrow> rec_generation r \<noteq> 0 \<and> rec_rights r = 0)"

definition table_wf :: "cap_table \<Rightarrow> bool" where
  "table_wf t \<longleftrightarrow>
     capacity t \<le> 65536
     \<and> live_count t = length (filter (\<lambda>r. rec_state r = Live) (slots t))
     \<and> (\<forall>r\<in>set (slots t). record_wf r)"

lemma table_wfD:
  "table_wf t \<Longrightarrow> capacity t \<le> 65536"
  "table_wf t \<Longrightarrow> i < capacity t \<Longrightarrow> record_wf (slots t ! i)"
  by (auto simp: table_wf_def)

lemma record_wf_scanned: "slot_scanned r r' \<Longrightarrow> record_wf r \<Longrightarrow> record_wf r'"
  by (auto simp: slot_scanned_def record_wf_def)

lemma record_wf_released: "record_wf (released r)"
  using released_not_live [of r] by (simp add: record_wf_def)

lemma table_wf_new: "n \<le> 65536 \<Longrightarrow> table_wf (table_new n)"
  by (auto simp: table_wf_def table_new_def capacity_def RECORD_EMPTY_def record_wf_def)

text \<open>Two tables whose slots are live at the same places count the same live slots.\<close>

lemma live_filter_cong:
  assumes "capacity t' = capacity t" and "\<And>i. i < capacity t \<Longrightarrow> live t' i \<longleftrightarrow> live t i"
  shows "length (filter (\<lambda>r. rec_state r = Live) (slots t'))
       = length (filter (\<lambda>r. rec_state r = Live) (slots t))"
proof -
  have "{i. i < length (slots t') \<and> rec_state (slots t' ! i) = Live}
      = {i. i < length (slots t) \<and> rec_state (slots t ! i) = Live}"
    using assms by auto
  then show ?thesis by (simp only: length_filter_conv_card)
qed

lemma table_wf_scanned:
  assumes "table_wf t" and "capacity t' = capacity t" and "live_count t' = live_count t"
    and "\<And>i. slot_scanned (slots t ! i) (slots t' ! i)"
  shows "table_wf t'"
proof -
  have "length (filter (\<lambda>r. rec_state r = Live) (slots t'))
      = length (filter (\<lambda>r. rec_state r = Live) (slots t))"
    using assms(2,4) slot_scanned_Live by (intro live_filter_cong) auto
  moreover have "record_wf (slots t' ! i)" if "i < capacity t'" for i
    using that assms record_wf_scanned table_wfD(2) by metis
  ultimately show ?thesis
    using assms by (auto simp: table_wf_def in_set_conv_nth)
qed

lemma table_wf_set_slot:
  assumes "table_wf t" and "slot < capacity t" and "record_wf r"
  shows "table_wf ((set_slot t slot r)\<lparr>live_count :=
           live_count t + (if rec_state r = Live then 1 else 0)
                        - (if live t slot then 1 else 0)\<rparr>)"
proof -
  have "length (filter (\<lambda>r. rec_state r = Live) ((slots t)[slot := r]))
          + (if rec_state (slots t ! slot) = Live then 1 else 0)
      = length (filter (\<lambda>r. rec_state r = Live) (slots t)) + (if rec_state r = Live then 1 else 0)"
    using assms(2) length_filter_update [of slot "slots t" "\<lambda>r. rec_state r = Live" r] by simp
  moreover have "\<forall>x\<in>set ((slots t)[slot := r]). record_wf x"
    using assms set_update_subset_insert [of "slots t" slot r] by (auto simp: table_wf_def)
  ultimately show ?thesis
    using assms by (auto simp: table_wf_def)
qed

lemma table_wf_revoke_slot [inv_intros]:
  assumes "table_wf t"
  shows "table_wf (snd (revoke_slot t slot))"
proof (cases "live t slot")
  case True
  then have "record_wf ((slots t ! slot)\<lparr>rec_state := Revoked, rec_rights := 0\<rparr>)"
    using table_wfD(2) [OF assms, of slot] by (simp add: record_wf_def)
  with True assms show ?thesis
    using table_wf_set_slot [of t slot "(slots t ! slot)\<lparr>rec_state := Revoked, rec_rights := 0\<rparr>"]
    by (simp add: revoke_slot_eq)
qed (use assms in \<open>auto simp: revoke_slot_eq\<close>)

lemma table_wf_release_slot [inv_intros]:
  assumes "table_wf t"
  shows "table_wf (snd (release_slot t slot))"
proof (cases "slot < capacity t \<and> rec_state (slots t ! slot) = Revoked")
  case True
  then show ?thesis
    using assms table_wf_set_slot [of t slot "released (slots t ! slot)"]
    by (simp add: release_slot_eq Let_def record_wf_released set_slot_def)
qed (use assms in \<open>auto simp: release_slot_eq\<close>)

lemma table_wf_install [inv_intros]:
  assumes "table_wf t"
  shows "table_wf (snd (install t r))"
proof (cases "install t r")
  case (Pair res t')
  note cap = table_wfD(1) [OF assms]
  show ?thesis
  proof (cases res)
    case (Inl e)
    with Pair have "install t r = (Inl e, t')" by simp
    from install_Inl [OF this cap] Pair assms show ?thesis
      by (auto intro: table_wf_scanned)
  next
    case (Inr h)
    with Pair have eq: "install t r = (Inr h, t')" by simp
    note spec = install_Inr [OF eq cap]
    let ?s = "unat (h_slot h)"
    let ?t1 = "(set_slot t' ?s (slots t ! ?s))\<lparr>live_count := live_count t\<rparr>"
    have "table_wf ?t1"
    proof (rule table_wf_scanned [OF assms])
      show "slot_scanned (slots t ! i) (slots ?t1 ! i)" for i
        using spec(1,5,6) by (cases "i = ?s") simp_all
    qed (use spec in simp_all)
    moreover have "t' = (set_slot ?t1 ?s (slots t' ! ?s))\<lparr>live_count := live_count t + 1\<rparr>"
      using spec(7) by (simp add: set_slot_def)
    moreover have "record_wf (slots t' ! ?s)"
      using spec(3,4,8,9) generation_next_nonzero by (simp add: record_wf_def)
    ultimately show ?thesis
      using Pair spec table_wf_set_slot [of ?t1 ?s "slots t' ! ?s"] by simp
  qed
qed

lemma table_wf_grant [inv_intros]: "table_wf t \<Longrightarrow> table_wf (snd (grant t ho re ri p))"
  unfolding grant_eq_install [of t ho re ri p Live 0] by (rule table_wf_install)

lemma table_wf_revoke [inv_intros]: "table_wf t \<Longrightarrow> table_wf (snd (revoke t h))"
  using table_wf_revoke_slot [of t "unat (h_slot h)"]
  by (auto simp: revoke_def slot_index_def Let_def split: sum.splits prod.splits if_splits)

section \<open>Runs of table operations\<close>

text \<open>
  Every public operation that changes the table is a sequence of the three elementary ones:
  installing a record, revoking a slot in place and releasing a revoked slot.
\<close>

inductive table_step :: "cap_table \<Rightarrow> cap_table \<Rightarrow> bool" where
  step_install: "table_step t (snd (install t r))"
| step_revoke_slot: "table_step t (snd (revoke_slot t slot))"
| step_release_slot: "table_step t (snd (release_slot t slot))"

abbreviation table_run :: "cap_table \<Rightarrow> cap_table \<Rightarrow> bool" where
  "table_run \<equiv> table_step\<^sup>*\<^sup>*"

lemma run_install [inv_intros]: "table_run t (snd (install t r))"
  by (intro r_into_rtranclp step_install)

lemma run_revoke_slot [inv_intros]: "table_run t (snd (revoke_slot t slot))"
  by (intro r_into_rtranclp step_revoke_slot)

lemma run_release_slot [inv_intros]: "table_run t (snd (release_slot t slot))"
  by (intro r_into_rtranclp step_release_slot)

lemma run_grant [inv_intros]: "table_run t (snd (grant t ho re ri p))"
  unfolding grant_eq_install [of t ho re ri p Live 0] by (rule run_install)

lemma run_revoke [inv_intros]: "table_run t (snd (revoke t h))"
  using run_revoke_slot [of t "unat (h_slot h)"]
  by (auto simp: revoke_def slot_index_def Let_def split: sum.splits prod.splits if_splits)

text \<open>A loop over slots that carries an accumulator beside the table.\<close>

lemma fold_run:
  assumes "\<And>x a t. table_run t (snd (f x (a, t)))"
  shows "table_run t (snd (fold f xs (a, t)))"
proof -
  have "table_run t (snd s) \<Longrightarrow> table_run t (snd (fold f xs s))" for s
  proof (induction xs arbitrary: s)
    case (Cons x xs)
    have "table_run (snd s) (snd (f x s))" using assms [of "snd s" x "fst s"] by simp
    with Cons.prems have "table_run t (snd (f x s))" by (rule rtranclp_trans)
    then show ?case using Cons.IH by simp
  qed simp
  then show ?thesis by simp
qed

lemma run_revoke_release_where [inv_intros]: "table_run t (snd (revoke_release_where P t))"
  unfolding revoke_release_where_def
proof (rule fold_run)
  fix slot count t
  have "table_run t (snd (revoke_slot t slot))" by (rule run_revoke_slot)
  moreover have "table_run (snd (revoke_slot t slot)) (snd (release_slot (snd (revoke_slot t slot)) slot))"
    by (rule run_release_slot)
  ultimately have "table_run t (snd (release_slot (snd (revoke_slot t slot)) slot))"
    by (rule rtranclp_trans)
  then show "table_run t (snd (case (count, t) of (count, t) \<Rightarrow>
        if rec_state (slots t ! slot) = Live \<and> P (slots t ! slot)
        then case revoke_slot t slot of (True, t') \<Rightarrow> (count + 1, snd (release_slot t' slot))
             | (False, t') \<Rightarrow> (count, t')
        else (count, t)))"
    using run_revoke_slot [of t slot] by (auto split: prod.splits bool.splits)
qed

lemma run_revoke_holder [inv_intros]: "table_run t (snd (revoke_holder t ho))"
  by (simp add: revoke_holder_def run_revoke_release_where)

lemma run_revoke_resource [inv_intros]: "table_run t (snd (revoke_resource t re))"
  by (simp add: revoke_resource_def run_revoke_release_where)

lemma run_revoke_resource_id [inv_intros]: "table_run t (snd (revoke_resource_id t c i))"
  by (simp add: revoke_resource_id_def run_revoke_release_where)

interpretation tbl: transition_system "\<lambda>t. \<exists>n\<le>65536. t = table_new n" table_step table_wf
proof
  fix s assume "\<exists>n\<le>65536. s = table_new n"
  then show "table_wf s" by (auto intro: table_wf_new)
next
  fix s t assume "table_wf s" and "table_step s t"
  from this(2,1) show "table_wf t"
    by (induction rule: table_step.induct) (auto intro: inv_intros)
qed

subsection \<open>How a slot evolves\<close>

text \<open>
  A slot's generation never decreases, and while it stays the same the slot keeps naming the same
  capability: a record that resolves resolved before with the same holder, resource and
  provenance, its rights have only shrunk, and it is live only if it was live, unchanged.
\<close>

definition resolvable :: "cap_record \<Rightarrow> bool" where
  "resolvable r \<longleftrightarrow> rec_state r = Live \<or> rec_state r = Revoked"

definition same_capability :: "cap_record \<Rightarrow> cap_record \<Rightarrow> bool" where
  "same_capability r r' \<longleftrightarrow>
     rec_holder r' = rec_holder r \<and> rec_resource r' = rec_resource r
     \<and> rec_provenance r' = rec_provenance r \<and> is_subset_of (rec_rights r') (rec_rights r)
     \<and> (rec_state r' = Live \<longrightarrow> r' = r)"

definition slot_evolves :: "cap_record \<Rightarrow> cap_record \<Rightarrow> bool" where
  "slot_evolves r r' \<longleftrightarrow>
     rec_generation r \<le> rec_generation r'
     \<and> (rec_generation r' = rec_generation r \<and> resolvable r' \<longrightarrow> resolvable r \<and> same_capability r r')"

definition table_evolves :: "cap_table \<Rightarrow> cap_table \<Rightarrow> bool" where
  "table_evolves t t' \<longleftrightarrow>
     capacity t' = capacity t \<and> (\<forall>i<capacity t. slot_evolves (slots t ! i) (slots t' ! i))"

lemma same_capability_refl [simp]: "same_capability r r"
  by (simp add: same_capability_def)

lemma same_capability_trans:
  "same_capability r r' \<Longrightarrow> same_capability r' r'' \<Longrightarrow> same_capability r r''"
  by (auto simp: same_capability_def intro: is_subset_of_trans)

lemma slot_evolves_refl [simp]: "slot_evolves r r"
  by (simp add: slot_evolves_def)

lemma slot_evolves_trans:
  assumes "slot_evolves r r'" and "slot_evolves r' r''"
  shows "slot_evolves r r''"
proof -
  have "rec_generation r \<le> rec_generation r'" "rec_generation r' \<le> rec_generation r''"
    using assms by (auto simp: slot_evolves_def)
  moreover have "rec_generation r'' = rec_generation r \<Longrightarrow> rec_generation r' = rec_generation r"
    using calculation by auto
  ultimately show ?thesis
    using assms by (auto simp: slot_evolves_def intro: same_capability_trans)
qed

lemma slot_evolves_scanned: "slot_scanned r r' \<Longrightarrow> slot_evolves r r'"
  by (auto simp: slot_scanned_def slot_evolves_def resolvable_def)

lemma slot_evolves_next:
  "generation_next (rec_generation r) = Some (rec_generation r') \<Longrightarrow> slot_evolves r r'"
  using generation_next_greater [of "rec_generation r" "rec_generation r'"]
  by (auto simp: slot_evolves_def word_le_nat_alt)

lemma slot_evolves_revoked: "slot_evolves r (r\<lparr>rec_state := Revoked, rec_rights := 0\<rparr>)"
  if "rec_state r = Live"
  using that by (simp add: slot_evolves_def resolvable_def same_capability_def)

lemma slot_evolves_released: "slot_evolves r (released r)"
proof (cases "generation_next (rec_generation r)")
  case None
  then show ?thesis by (simp add: released_def slot_evolves_def resolvable_def)
next
  case (Some g)
  then show ?thesis by (intro slot_evolves_next) (simp add: released_def)
qed

lemma table_evolves_refl: "table_evolves t t"
  by (simp add: table_evolves_def)

lemma table_evolves_trans: "table_evolves s t \<Longrightarrow> table_evolves t u \<Longrightarrow> table_evolves s u"
  by (auto simp: table_evolves_def intro: slot_evolves_trans)

lemma install_evolves:
  assumes "capacity t \<le> 65536"
  shows "table_evolves t (snd (install t r))"
proof (cases "install t r")
  case (Pair res t')
  show ?thesis
  proof (cases res)
    case (Inl e)
    with Pair have "install t r = (Inl e, t')" by simp
    from install_Inl [OF this assms] Pair show ?thesis
      by (simp add: table_evolves_def slot_evolves_scanned)
  next
    case (Inr h)
    with Pair have "install t r = (Inr h, t')" by simp
    note spec = install_Inr [OF this assms]
    have "slot_evolves (slots t ! i) (slots t' ! i)" for i
      using spec(3,4,5) by (cases "i = unat (h_slot h)") (auto intro: slot_evolves_next slot_evolves_scanned)
    with Pair spec show ?thesis by (simp add: table_evolves_def)
  qed
qed

lemma table_step_evolves: "table_wf t \<Longrightarrow> table_step t t' \<Longrightarrow> table_evolves t t'"
proof -
  assume wf: "table_wf t" and "table_step t t'"
  from this(2,1) show ?thesis
  proof (induction rule: table_step.induct)
    case (step_install t r)
    then show ?case by (intro install_evolves table_wfD)
  next
    case (step_revoke_slot t slot)
    show ?case by (simp add: table_evolves_def slots_revoke_slot slot_evolves_revoked)
  next
    case (step_release_slot t slot)
    show ?case by (simp add: table_evolves_def slots_release_slot slot_evolves_released)
  qed
qed

lemma table_run_evolves: "table_run t t' \<Longrightarrow> table_wf t \<Longrightarrow> table_evolves t t'"
  by (rule tbl.run_relation [where R = table_evolves])
     (auto intro: table_evolves_refl table_evolves_trans table_step_evolves)

lemma table_run_wf: "table_run t t' \<Longrightarrow> table_wf t \<Longrightarrow> table_wf t'"
  by (rule tbl.run_inv)

lemma table_run_capacity: "table_run t t' \<Longrightarrow> table_wf t \<Longrightarrow> capacity t' = capacity t"
  using table_run_evolves by (simp add: table_evolves_def)

section \<open>Evaluating concrete tables\<close>

lemma capacity_make: "capacity \<lparr>slots = xs, live_count = n\<rparr> = length xs"
  by (simp add: capacity_def del: length_slots)

lemma table_new_eval:
  "table_new 2 = \<lparr>slots = [RECORD_EMPTY, RECORD_EMPTY], live_count = 0\<rparr>"
  "table_new 3 = \<lparr>slots = [RECORD_EMPTY, RECORD_EMPTY, RECORD_EMPTY], live_count = 0\<rparr>"
  by (simp_all add: table_new_def numeral_2_eq_2 numeral_3_eq_3)

lemmas table_eval = table_new_eval capacity_make RECORD_EMPTY_def Let_def set_slot_def
  pick_empty_slot_def generation_next_def slot_as_u16_def validate_rights_def slot_index_def
  rights_empty_def is_subset_of_def rights_contains_def rights_consts resource_object_def
  provenance_root_def

text \<open>A table of two slots in which holder 10 has just been granted \<open>READ\<close> on object 42.\<close>

definition sample_record :: cap_record where
  "sample_record = \<lparr>rec_state = Live, rec_holder = 10, rec_resource = resource_object 42,
     rec_rights = READ, rec_provenance = provenance_root 10, rec_generation = 1\<rparr>"

definition sample_handle :: cap_handle where
  "sample_handle = \<lparr>h_slot = 0, h_generation = 1\<rparr>"

definition sample_table :: cap_table where
  "sample_table = \<lparr>slots = [sample_record, RECORD_EMPTY], live_count = 1\<rparr>"

lemmas sample_defs = sample_record_def sample_handle_def sample_table_def

lemma sample_grant:
  "grant (table_new 2) 10 (resource_object 42) READ (provenance_root 10)
     = (Inr sample_handle, sample_table)"
  by (simp add: grant_def table_eval sample_defs)

lemma sample_wf: "table_wf sample_table"
  using table_wf_grant [OF table_wf_new [of 2], of 10 "resource_object 42" READ "provenance_root 10"]
  by (simp add: sample_grant)

lemma sample_record_of: "record_of sample_table sample_handle = Inr sample_record"
  by (simp add: record_of_Inr sample_defs capacity_make)

section \<open>Properties of the table\<close>

lemma record_of_not_resolving:
  assumes "table_evolves t t'" and "unat (h_slot h) < capacity t"
    and "\<not> (resolvable (slots t ! unat (h_slot h)) \<and> rec_generation (slots t ! unat (h_slot h)) = h_generation h)"
    and "h_generation h \<le> rec_generation (slots t ! unat (h_slot h))" and "h_generation h \<noteq> 0"
  shows "record_of t' h = Inl StaleHandle"
proof -
  let ?r = "slots t ! unat (h_slot h)" and ?r' = "slots t' ! unat (h_slot h)"
  from assms(1,2) have cap: "unat (h_slot h) < capacity t'" and ev: "slot_evolves ?r ?r'"
    by (auto simp: table_evolves_def)
  from ev assms(4) have ge: "h_generation h \<le> rec_generation ?r'" by (auto simp: slot_evolves_def)
  then have nz: "rec_generation ?r' \<noteq> 0" using assms(5) by auto
  have "\<not> (resolvable ?r' \<and> rec_generation ?r' = h_generation h)"
  proof
    assume *: "resolvable ?r' \<and> rec_generation ?r' = h_generation h"
    with ev assms(4) have "rec_generation ?r = h_generation h" by (auto simp: slot_evolves_def)
    with * ev assms(3) show False by (auto simp: slot_evolves_def)
  qed
  with cap nz show ?thesis
    by (cases "rec_state ?r'") (auto simp: record_of_def slot_index_def Let_def resolvable_def)
qed

text \<open>
  C5 (safety). A handle names one capability for ever: whatever sequence of installs, revocations
  and releases runs on a well-formed table, a handle that resolved before either still resolves to
  the same capability (same holder, resource and provenance, rights no larger, and the very same
  record if it is live), or it is stale from then on. A slot that is reused never lets an old handle
  reach the new capability.
\<close>

theorem handle_names_one_capability:
  assumes wf: "table_wf t" and res: "record_of t h = Inr r" and run: "table_run t t'"
  shows "case record_of t' h of
           Inr r' \<Rightarrow> same_capability r r'
         | Inl e \<Rightarrow> e = StaleHandle \<and> (\<forall>t''. table_run t' t'' \<longrightarrow> record_of t'' h = Inl StaleHandle)"
proof -
  let ?r' = "slots t' ! unat (h_slot h)"
  from res have r: "unat (h_slot h) < capacity t" "r = slots t ! unat (h_slot h)"
    "resolvable r" "rec_generation r = h_generation h"
    by (auto simp: record_of_Inr resolvable_def)
  from wf r have nz: "h_generation h \<noteq> 0"
    using table_wfD(2) [OF wf r(1)] by (auto simp: record_wf_def resolvable_def)
  from run wf have ev: "table_evolves t t'" by (rule table_run_evolves)
  from run wf have wf': "table_wf t'" by (rule table_run_wf)
  from ev r have r': "unat (h_slot h) < capacity t'" "slot_evolves r ?r'"
    by (auto simp: table_evolves_def)
  show ?thesis
  proof (cases "resolvable ?r' \<and> rec_generation ?r' = h_generation h")
    case True
    with r' have "record_of t' h = Inr ?r'" by (auto simp: record_of_Inr resolvable_def)
    moreover from True r r' have "same_capability r ?r'" by (auto simp: slot_evolves_def)
    ultimately show ?thesis by simp
  next
    case False
    have ge: "h_generation h \<le> rec_generation ?r'" using r' r(4) by (auto simp: slot_evolves_def)
    have "record_of t'' h = Inl StaleHandle" if "table_run t' t''" for t''
      using that wf' False ge nz r'(1) by (intro record_of_not_resolving [of t']) (auto intro: table_run_evolves)
    moreover from this [of t'] have "record_of t' h = Inl StaleHandle" by simp
    ultimately show ?thesis by simp
  qed
qed


theorem handle_names_one_capability_witness:
  "record_of (snd (release_slot (snd (revoke_slot sample_table 0)) 0)) sample_handle
     = Inl StaleHandle"
proof -
  let ?t' = "snd (release_slot (snd (revoke_slot sample_table 0)) 0)"
  have "table_run sample_table ?t'"
    by (rule rtranclp_trans [OF run_revoke_slot run_release_slot])
  from handle_names_one_capability [OF sample_wf sample_record_of this] show ?thesis
    by (auto simp: record_of_Inr slots_release_slot slots_revoke_slot sample_defs capacity_make
             split: sum.splits)
qed

lemma install_authority:
  assumes wf: "table_wf t" and eq: "install t rc = (Inr h, t')"
  shows "record_of t' h = Inr (installed_as rc (h_generation h))"
    and "h' \<noteq> h \<Longrightarrow> table_authorize t' actor h' res' req = Inr r
                  \<longleftrightarrow> table_authorize t actor h' res' req = Inr r"
proof -
  let ?s = "unat (h_slot h)"
  note spec = install_Inr [OF eq table_wfD(1) [OF wf]]
  show "record_of t' h = Inr (installed_as rc (h_generation h))"
    using spec(1,4,6) by (simp add: record_of_Inr)
  assume ne: "h' \<noteq> h"
  show "table_authorize t' actor h' res' req = Inr r
                  \<longleftrightarrow> table_authorize t actor h' res' req = Inr r"
  proof (cases "unat (h_slot h') = ?s")
    case True
    then have "h_slot h' = h_slot h" by (simp add: word_unat_eq_iff)
    with ne have "h_generation h' \<noteq> h_generation h" by (cases h, cases h') auto
    with True spec(2,4) show ?thesis by (auto simp: table_authorize_Inr)
  next
    case False
    from spec(5) [OF False] have "slots t' ! unat (h_slot h') = slots t ! unat (h_slot h')"
      if "rec_state (slots t ! unat (h_slot h')) = Live \<or> rec_state (slots t' ! unat (h_slot h')) = Live"
      using that by (auto simp: slot_scanned_def)
    with spec(6) show ?thesis by (auto simp: table_authorize_Inr)
  qed
qed

lemma authorize_live:
  assumes "record_of t h = Inr r" and "rec_state r = Live"
  shows "table_authorize t actor h res req =
           (if actor \<noteq> rec_holder r then Inl UnauthorizedHolder
            else if res \<noteq> rec_resource r then Inl WrongResource
            else if \<not> rights_contains (rec_rights r) req then Inl MissingRight
            else Inr r)"
proof -
  have "rec_generation r = h_generation h" using assms(1) by (auto simp: record_of_Inr)
  with assms show ?thesis by (auto simp: table_authorize_def authorize_def)
qed

text \<open>
  After a successful grant the returned handle authorizes exactly the granted
  holder, resource and rights, every other request being refused with the error the code names for
  it, and no other handle gains or loses anything.
\<close>

theorem grant_then_authorize:
  assumes wf: "table_wf t" and g: "grant t holder resource rights prov = (Inr h, t')"
  shows "table_authorize t' actor h res' req =
           (if actor \<noteq> holder then Inl UnauthorizedHolder
            else if res' \<noteq> resource then Inl WrongResource
            else if \<not> rights_contains rights req then Inl MissingRight
            else Inr \<lparr>rec_state = Live, rec_holder = holder, rec_resource = resource,
                      rec_rights = rights, rec_provenance = prov,
                      rec_generation = h_generation h\<rparr>)
    \<and> (\<forall>h' r. h' \<noteq> h \<longrightarrow> (table_authorize t' actor h' res' req = Inr r
                          \<longleftrightarrow> table_authorize t actor h' res' req = Inr r))"
proof (intro conjI allI impI)
  let ?rec = "\<lparr>rec_state = Live, rec_holder = holder, rec_resource = resource,
                rec_rights = rights, rec_provenance = prov, rec_generation = 0\<rparr>"
  from g have eq: "install t ?rec = (Inr h, t')"
    by (simp add: grant_eq_install [of t holder resource rights prov Live 0])
  show "table_authorize t' actor h res' req =
           (if actor \<noteq> holder then Inl UnauthorizedHolder
            else if res' \<noteq> resource then Inl WrongResource
            else if \<not> rights_contains rights req then Inl MissingRight
            else Inr \<lparr>rec_state = Live, rec_holder = holder, rec_resource = resource,
                      rec_rights = rights, rec_provenance = prov,
                      rec_generation = h_generation h\<rparr>)"
    using authorize_live [OF install_authority(1) [OF wf eq]] by (simp add: installed_as_def)
  show "table_authorize t' actor h' res' req = Inr r
                  \<longleftrightarrow> table_authorize t actor h' res' req = Inr r" if "h' \<noteq> h" for h' r
    using that by (rule install_authority(2) [OF wf eq])
qed

theorem grant_then_authorize_witness:
  "table_authorize sample_table 10 sample_handle (resource_object 42) READ = Inr sample_record
   \<and> table_authorize sample_table 10 sample_handle (resource_object 42) WRITE = Inl MissingRight
   \<and> table_authorize sample_table 11 sample_handle (resource_object 42) READ = Inl UnauthorizedHolder"
  using grant_then_authorize [OF table_wf_new sample_grant, of 10 "resource_object 42" READ]
    grant_then_authorize [OF table_wf_new sample_grant, of 10 "resource_object 42" WRITE]
    grant_then_authorize [OF table_wf_new sample_grant, of 11 "resource_object 42" READ]
  by (simp add: rights_contains_def rights_consts sample_record_def sample_handle_def)

section \<open>Bulk revocation\<close>

definition revoked_and_released :: "(cap_record \<Rightarrow> bool) \<Rightarrow> cap_record \<Rightarrow> cap_record" where
  "revoked_and_released P r =
     (if rec_state r = Live \<and> P r then released (r\<lparr>rec_state := Revoked, rec_rights := 0\<rparr>) else r)"

lemma revoke_release_step:
  assumes "slot < capacity t" and "rec_state (slots t ! slot) = Live"
  shows "slots (snd (release_slot (snd (revoke_slot t slot)) slot))
           = (slots t)[slot := released ((slots t ! slot)\<lparr>rec_state := Revoked, rec_rights := 0\<rparr>)]"
    and "live_count (snd (release_slot (snd (revoke_slot t slot)) slot)) = live_count t - 1"
  using assms by (simp_all add: revoke_slot_eq release_slot_eq Let_def)

lemma revoke_release_loop:
  assumes "n \<le> capacity t"
  shows "let (c, t') = fold (\<lambda>slot (count, t).
            if rec_state (slots t ! slot) = Live \<and> P (slots t ! slot)
            then (case revoke_slot t slot of
                    (True, t') \<Rightarrow> (count + 1, snd (release_slot t' slot))
                  | (False, t') \<Rightarrow> (count, t'))
            else (count, t)) [0..<n] (0, t)
         in capacity t' = capacity t
          \<and> c = length (filter (\<lambda>r. rec_state r = Live \<and> P r) (take n (slots t)))
          \<and> slots t' = map (revoked_and_released P) (take n (slots t)) @ drop n (slots t)"
  using assms
proof (induction n)
  case 0
  then show ?case by simp
next
  case (Suc n)
  then obtain c t' where eq: "fold (\<lambda>slot (count, t).
            if rec_state (slots t ! slot) = Live \<and> P (slots t ! slot)
            then (case revoke_slot t slot of
                    (True, t') \<Rightarrow> (count + 1, snd (release_slot t' slot))
                  | (False, t') \<Rightarrow> (count, t'))
            else (count, t)) [0..<n] (0, t) = (c, t')"
    and IH: "capacity t' = capacity t"
      "c = length (filter (\<lambda>r. rec_state r = Live \<and> P r) (take n (slots t)))"
      "slots t' = map (revoked_and_released P) (take n (slots t)) @ drop n (slots t)"
    by (auto simp: Let_def split: prod.splits)
  from Suc.prems have n: "n < length (slots t)" by simp
  have nth: "slots t' ! n = slots t ! n" using n by (simp add: IH(3) nth_append)
  have take: "take (Suc n) (slots t) = take n (slots t) @ [slots t ! n]"
    using n by (rule take_Suc_conv_app_nth)
  have upd: "(slots t')[n := x] = map (revoked_and_released P) (take n (slots t)) @ x # drop (Suc n) (slots t)"
    for x using n by (simp add: IH(3) list_update_append Cons_nth_drop_Suc [symmetric])
  show ?case
  proof (cases "rec_state (slots t ! n) = Live \<and> P (slots t ! n)")
    case True
    then have "fst (revoke_slot t' n)" using n IH(1) nth by (simp add: revoke_slot_eq)
    then obtain t1 where t1: "revoke_slot t' n = (True, t1)" by (cases "revoke_slot t' n") auto
    with True n IH(1) nth revoke_release_step [of n t'] have
      "slots (snd (release_slot t1 n)) = (slots t')[n := revoked_and_released P (slots t ! n)]"
      by (simp add: revoked_and_released_def)
    moreover have "capacity (snd (release_slot t1 n)) = capacity t"
      using t1 IH(1) capacity_revoke_slot [of t' n] by simp
    ultimately show ?thesis using True eq t1 nth IH(2) by (simp add: take upd)
  next
    case False
    then have "revoked_and_released P (slots t ! n) = slots t ! n"
      by (auto simp: revoked_and_released_def)
    moreover have "\<not> (rec_state (slots t' ! n) = Live \<and> P (slots t' ! n))" using False nth by simp
    ultimately show ?thesis using False eq IH(1,2) n upd [of "slots t ! n"] nth
      by (auto simp: take IH(3) Cons_nth_drop_Suc)
  qed
qed

lemma revoke_release_where_spec:
  "fst (revoke_release_where P t) = length (filter (\<lambda>r. rec_state r = Live \<and> P r) (slots t))"
  "slots (snd (revoke_release_where P t)) = map (revoked_and_released P) (slots t)"
  using revoke_release_loop [of "capacity t" t P]
  by (simp_all add: revoke_release_where_def Let_def split: prod.splits)

lemma revoked_and_released_live:
  "rec_state (revoked_and_released P r) = Live \<longleftrightarrow> rec_state r = Live \<and> \<not> P r"
  by (auto simp: revoked_and_released_def)

text \<open>
  C39 (functional). Revoking by holder ends exactly the authority of that holder: the call returns
  the number of live capabilities the holder had, no handle authorizes the holder afterwards, and
  every request of another holder is decided as before.
\<close>

theorem revoke_holder_authority:
  assumes "table_wf t" and "revoke_holder t holder = (count, t')"
  shows "count = length (filter (\<lambda>r. rec_state r = Live \<and> rec_holder r = holder) (slots t))
    \<and> live_count t' = live_count t - count
    \<and> (table_authorize t' actor h res req = Inr r
        \<longleftrightarrow> actor \<noteq> holder \<and> table_authorize t actor h res req = Inr r)"
proof -
  let ?P = "\<lambda>r. rec_holder r = holder"
  from assms(2) have eqs: "count = fst (revoke_release_where ?P t)" "t' = snd (revoke_release_where ?P t)"
    by (simp_all add: revoke_holder_def)
  have slots': "slots t' = map (revoked_and_released ?P) (slots t)"
    by (simp add: eqs revoke_release_where_spec)
  then have cap: "capacity t' = capacity t" by (metis length_slots length_map)
  have wf': "table_wf t'"
    using table_run_wf [OF run_revoke_release_where assms(1)] by (simp add: eqs)
  have count: "count = length (filter (\<lambda>r. rec_state r = Live \<and> ?P r) (slots t))"
    by (simp add: eqs revoke_release_where_spec)
  have "live_count t' = length (filter (\<lambda>r. rec_state r = Live \<and> \<not> ?P r) (slots t))"
    using wf' by (simp add: table_wf_def slots' filter_map o_def revoked_and_released_live)
  moreover have "live_count t = length (filter (\<lambda>r. rec_state r = Live) (slots t))"
    using assms(1) by (simp add: table_wf_def)
  moreover have "length (filter (\<lambda>r. rec_state r = Live) (slots t)) =
      length (filter (\<lambda>r. rec_state r = Live \<and> ?P r) (slots t))
      + length (filter (\<lambda>r. rec_state r = Live \<and> \<not> ?P r) (slots t))"
    using sum_length_filter_compl [of ?P "filter (\<lambda>r. rec_state r = Live) (slots t)"]
    by (simp add: conj_commute)
  moreover have "table_authorize t' actor h res req = Inr r
        \<longleftrightarrow> actor \<noteq> holder \<and> table_authorize t actor h res req = Inr r"
    by (auto simp: table_authorize_Inr cap slots' revoked_and_released_def split: if_splits)
  ultimately show ?thesis using count by simp
qed

theorem revoke_holder_authority_witness:
  "fst (revoke_holder sample_table 10) = 1 \<and>
   \<not> is_ok (table_authorize (snd (revoke_holder sample_table 10)) 10 sample_handle (resource_object 42) READ)"
  using revoke_holder_authority [OF sample_wf, of 10 "fst (revoke_holder sample_table 10)"
      "snd (revoke_holder sample_table 10)" 10 sample_handle "resource_object 42" READ]
  by (simp add: is_ok_iff sample_defs RECORD_EMPTY_def)

end
