(* ===== verification/Cap_Tree.thy ===== *)
theory Cap_Tree
  imports Cap_Table
begin

text \<open>
  Delegation and revocation over the capability table (\<open>delegation.rs\<close>, \<open>revocation.rs\<close>). The
  provenance of the live records forms a forest: \<open>tree_wf\<close> says that the parent handle of a live
  record resolves to a live record of the same resource, one level up, with at least its rights.
  Under that invariant the bounded marking passes of \<open>revoke_subtree\<close> find exactly the descendants
  of a capability, which is what the tree revocations built on it rely on.
\<close>

section \<open>Operations\<close>

definition delegate ::
  "cap_table \<Rightarrow> holder_id \<Rightarrow> cap_handle \<Rightarrow> holder_id \<Rightarrow> rights
     \<Rightarrow> (cap_error + cap_handle) \<times> cap_table" where
  "delegate t source parent target rights =
     (case record_of t parent of
        Inl e \<Rightarrow> (Inl e, t)
      | Inr record \<Rightarrow>
          (case validate_delegation record parent source rights of
             Inl e \<Rightarrow> (Inl e, t)
           | Inr rights' \<Rightarrow>
               if target = HOLDER_KERNEL then (Inl InvalidRights, t)
               else (case child_of parent (rec_provenance record) of
                       Inl e \<Rightarrow> (Inl e, t)
                     | Inr prov \<Rightarrow>
                         install t \<lparr>rec_state = Live, rec_holder = target,
                                    rec_resource = rec_resource record, rec_rights = rights',
                                    rec_provenance = prov, rec_generation = 0\<rparr>)))"

text \<open>
  \<open>list_holder\<close> is a scan from a cursor; its \<open>expect\<close> on the handle of a live slot cannot fail, since
  \<open>handle_at\<close> is only empty on an empty slot.
\<close>

fun list_holder_from ::
  "nat list \<Rightarrow> cap_table \<Rightarrow> holder_id \<Rightarrow> (nat \<times> cap_handle \<times> cap_record) option" where
  "list_holder_from [] t holder = None"
| "list_holder_from (slot # rest) t holder =
     (let record = record_at t slot in
      if rec_state record \<noteq> Live \<or> rec_holder record \<noteq> holder then list_holder_from rest t holder
      else map_option (\<lambda>handle. (slot + 1, handle, record)) (handle_at t slot))"

definition list_holder ::
  "cap_table \<Rightarrow> holder_id \<Rightarrow> nat \<Rightarrow> (nat \<times> cap_handle \<times> cap_record) option" where
  "list_holder t holder cursor =
     (if cursor \<ge> capacity t then None else list_holder_from [cursor..<capacity t] t holder)"

definition delegation_depth :: "cap_table \<Rightarrow> cap_handle \<Rightarrow> cap_error + u8" where
  "delegation_depth t handle = rbind (record_of t handle) (\<lambda>r. Inr (prov_depth (rec_provenance r)))"

definition slot_for_handle :: "cap_table \<Rightarrow> cap_handle \<Rightarrow> cap_error + nat" where
  "slot_for_handle t handle = rbind (record_of t handle) (\<lambda>_. Inr (unat (h_slot handle)))"

text \<open>One marking pass over the slots, and the passes until nothing is added or the bound is met.\<close>

fun subtree_pass ::
  "cap_table \<Rightarrow> nat list \<Rightarrow> bool list \<Rightarrow> bool \<Rightarrow> cap_error + bool list \<times> bool" where
  "subtree_pass t [] in_set added = Inr (in_set, added)"
| "subtree_pass t (slot # rest) in_set added =
     (if in_set ! slot then subtree_pass t rest in_set added
      else let record = record_at t slot in
        if rec_state record \<noteq> Live then subtree_pass t rest in_set added
        else case prov_parent (rec_provenance record) of
               None \<Rightarrow> subtree_pass t rest in_set added
             | Some parent_handle \<Rightarrow>
                 rbind (slot_for_handle t parent_handle) (\<lambda>parent_slot.
                   if in_set ! parent_slot then subtree_pass t rest (in_set[slot := True]) True
                   else subtree_pass t rest in_set added))"

fun subtree_passes :: "cap_table \<Rightarrow> nat \<Rightarrow> bool list \<Rightarrow> cap_error + bool list" where
  "subtree_passes t 0 in_set = Inr in_set"
| "subtree_passes t (Suc n) in_set =
     rbind (subtree_pass t [0..<capacity t] in_set False) (\<lambda>(in_set', added).
       if \<not> added then Inr in_set' else subtree_passes t n in_set')"

definition revoke_marked :: "bool list \<Rightarrow> cap_table \<Rightarrow> nat \<times> cap_table" where
  "revoke_marked in_set t =
     fold (\<lambda>slot (count, t).
            if in_set ! slot
            then (case revoke_slot t slot of (b, t') \<Rightarrow> (if b then count + 1 else count, t'))
            else (count, t))
       [0..<capacity t] (0, t)"

definition revoke_subtree :: "cap_table \<Rightarrow> cap_handle \<Rightarrow> (cap_error + nat) \<times> cap_table" where
  "revoke_subtree t handle =
     (case slot_for_handle t handle of
        Inl e \<Rightarrow> (Inl e, t)
      | Inr root_slot \<Rightarrow>
          (case subtree_passes t (unat MAX_DELEGATION_DEPTH + 1)
                  ((replicate (capacity t) False)[root_slot := True]) of
             Inl e \<Rightarrow> (Inl e, t)
           | Inr in_set \<Rightarrow> (case revoke_marked in_set t of (count, t') \<Rightarrow> (Inr count, t'))))"

text \<open>
  The revocation loops of \<open>revoke_holder_tree_visiting\<close> and \<open>revoke_resource_tree\<close> differ in the test
  on the record; \<open>visited\<close> collects what the visitor closure is called with, in order.
\<close>

definition revoke_trees_where ::
  "(cap_record \<Rightarrow> bool) \<Rightarrow> cap_table \<Rightarrow> (nat \<times> resource_ref list) \<times> cap_table" where
  "revoke_trees_where P t =
     fold (\<lambda>slot ((revoked, visited), t).
            let record = record_at t slot in
            if rec_state record \<noteq> Live \<or> \<not> P record then ((revoked, visited), t)
            else (case handle_at t slot of
                    None \<Rightarrow> ((revoked, visited @ [rec_resource record]), t)
                  | Some handle \<Rightarrow>
                      (case revoke_subtree t handle of
                         (res, t') \<Rightarrow> ((revoked + (case res of Inr n \<Rightarrow> n | Inl _ \<Rightarrow> 0),
                                         visited @ [rec_resource record]), t'))))
       [0..<capacity t] ((0, []), t)"

definition release_where :: "(cap_record \<Rightarrow> bool) \<Rightarrow> cap_table \<Rightarrow> cap_table" where
  "release_where P t =
     fold (\<lambda>slot t. let record = record_at t slot in
                    if P record \<and> rec_state record = Revoked then snd (release_slot t slot) else t)
       [0..<capacity t] t"

definition revoke_holder_tree_visiting ::
  "cap_table \<Rightarrow> holder_id \<Rightarrow> (nat \<times> resource_ref list) \<times> cap_table" where
  "revoke_holder_tree_visiting t holder =
     (case revoke_trees_where (\<lambda>r. rec_holder r = holder) t of
        (res, t') \<Rightarrow> (res, release_where (\<lambda>r. rec_holder r = holder) t'))"

definition revoke_holder_tree :: "cap_table \<Rightarrow> holder_id \<Rightarrow> nat \<times> cap_table" where
  "revoke_holder_tree t holder =
     (case revoke_holder_tree_visiting t holder of ((revoked, _), t') \<Rightarrow> (revoked, t'))"

definition revoke_resource_tree :: "cap_table \<Rightarrow> resource_class \<Rightarrow> u64 \<Rightarrow> nat \<times> cap_table" where
  "revoke_resource_tree t class i =
     (let P = \<lambda>r. res_class (rec_resource r) = class \<and> res_id (rec_resource r) = i in
      case revoke_trees_where P t of ((revoked, _), t') \<Rightarrow> (revoked, release_where P t'))"

definition release_revoked :: "cap_table \<Rightarrow> nat \<times> cap_table" where
  "release_revoked t =
     fold (\<lambda>slot (count, t). case release_slot t slot of
                               (b, t') \<Rightarrow> (if b then count + 1 else count, t'))
       [0..<capacity t] (0, t)"

fun revoke_walk :: "cap_table \<Rightarrow> nat \<Rightarrow> holder_id \<Rightarrow> cap_handle option \<Rightarrow> cap_error + unit" where
  "revoke_walk t 0 actor current = Inl UnauthorizedHolder"
| "revoke_walk t (Suc n) actor None = Inl UnauthorizedHolder"
| "revoke_walk t (Suc n) actor (Some parent_handle) =
     (case record_of t parent_handle of
        Inl _ \<Rightarrow> Inl UnauthorizedHolder
      | Inr parent_record \<Rightarrow>
          if rec_holder parent_record = actor then Inr ()
          else revoke_walk t n actor (prov_parent (rec_provenance parent_record)))"

definition authorize_revoke :: "cap_table \<Rightarrow> holder_id \<Rightarrow> cap_handle \<Rightarrow> cap_error + unit" where
  "authorize_revoke t actor handle =
     rbind (record_of t handle) (\<lambda>record.
       if rec_holder record = actor then Inr ()
       else revoke_walk t (unat MAX_DELEGATION_DEPTH) actor (prov_parent (rec_provenance record)))"

section \<open>The delegation forest\<close>

text \<open>\<open>linked t r\<close>: the provenance of \<open>r\<close> is justified by a live record of the table.\<close>

definition linked :: "cap_table \<Rightarrow> cap_record \<Rightarrow> bool" where
  "linked t r \<longleftrightarrow>
     (case prov_parent (rec_provenance r) of
        None \<Rightarrow> prov_depth (rec_provenance r) = 0
      | Some h \<Rightarrow>
          (case record_of t h of
             Inl _ \<Rightarrow> False
           | Inr p \<Rightarrow> rec_state p = Live
               \<and> unat (prov_depth (rec_provenance r)) = Suc (unat (prov_depth (rec_provenance p)))
               \<and> unat (prov_depth (rec_provenance r)) \<le> 4
               \<and> rec_resource r = rec_resource p
               \<and> is_subset_of (rec_rights r) (rec_rights p)
               \<and> root_holder (rec_provenance r) = root_holder (rec_provenance p)))"

definition tree_wf :: "cap_table \<Rightarrow> bool" where
  "tree_wf t \<longleftrightarrow> (\<forall>r\<in>set (slots t). rec_state r = Live \<longrightarrow> linked t r)"

lemma tree_wfD: "tree_wf t \<Longrightarrow> live t i \<Longrightarrow> linked t (slots t ! i)"
  by (auto simp: tree_wf_def)

lemma tree_wfI: "(\<And>i. live t i \<Longrightarrow> linked t (slots t ! i)) \<Longrightarrow> tree_wf t"
  by (auto simp: tree_wf_def in_set_conv_nth)

text \<open>\<open>parent_rel t i j\<close>: slot \<open>j\<close> holds a live record whose parent handle points at slot \<open>i\<close>.\<close>

definition parent_rel :: "cap_table \<Rightarrow> nat \<Rightarrow> nat \<Rightarrow> bool" where
  "parent_rel t i j \<longleftrightarrow>
     live t j \<and> (case prov_parent (rec_provenance (slots t ! j)) of
                   None \<Rightarrow> False | Some h \<Rightarrow> unat (h_slot h) = i)"

abbreviation descends :: "cap_table \<Rightarrow> nat \<Rightarrow> nat \<Rightarrow> bool" where
  "descends t \<equiv> (parent_rel t)\<^sup>*\<^sup>*"

lemma parent_relE:
  assumes "parent_rel t i j" and "tree_wf t"
  obtains h where "live t j" "live t i" "prov_parent (rec_provenance (slots t ! j)) = Some h"
    "unat (h_slot h) = i" "record_of t h = Inr (slots t ! i)"
    "unat (prov_depth (rec_provenance (slots t ! j))) = Suc (unat (prov_depth (rec_provenance (slots t ! i))))"
    "unat (prov_depth (rec_provenance (slots t ! j))) \<le> 4"
    "rec_resource (slots t ! j) = rec_resource (slots t ! i)"
    "is_subset_of (rec_rights (slots t ! j)) (rec_rights (slots t ! i))"
    "root_holder (rec_provenance (slots t ! j)) = root_holder (rec_provenance (slots t ! i))"
proof -
  from assms(1) obtain h where h: "live t j" "prov_parent (rec_provenance (slots t ! j)) = Some h"
    "unat (h_slot h) = i"
    by (auto simp: parent_rel_def split: option.splits)
  from tree_wfD [OF assms(2) h(1)] h(2) obtain p where p: "record_of t h = Inr p"
    and "rec_state p = Live"
    by (auto simp: linked_def split: sum.splits)
  moreover from p h(3) have "i < capacity t" "p = slots t ! i" by (auto simp: record_of_Inr)
  ultimately show thesis
    using that [of h] h tree_wfD [OF assms(2) h(1)] by (simp add: linked_def)
qed

lemma parent_rel_unique: "parent_rel t i k \<Longrightarrow> parent_rel t j k \<Longrightarrow> i = j"
  by (auto simp: parent_rel_def split: option.splits)

lemma descends_live: "descends t i j \<Longrightarrow> tree_wf t \<Longrightarrow> i = j \<or> live t i \<and> live t j"
  by (induction rule: rtranclp_induct) (auto elim: parent_relE)

lemma descends_depth:
  "(parent_rel t ^^ n) i j \<Longrightarrow> tree_wf t \<Longrightarrow>
     unat (prov_depth (rec_provenance (slots t ! j)))
       = n + unat (prov_depth (rec_provenance (slots t ! i)))"
proof (induction n arbitrary: j)
  case (Suc n)
  from Suc.prems obtain k where "(parent_rel t ^^ n) i k" and k: "parent_rel t k j" by auto
  with Suc show ?case by (auto elim!: parent_relE)
qed auto

lemma descends_bound:
  assumes "(parent_rel t ^^ n) i j" and "tree_wf t"
  shows "n \<le> 4"
proof (cases n)
  case (Suc m)
  with assms(1) obtain k where "parent_rel t k j" by auto
  then have "unat (prov_depth (rec_provenance (slots t ! j))) \<le> 4"
    using assms(2) by (auto elim: parent_relE)
  with descends_depth [OF assms] show ?thesis by simp
qed simp

text \<open>What a capability inherits along a chain of delegations.\<close>

lemma descends_inherits:
  assumes "descends t i j" and "tree_wf t"
  shows "rec_resource (slots t ! j) = rec_resource (slots t ! i)
    \<and> is_subset_of (rec_rights (slots t ! j)) (rec_rights (slots t ! i))
    \<and> root_holder (rec_provenance (slots t ! j)) = root_holder (rec_provenance (slots t ! i))"
  using assms
proof (induction rule: rtranclp_induct)
  case (step j k)
  from step.hyps(2) step.prems show ?case
    by (rule parent_relE) (use step in \<open>auto intro: is_subset_of_trans\<close>)
qed simp

text \<open>Every live record descends from a live root grant.\<close>

lemma descends_from_root:
  assumes "tree_wf t" and "live t j"
  shows "\<exists>i. descends t i j \<and> live t i \<and> prov_parent (rec_provenance (slots t ! i)) = None"
  using assms(2)
proof (induction "unat (prov_depth (rec_provenance (slots t ! j)))" arbitrary: j)
  case 0
  have "prov_parent (rec_provenance (slots t ! j)) = None"
  proof (rule ccontr)
    assume "prov_parent (rec_provenance (slots t ! j)) \<noteq> None"
    with 0 have "\<exists>i. parent_rel t i j" by (auto simp: parent_rel_def)
    with 0 assms(1) show False by (auto elim: parent_relE)
  qed
  with 0 show ?case by blast
next
  case (Suc d)
  show ?case
  proof (cases "prov_parent (rec_provenance (slots t ! j))")
    case None
    with Suc.prems show ?thesis by blast
  next
    case (Some h)
    with Suc.prems have edge: "parent_rel t (unat (h_slot h)) j" by (simp add: parent_rel_def)
    with assms(1) Suc.hyps(2) have "d = unat (prov_depth (rec_provenance (slots t ! unat (h_slot h))))"
      and "live t (unat (h_slot h))"
      by (auto elim!: parent_relE)
    with Suc.hyps(1) obtain i where "descends t i (unat (h_slot h))" "live t i"
      "prov_parent (rec_provenance (slots t ! i)) = None" by blast
    with edge show ?thesis by (meson rtranclp.rtrancl_into_rtrancl)
  qed
qed

section \<open>The marking passes\<close>

definition marked :: "bool list \<Rightarrow> nat set" where
  "marked in_set = {i. i < length in_set \<and> in_set ! i}"

lemma marked_update: "i < length in_set \<Longrightarrow> marked (in_set[i := True]) = insert i (marked in_set)"
  by (auto simp: marked_def nth_list_update)

lemma slot_for_handle_Inr:
  "slot_for_handle t h = Inr s \<longleftrightarrow> s = unat (h_slot h) \<and> (\<exists>r. record_of t h = Inr r)"
  by (auto simp: slot_for_handle_def result_simps)

lemma subtree_pass_spec:
  assumes "tree_wf t" and "length in_set = capacity t" and "set is \<subseteq> {..<capacity t}"
  shows "\<exists>in_set' added'. subtree_pass t is in_set added = Inr (in_set', added')
    \<and> length in_set' = capacity t \<and> marked in_set \<subseteq> marked in_set'
    \<and> (\<forall>i j. j \<in> set is \<and> i \<in> marked in_set \<and> parent_rel t i j \<longrightarrow> j \<in> marked in_set')
    \<and> (\<forall>j \<in> marked in_set'. \<exists>i \<in> marked in_set. descends t i j)
    \<and> (added \<longrightarrow> added') \<and> (\<not> added' \<longrightarrow> in_set' = in_set)"
  using assms(2,3)
proof (induction "is" arbitrary: in_set added)
  case Nil
  then show ?case by auto
next
  case (Cons slot rest)
  then have slot: "slot < capacity t" and rest: "set rest \<subseteq> {..<capacity t}" by auto
  have skip: ?case if eq: "subtree_pass t (slot # rest) in_set added = subtree_pass t rest in_set added"
    and no: "\<And>i. i \<in> marked in_set \<Longrightarrow> parent_rel t i slot \<Longrightarrow> slot \<in> marked in_set"
  proof -
    from Cons.IH [OF Cons.prems(1) rest, of added] obtain s' a' where s':
      "subtree_pass t rest in_set added = Inr (s', a')" "length s' = capacity t"
      "marked in_set \<subseteq> marked s'"
      "\<forall>i j. j \<in> set rest \<and> i \<in> marked in_set \<and> parent_rel t i j \<longrightarrow> j \<in> marked s'"
      "\<forall>j \<in> marked s'. \<exists>i \<in> marked in_set. descends t i j"
      "added \<longrightarrow> a'" "\<not> a' \<longrightarrow> s' = in_set" by blast
    moreover have "\<forall>i j. j \<in> set (slot # rest) \<and> i \<in> marked in_set \<and> parent_rel t i j \<longrightarrow> j \<in> marked s'"
      using s'(3,4) no by (metis set_ConsD subsetD)
    ultimately show ?thesis unfolding eq by blast
  qed
  show ?case
  proof (cases "in_set ! slot \<or> \<not> live t slot")
    case True
    show ?thesis
      by (rule skip) (use True slot Cons.prems(1) in \<open>auto simp: record_at_def marked_def parent_rel_def\<close>)
  next
    case False
    show ?thesis
    proof (cases "prov_parent (rec_provenance (slots t ! slot))")
      case None
      show ?thesis
        by (rule skip) (use None False in \<open>auto simp: record_at_def parent_rel_def\<close>)
    next
      case (Some h)
      let ?p = "unat (h_slot h)"
      have edge: "parent_rel t ?p slot" using Some False by (simp add: parent_rel_def)
      then have p: "slot_for_handle t h = Inr ?p" "?p < capacity t"
        using Some assms(1) by (auto simp: slot_for_handle_Inr elim!: parent_relE)
      show ?thesis
      proof (cases "in_set ! ?p")
        case False
        show ?thesis
        proof (rule skip)
          fix i assume "i \<in> marked in_set" "parent_rel t i slot"
          with parent_rel_unique [OF _ edge] False show "slot \<in> marked in_set"
            by (auto simp: marked_def)
        qed (use \<open>\<not> (in_set ! slot \<or> _)\<close> Some p False in \<open>auto simp: record_at_def\<close>)
      next
        case True
        let ?s1 = "in_set[slot := True]"
        have m1: "marked ?s1 = insert slot (marked in_set)"
          using slot Cons.prems(1) by (simp add: marked_update)
        have eq: "subtree_pass t (slot # rest) in_set added = subtree_pass t rest ?s1 True"
          using \<open>\<not> (in_set ! slot \<or> _)\<close> Some p True by (simp add: record_at_def)
        have "?p \<in> marked in_set" using True p Cons.prems(1) by (simp add: marked_def)
        then have reach: "\<forall>j \<in> marked ?s1. \<exists>i \<in> marked in_set. descends t i j"
          using edge m1 by auto
        have "length ?s1 = capacity t" using Cons.prems(1) by simp
        from Cons.IH [OF this rest, of True] obtain s2 a2 where s2:
          "subtree_pass t rest ?s1 True = Inr (s2, a2)" "length s2 = capacity t"
          "marked ?s1 \<subseteq> marked s2"
          "\<forall>i j. j \<in> set rest \<and> i \<in> marked ?s1 \<and> parent_rel t i j \<longrightarrow> j \<in> marked s2"
          "\<forall>j \<in> marked s2. \<exists>i \<in> marked ?s1. descends t i j" "a2" by blast
        have "\<forall>j \<in> marked s2. \<exists>i \<in> marked in_set. descends t i j"
          using s2(5) reach by (meson rtranclp_trans)
        moreover have "\<forall>i j. j \<in> set (slot # rest) \<and> i \<in> marked in_set \<and> parent_rel t i j \<longrightarrow> j \<in> marked s2"
          using s2(3,4) m1 by (metis insertCI set_ConsD subsetD)
        moreover have "marked in_set \<subseteq> marked s2" using s2(3) m1 by blast
        ultimately show ?thesis
          using s2(2,6) unfolding eq s2(1) by (intro exI [of _ s2] exI [of _ a2] conjI) simp_all
      qed
    qed
  qed
qed

lemma closed_descends:
  assumes "descends t i j" and "i \<in> S" and "\<And>i j. i \<in> S \<Longrightarrow> parent_rel t i j \<Longrightarrow> j \<in> S"
  shows "j \<in> S"
  using assms(1,2)
proof (induction rule: rtranclp_induct)
  case (step j k)
  from step.IH [OF step.prems] step.hyps(2) show ?case by (rule assms(3))
qed

lemma subtree_passes_spec:
  assumes "tree_wf t" and "length in_set = capacity t"
  shows "\<exists>in_set'. subtree_passes t n in_set = Inr in_set' \<and> length in_set' = capacity t
    \<and> (\<forall>j \<in> marked in_set'. \<exists>i \<in> marked in_set. descends t i j)
    \<and> (\<forall>i \<in> marked in_set. \<forall>k\<le>n. \<forall>j. (parent_rel t ^^ k) i j \<longrightarrow> j \<in> marked in_set')"
  using assms(2)
proof (induction n arbitrary: in_set)
  case 0
  then show ?case by auto
next
  case (Suc n)
  have "set [0..<capacity t] \<subseteq> {..<capacity t}" by auto
  from subtree_pass_spec [OF assms(1) Suc.prems this, of False] obtain s1 added where
    s1: "subtree_pass t [0..<capacity t] in_set False = Inr (s1, added)" "length s1 = capacity t"
      "marked in_set \<subseteq> marked s1"
      "\<forall>i j. j \<in> set [0..<capacity t] \<and> i \<in> marked in_set \<and> parent_rel t i j \<longrightarrow> j \<in> marked s1"
      "\<forall>j \<in> marked s1. \<exists>i \<in> marked in_set. descends t i j"
      "\<not> added \<longrightarrow> s1 = in_set" by blast
  have closed: "j \<in> marked s1" if "i \<in> marked in_set" "parent_rel t i j" for i j
    using s1(4) that by (auto simp: parent_rel_def)
  show ?case
  proof (cases added)
    case False
    with s1(6) have [simp]: "s1 = in_set" by simp
    have "j \<in> marked in_set" if "i \<in> marked in_set" "(parent_rel t ^^ k) i j" for i j k
      using relpowp_imp_rtranclp [OF that(2)] that(1) by (rule closed_descends) (use closed in simp)
    moreover have "subtree_passes t (Suc n) in_set = Inr in_set" using False s1(1) by simp
    ultimately show ?thesis using Suc.prems by blast
  next
    case True
    from Suc.IH [OF s1(2)] obtain s2 where s2: "subtree_passes t n s1 = Inr s2"
      "length s2 = capacity t" "\<forall>j \<in> marked s2. \<exists>i \<in> marked s1. descends t i j"
      "\<And>i j k. i \<in> marked s1 \<Longrightarrow> k \<le> n \<Longrightarrow> (parent_rel t ^^ k) i j \<Longrightarrow> j \<in> marked s2" by blast
    have "j \<in> marked s2" if "i \<in> marked in_set" "k \<le> Suc n" "(parent_rel t ^^ k) i j" for i j k
    proof (cases k)
      case 0
      with that s1(3) s2(4) [of j 0 j] show ?thesis by auto
    next
      case (Suc m)
      with that obtain i' where "parent_rel t i i'" "(parent_rel t ^^ m) i' j"
        by (metis relpowp_Suc_D2)
      with Suc that closed s2(4) [of i' m j] show ?thesis by simp
    qed
    moreover have "\<forall>j \<in> marked s2. \<exists>i \<in> marked in_set. descends t i j"
      using s2(3) s1(5) by (meson rtranclp_trans)
    moreover have "subtree_passes t (Suc n) in_set = Inr s2" using True s1(1) s2(1) by simp
    ultimately show ?thesis using s2(2) by blast
  qed
qed

text \<open>
  The bound of five passes is enough: a chain of delegations has at most four links, so the marked
  slots are exactly the descendants.
\<close>

lemma subtree_passes_exact:
  assumes "tree_wf t" and "root < capacity t"
  obtains in_set where
    "subtree_passes t (unat MAX_DELEGATION_DEPTH + 1) ((replicate (capacity t) False)[root := True])
       = Inr in_set"
    "length in_set = capacity t" "marked in_set = {j. descends t root j}"
proof -
  let ?s = "(replicate (capacity t) False)[root := True]"
  have m: "marked ?s = {root}" using assms(2) by (auto simp: marked_def nth_list_update split: if_splits)
  have len: "length ?s = capacity t" by simp
  from subtree_passes_spec [OF assms(1) len, of "unat MAX_DELEGATION_DEPTH + 1"] obtain s where
    s: "subtree_passes t (unat MAX_DELEGATION_DEPTH + 1) ?s = Inr s" "length s = capacity t"
      "\<forall>j \<in> marked s. descends t root j"
      "\<And>k j. k \<le> 5 \<Longrightarrow> (parent_rel t ^^ k) root j \<Longrightarrow> j \<in> marked s"
    unfolding m by (auto simp: MAX_DELEGATION_DEPTH_def)
  have "j \<in> marked s" if "descends t root j" for j
  proof -
    from that obtain k where k: "(parent_rel t ^^ k) root j" by (auto dest: rtranclp_imp_relpowp)
    with descends_bound [OF k assms(1)] s(4) [of k j] show ?thesis by simp
  qed
  with s that show thesis by blast
qed

section \<open>Pruning the forest\<close>

text \<open>
  \<open>pruned t S t'\<close>: the table \<open>t'\<close> is \<open>t\<close> with the live records at the slots of \<open>S\<close> revoked in place.
\<close>

definition pruned :: "cap_table \<Rightarrow> nat set \<Rightarrow> cap_table \<Rightarrow> bool" where
  "pruned t S t' \<longleftrightarrow>
     capacity t' = capacity t \<and>
     (\<forall>i<capacity t. slots t' ! i =
        (if i \<in> S \<and> rec_state (slots t ! i) = Live
         then (slots t ! i)\<lparr>rec_state := Revoked, rec_rights := 0\<rparr> else slots t ! i))"

definition child_closed :: "cap_table \<Rightarrow> nat set \<Rightarrow> bool" where
  "child_closed t S \<longleftrightarrow> (\<forall>i j. i \<in> S \<longrightarrow> parent_rel t i j \<longrightarrow> j \<in> S)"

lemma pruned_capacity: "pruned t S t' \<Longrightarrow> capacity t' = capacity t"
  by (simp add: pruned_def)

lemma pruned_empty: "pruned t {} t"
  by (simp add: pruned_def)

lemma pruned_nth:
  "pruned t S t' \<Longrightarrow> i < capacity t \<Longrightarrow> slots t' ! i =
     (if i \<in> S \<and> rec_state (slots t ! i) = Live
      then (slots t ! i)\<lparr>rec_state := Revoked, rec_rights := 0\<rparr> else slots t ! i)"
  by (simp add: pruned_def)

lemma pruned_live: "pruned t S t' \<Longrightarrow> live t' i \<longleftrightarrow> live t i \<and> i \<notin> S"
  using pruned_nth [of t S t' i] by (cases "i < capacity t") (auto simp: pruned_capacity)

lemma pruned_kept: "pruned t S t' \<Longrightarrow> live t' i \<Longrightarrow> slots t' ! i = slots t ! i"
  by (auto simp: pruned_def split: if_splits)

lemma pruned_trans: "pruned t S t' \<Longrightarrow> pruned t' T t'' \<Longrightarrow> pruned t (S \<union> T) t''"
  by (auto simp: pruned_def)

lemma pruned_revoke_slot:
  assumes "pruned t S t'"
  shows "pruned t (insert i S) (snd (revoke_slot t' i))"
proof -
  have "pruned t' {i} (snd (revoke_slot t' i))"
    by (auto simp: pruned_def slots_revoke_slot)
  from pruned_trans [OF assms this] show ?thesis by simp
qed

lemma pruned_parent_rel: "pruned t S t' \<Longrightarrow> parent_rel t' i j \<longleftrightarrow> parent_rel t i j \<and> j \<notin> S"
  using pruned_live [of t S t' j] pruned_kept [of t S t' j] by (auto simp: parent_rel_def)

lemma child_closed_descends: "child_closed t {j. descends t i j}"
  by (auto simp: child_closed_def)

lemma child_closed_Un: "child_closed t S \<Longrightarrow> child_closed t T \<Longrightarrow> child_closed t (S \<union> T)"
  by (auto simp: child_closed_def)

lemma pruned_descends:
  assumes "pruned t S t'" and "child_closed t S"
  shows "descends t' i j \<longleftrightarrow> i = j \<or> descends t i j \<and> j \<notin> S"
proof
  assume "descends t' i j"
  then show "i = j \<or> descends t i j \<and> j \<notin> S"
    by (induction rule: rtranclp_induct)
       (auto simp: pruned_parent_rel [OF assms(1)] intro: rtranclp.rtrancl_into_rtrancl)
next
  have "descends t i j \<Longrightarrow> j \<notin> S \<Longrightarrow> descends t' i j"
  proof (induction rule: rtranclp_induct)
    case (step j k)
    with assms(2) have "j \<notin> S" by (auto simp: child_closed_def)
    with step pruned_parent_rel [OF assms(1)] show ?case
      by (meson rtranclp.rtrancl_into_rtrancl)
  qed simp
  then show "i = j \<or> descends t i j \<and> j \<notin> S \<Longrightarrow> descends t' i j" by auto
qed

text \<open>
  A change that keeps some live records unchanged, adds none, and keeps the parent of every
  record it keeps, keeps the forest.
\<close>

lemma tree_wf_restrict:
  assumes "tree_wf t" and "capacity t' = capacity t"
    and kept: "\<And>i. live t' i \<Longrightarrow> slots t' ! i = slots t ! i"
    and up: "\<And>i j. live t' j \<Longrightarrow> parent_rel t i j \<Longrightarrow> live t' i"
  shows "tree_wf t'"
proof (rule tree_wfI)
  fix j assume j: "live t' j"
  then have eq: "slots t' ! j = slots t ! j" and j': "live t j" using kept assms(2) by auto
  have "linked t' (slots t ! j)"
  proof (cases "prov_parent (rec_provenance (slots t ! j))")
    case None
    then show ?thesis using tree_wfD [OF assms(1) j'] by (simp add: linked_def)
  next
    case (Some h)
    then have edge: "parent_rel t (unat (h_slot h)) j" using j' by (simp add: parent_rel_def)
    then have "live t' (unat (h_slot h))" using up j by blast
    then have "slots t' ! unat (h_slot h) = slots t ! unat (h_slot h)" by (rule kept)
    then have "record_of t' h = record_of t h"
      using assms(2) by (simp add: record_of_def slot_index_def Let_def)
    with Some tree_wfD [OF assms(1) j'] show ?thesis by (simp add: linked_def)
  qed
  with eq show "linked t' (slots t' ! j)" by simp
qed

lemma tree_wf_pruned:
  assumes "tree_wf t" and "pruned t S t'" and "child_closed t S"
  shows "tree_wf t'"
proof (rule tree_wf_restrict [OF assms(1) pruned_capacity [OF assms(2)]])
  fix i j assume "live t' j" and "parent_rel t i j"
  then have "j \<notin> S" and "live t i"
    using assms(1) pruned_live [OF assms(2)] by (auto elim: parent_relE)
  with \<open>parent_rel t i j\<close> assms(3) show "live t' i"
    by (auto simp: pruned_live [OF assms(2)] child_closed_def)
qed (rule pruned_kept [OF assms(2)])

lemma live_count_revoke_slot:
  assumes "table_wf t"
  shows "(if live t i then 1 else 0) + live_count (snd (revoke_slot t i)) = live_count t"
proof (cases "live t i")
  case True
  then have "slots t ! i \<in> set (filter (\<lambda>r. rec_state r = Live) (slots t))" by simp
  then have "0 < length (filter (\<lambda>r. rec_state r = Live) (slots t))" by (rule length_pos_if_in_set)
  with assms have "0 < live_count t" by (simp add: table_wf_def)
  with True show ?thesis by (simp add: revoke_slot_eq)
qed (auto simp: revoke_slot_eq)

lemma revoke_marked_loop:
  assumes "table_wf t" and "n \<le> capacity t" and "length in_set = capacity t"
  shows "\<exists>c t'. fold (\<lambda>slot (count, t).
            if in_set ! slot
            then (case revoke_slot t slot of (b, t') \<Rightarrow> (if b then count + 1 else count, t'))
            else (count, t)) [0..<n] (0, t) = (c, t')
     \<and> pruned t {i. i < n \<and> in_set ! i} t' \<and> table_wf t' \<and> c + live_count t' = live_count t"
  using assms(2)
proof (induction n)
  case 0
  then show ?case using assms(1) by (simp add: pruned_empty)
next
  case (Suc n)
  then obtain c t' where IH: "fold (\<lambda>slot (count, t).
            if in_set ! slot
            then (case revoke_slot t slot of (b, t') \<Rightarrow> (if b then count + 1 else count, t'))
            else (count, t)) [0..<n] (0, t) = (c, t')" "pruned t {i. i < n \<and> in_set ! i} t'"
      "table_wf t'" "c + live_count t' = live_count t"
    by auto
  show ?case
  proof (cases "in_set ! n")
    case True
    then have "{i. i < Suc n \<and> in_set ! i} = insert n {i. i < n \<and> in_set ! i}" by (auto simp: less_Suc_eq)
    with pruned_revoke_slot [OF IH(2), of n] table_wf_revoke_slot [OF IH(3), of n]
      live_count_revoke_slot [OF IH(3), of n] IH(1,4) True
    show ?thesis by (auto simp: revoke_slot_eq split: if_splits)
  next
    case False
    then have "{i. i < Suc n \<and> in_set ! i} = {i. i < n \<and> in_set ! i}" by (auto simp: less_Suc_eq)
    with IH False show ?thesis by simp
  qed
qed

lemma revoke_subtree_spec:
  assumes "table_wf t" and "tree_wf t" and "record_of t h = Inr r"
  obtains c t' where "revoke_subtree t h = (Inr c, t')"
    and "pruned t {j. descends t (unat (h_slot h)) j} t'"
    and "table_wf t'" and "c + live_count t' = live_count t"
proof -
  let ?s = "unat (h_slot h)"
  from assms(3) have s: "?s < capacity t" "slot_for_handle t h = Inr ?s"
    by (auto simp: record_of_Inr slot_for_handle_Inr)
  from subtree_passes_exact [OF assms(2) s(1)] obtain in_set where in_set:
    "subtree_passes t (unat MAX_DELEGATION_DEPTH + 1) ((replicate (capacity t) False)[?s := True])
       = Inr in_set" "length in_set = capacity t" "marked in_set = {j. descends t ?s j}" .
  from revoke_marked_loop [OF assms(1) order_refl in_set(2)] obtain c t' where
    c: "revoke_marked in_set t = (c, t')" "pruned t {i. i < capacity t \<and> in_set ! i} t'"
      "table_wf t'" "c + live_count t' = live_count t"
    by (auto simp: revoke_marked_def)
  moreover have "{i. i < capacity t \<and> in_set ! i} = {j. descends t ?s j}"
    using in_set(2,3) by (simp add: marked_def)
  ultimately show thesis using that s in_set(1) by (simp add: revoke_subtree_def)
qed

text \<open>Revoking a subtree after part of the forest has been pruned.\<close>

lemma revoke_subtree_pruned:
  assumes "tree_wf t" and "pruned t S t'" and "child_closed t S" and "table_wf t'"
    and "record_of t' h = Inr r"
  obtains c t'' where "revoke_subtree t' h = (Inr c, t'')"
    and "pruned t (S \<union> {j. descends t (unat (h_slot h)) j}) t''"
    and "table_wf t''" and "c + live_count t'' = live_count t'"
proof -
  have "tree_wf t'" using assms(1-3) by (rule tree_wf_pruned)
  from revoke_subtree_spec [OF assms(4) this assms(5)] obtain c t'' where
    c: "revoke_subtree t' h = (Inr c, t'')"
      "pruned t' {j. descends t' (unat (h_slot h)) j} t''" "table_wf t''"
      "c + live_count t'' = live_count t'" .
  have "S \<union> {j. descends t' (unat (h_slot h)) j} = S \<union> {j. descends t (unat (h_slot h)) j}"
    using pruned_descends [OF assms(2,3)] by auto
  with pruned_trans [OF assms(2) c(2)] c that show thesis by simp
qed

section \<open>Revoking several trees\<close>

lemma revoke_trees_loop:
  fixes P :: "cap_record \<Rightarrow> bool"
  assumes "table_wf t" and "tree_wf t" and "n \<le> capacity t"
  defines "S \<equiv> \<lambda>n. {j. \<exists>i<n. live t i \<and> P (slots t ! i) \<and> descends t i j}"
  shows "\<exists>c v t'. fold (\<lambda>slot ((revoked, visited), t).
            let record = record_at t slot in
            if rec_state record \<noteq> Live \<or> \<not> P record then ((revoked, visited), t)
            else (case handle_at t slot of
                    None \<Rightarrow> ((revoked, visited @ [rec_resource record]), t)
                  | Some handle \<Rightarrow>
                      (case revoke_subtree t handle of
                         (res, t') \<Rightarrow> ((revoked + (case res of Inr n \<Rightarrow> n | Inl _ \<Rightarrow> 0),
                                         visited @ [rec_resource record]), t'))))
       [0..<n] ((0, []), t) = ((c, v), t')
     \<and> pruned t (S n) t' \<and> table_wf t' \<and> c + live_count t' = live_count t
     \<and> set v = {rec_resource (slots t ! j) | j. live t j \<and> j \<in> S n}"
  using assms(3)
proof (induction n)
  case 0
  then show ?case using assms(1) by (simp add: pruned_empty S_def)
next
  case (Suc n)
  then obtain c v t' where IH: "fold (\<lambda>slot ((revoked, visited), t).
            let record = record_at t slot in
            if rec_state record \<noteq> Live \<or> \<not> P record then ((revoked, visited), t)
            else (case handle_at t slot of
                    None \<Rightarrow> ((revoked, visited @ [rec_resource record]), t)
                  | Some handle \<Rightarrow>
                      (case revoke_subtree t handle of
                         (res, t') \<Rightarrow> ((revoked + (case res of Inr n \<Rightarrow> n | Inl _ \<Rightarrow> 0),
                                         visited @ [rec_resource record]), t'))))
       [0..<n] ((0, []), t) = ((c, v), t')" "pruned t (S n) t'" "table_wf t'"
      "c + live_count t' = live_count t"
      "set v = {rec_resource (slots t ! j) | j. live t j \<and> j \<in> S n}"
    by auto
  have n: "n < capacity t" using Suc.prems by simp
  have closed: "child_closed t (S n)"
    unfolding S_def child_closed_def by (blast intro: rtranclp.rtrancl_into_rtrancl)
  show ?case
  proof (cases "live t' n \<and> P (slots t' ! n)")
    case True
    then have tn: "live t n" "slots t' ! n = slots t ! n" "P (slots t ! n)"
      using pruned_live [OF IH(2)] pruned_kept [OF IH(2)] by auto
    have S: "S (Suc n) = S n \<union> {j. descends t n j}"
      using tn by (auto simp: S_def less_Suc_eq)
    from record_of_handle_at [OF table_wfD(1) [OF IH(3)] conjunct1 [OF True]] obtain h where
      h: "handle_at t' n = Some h" "unat (h_slot h) = n" "record_of t' h = Inr (slots t' ! n)" .
    from revoke_subtree_pruned [OF assms(2) IH(2) closed IH(3) h(3)] obtain d t'' where
      d: "revoke_subtree t' h = (Inr d, t'')" "pruned t (S n \<union> {j. descends t (unat (h_slot h)) j}) t''"
        "table_wf t''" "d + live_count t'' = live_count t'" .
    from d(2) have pr: "pruned t (S (Suc n)) t''" by (simp add: S h(2))
    have "{rec_resource (slots t ! j) | j. live t j \<and> descends t n j} = {rec_resource (slots t ! n)}"
      using tn(1) descends_inherits [OF _ assms(2), of n] by blast
    moreover have "{rec_resource (slots t ! j) | j. live t j \<and> j \<in> S (Suc n)}
        = set v \<union> {rec_resource (slots t ! j) | j. live t j \<and> descends t n j}"
      unfolding S IH(5) by blast
    ultimately have "set (v @ [rec_resource (slots t ! n)])
        = {rec_resource (slots t ! j) | j. live t j \<and> j \<in> S (Suc n)}"
      by simp
    with True IH(1,4) d(1,3,4) pr h(1) tn(2) show ?thesis by (simp add: record_at_def)
  next
    case False
    have "S (Suc n) = S n"
    proof -
      have "j \<in> S n" if "live t n" "P (slots t ! n)" "descends t n j" for j
      proof -
        from False that IH(2) n have "n \<in> S n"
          using pruned_live [OF IH(2), of n] pruned_kept [OF IH(2), of n] by auto
        with closed that(3) show ?thesis
          by (auto simp: child_closed_def intro: closed_descends [of t n j])
      qed
      then show ?thesis by (auto simp: S_def less_Suc_eq)
    qed
    moreover have "rec_state (slots t' ! n) \<noteq> Live \<or> \<not> P (slots t' ! n)"
      using False n pruned_capacity [OF IH(2)] by auto
    ultimately show ?thesis using IH by (simp add: record_at_def Let_def)
  qed
qed

text \<open>\<open>doomed t P\<close>: the slots of the trees rooted at the live records that satisfy \<open>P\<close>.\<close>

definition doomed :: "cap_table \<Rightarrow> (cap_record \<Rightarrow> bool) \<Rightarrow> nat set" where
  "doomed t P = {j. \<exists>i. live t i \<and> P (slots t ! i) \<and> descends t i j}"

lemma child_closed_doomed: "child_closed t (doomed t P)"
  unfolding doomed_def child_closed_def by (blast intro: rtranclp.rtrancl_into_rtrancl)

lemma revoke_trees_where_spec:
  assumes "table_wf t" and "tree_wf t"
  obtains c v t' where "revoke_trees_where P t = ((c, v), t')"
    and "pruned t (doomed t P) t'" and "table_wf t'" and "c + live_count t' = live_count t"
    and "set v = {rec_resource (slots t ! j) | j. live t j \<and> j \<in> doomed t P}"
proof -
  have "{j. \<exists>i<capacity t. live t i \<and> P (slots t ! i) \<and> descends t i j} = doomed t P"
    by (auto simp: doomed_def)
  then show thesis
    using revoke_trees_loop [OF assms order_refl, of P] that by (auto simp: revoke_trees_where_def)
qed

lemma release_where_slots:
  "slots (release_where P t)
     = map (\<lambda>r. if P r \<and> rec_state r = Revoked then released r else r) (slots t)"
proof -
  have "slots (release_where P t)
     = map (\<lambda>r. if P r \<and> rec_state r = Revoked then released r else r) (take (capacity t) (slots t))
       @ drop (capacity t) (slots t)"
    unfolding release_where_def
    by (rule fold_upt_map_update [where v = slots])
       (auto simp: record_at_def Let_def release_slot_eq)
  then show ?thesis by simp
qed

lemma release_revoked_slots:
  "slots (snd (release_revoked t)) = map (\<lambda>r. if rec_state r = Revoked then released r else r) (slots t)"
proof -
  have "slots (snd (release_revoked t))
     = map (\<lambda>r. if rec_state r = Revoked then released r else r) (take (capacity t) (slots (snd (0::nat, t))))
       @ drop (capacity t) (slots (snd (0::nat, t)))"
    unfolding release_revoked_def
    by (rule fold_upt_map_update [where v = "\<lambda>s. slots (snd s)"])
       (auto simp: release_slot_eq Let_def split: prod.splits)
  then show ?thesis by simp
qed

section \<open>Preservation of the forest\<close>

lemma run_revoke_marked [inv_intros]: "table_run t (snd (revoke_marked in_set t))"
  unfolding revoke_marked_def
proof (rule fold_run)
  fix slot count t
  show "table_run t (snd (case (count, t) of (count, t) \<Rightarrow>
          if in_set ! slot
          then (case revoke_slot t slot of (b, t') \<Rightarrow> (if b then count + 1 else count, t'))
          else (count, t)))"
    using run_revoke_slot [of t slot] by (auto split: prod.splits)
qed

lemma run_revoke_subtree [inv_intros]: "table_run t (snd (revoke_subtree t h))"
proof -
  have "table_run t (snd (case revoke_marked s t of (count, t') \<Rightarrow> (Inr count :: cap_error + nat, t')))" for s
    using run_revoke_marked [of t s] by (auto split: prod.splits)
  then show ?thesis by (simp add: revoke_subtree_def split: sum.split)
qed

lemma run_delegate [inv_intros]: "table_run t (snd (delegate t src p tgt ri))"
  by (simp add: delegate_def run_install split: sum.split)

lemma run_release_where [inv_intros]: "table_run t (release_where P t)"
  unfolding release_where_def
proof (rule fold_invariant_set [where I = "table_run t"])
  fix slot t' assume "table_run t t'"
  moreover have "table_run t' (snd (release_slot t' slot))" by (rule run_release_slot)
  ultimately have "table_run t (snd (release_slot t' slot))" by (rule rtranclp_trans)
  with \<open>table_run t t'\<close> show "table_run t (let record = record_at t' slot in
       if P record \<and> rec_state record = Revoked then snd (release_slot t' slot) else t')"
    by (simp add: Let_def)
qed simp

lemma run_release_revoked [inv_intros]: "table_run t (snd (release_revoked t))"
  unfolding release_revoked_def
proof (rule fold_run)
  fix slot count t
  show "table_run t (snd (case (count, t) of (count, t) \<Rightarrow>
          case release_slot t slot of (b, t') \<Rightarrow> (if b then count + 1 else count, t')))"
    using run_release_slot [of t slot] by (auto split: prod.splits)
qed

text \<open>Releasing revoked slots touches no live record and no parent of one.\<close>

lemma tree_wf_release:
  assumes "tree_wf t" and "capacity t' = capacity t"
    and rel: "\<And>i. i < capacity t \<Longrightarrow> slots t' ! i = slots t ! i
                 \<or> rec_state (slots t ! i) = Revoked \<and> rec_state (slots t' ! i) \<noteq> Live"
  shows "tree_wf t'"
proof (rule tree_wf_restrict [OF assms(1,2)])
  fix i assume "live t' i"
  then show "slots t' ! i = slots t ! i" using rel [of i] assms(2) by auto
next
  fix i j assume "parent_rel t i j"
  then have "live t i" using assms(1) by (auto elim: parent_relE)
  then show "live t' i" using rel [of i] assms(2) by auto
qed

lemma capacity_release_where [simp]: "capacity (release_where P t) = capacity t"
  unfolding length_slots [symmetric] by (simp only: release_where_slots length_map)

lemma capacity_release_revoked [simp]: "capacity (snd (release_revoked t)) = capacity t"
  unfolding length_slots [symmetric] by (simp only: release_revoked_slots length_map)

lemma tree_wf_release_where: "tree_wf t \<Longrightarrow> tree_wf (release_where P t)"
  by (rule tree_wf_release) (auto simp: release_where_slots split: if_splits)

lemma tree_wf_release_revoked: "tree_wf t \<Longrightarrow> tree_wf (snd (release_revoked t))"
  by (rule tree_wf_release) (auto simp: release_revoked_slots split: if_splits)

lemma release_revoked_authorize:
  "table_authorize (snd (release_revoked t)) actor h res req = Inr r
     \<longleftrightarrow> table_authorize t actor h res req = Inr r"
  by (auto simp: table_authorize_Inr release_revoked_slots split: if_splits)

lemma table_wf_release_revoked: "table_wf t \<Longrightarrow> table_wf (snd (release_revoked t))"
  by (rule table_run_wf [OF run_release_revoked])

lemma release_where_live:
  "live (release_where P t) i \<longleftrightarrow> live t i"
  "live t i \<Longrightarrow> slots (release_where P t) ! i = slots t ! i"
  by (auto simp: release_where_slots split: if_splits)

text \<open>Installing a record whose provenance is justified.\<close>

lemma linked_mono:
  assumes "linked t r"
    and "\<And>h p. record_of t h = Inr p \<Longrightarrow> rec_state p = Live \<Longrightarrow> record_of t' h = Inr p"
  shows "linked t' r"
proof (cases "prov_parent (rec_provenance r)")
  case (Some h)
  with assms(1) obtain p where "record_of t h = Inr p" "rec_state p = Live"
    by (auto simp: linked_def split: sum.splits)
  with assms Some show ?thesis by (auto simp: linked_def)
qed (use assms(1) in \<open>simp add: linked_def\<close>)

lemma linked_installed_as [simp]: "linked t (installed_as r g) = linked t r"
  by (simp add: linked_def split: option.split sum.split)

lemma linked_root [simp]: "rec_provenance r = provenance_root ho \<Longrightarrow> linked t r"
  by (simp add: linked_def provenance_root_def)

lemma scanned_record_of:
  assumes "capacity t' = capacity t" and "\<And>i. rec_state (slots t ! i) \<noteq> Empty \<Longrightarrow> slots t' ! i = slots t ! i"
    and "record_of t h = Inr p"
  shows "record_of t' h = Inr p"
proof -
  from assms(3) have "rec_state (slots t ! unat (h_slot h)) \<noteq> Empty" by (auto simp: record_of_Inr)
  with assms show ?thesis by (auto simp: record_of_Inr)
qed

lemma install_keeps:
  assumes "table_wf t"
  shows "capacity (snd (install t r)) = capacity t"
    and "rec_state (slots t ! i) \<noteq> Empty \<Longrightarrow> slots (snd (install t r)) ! i = slots t ! i"
    and "record_of t h = Inr p \<Longrightarrow> record_of (snd (install t r)) h = Inr p"
proof -
  obtain res t' where eq: "install t r = (res, t')" by (cases "install t r")
  note cap = table_wfD(1) [OF assms]
  have 1: "capacity t' = capacity t \<and> (\<forall>i. rec_state (slots t ! i) \<noteq> Empty \<longrightarrow> slots t' ! i = slots t ! i)"
  proof (cases res)
    case (Inl e)
    with eq install_Inl [of t r e t'] cap show ?thesis by (auto intro: slot_scanned_nonempty)
  next
    case (Inr h)
    with eq have "install t r = (Inr h, t')" by simp
    note spec = install_Inr [OF this cap]
    have "slots t' ! i = slots t ! i" if "rec_state (slots t ! i) \<noteq> Empty" for i
      using spec(2) spec(5) [of i] that by (cases "i = unat (h_slot h)") (auto intro: slot_scanned_nonempty)
    with spec(6) show ?thesis by simp
  qed
  with eq show "capacity (snd (install t r)) = capacity t"
    and "rec_state (slots t ! i) \<noteq> Empty \<Longrightarrow> slots (snd (install t r)) ! i = slots t ! i" by simp_all
  show "record_of (snd (install t r)) h = Inr p" if "record_of t h = Inr p"
    by (rule scanned_record_of [OF _ _ that]) (use 1 eq in auto)
qed

lemma tree_wf_install:
  assumes "table_wf t" and "tree_wf t" and "linked t r"
  shows "tree_wf (snd (install t r))"
proof (rule tree_wfI)
  fix i assume i: "live (snd (install t r)) i"
  note cap = table_wfD(1) [OF assms(1)]
  have mono: "linked t x \<Longrightarrow> linked (snd (install t r)) x" for x
    by (erule linked_mono) (rule install_keeps(3) [OF assms(1)])
  have "linked t (slots (snd (install t r)) ! i)"
  proof (cases "live t i")
    case True
    then show ?thesis using install_keeps(2) [OF assms(1), of i r] tree_wfD [OF assms(2)] by simp
  next
    case False
    obtain res t' where eq: "install t r = (res, t')" by (cases "install t r")
    show ?thesis
    proof (cases res)
      case (Inl e)
      with eq have "slot_scanned (slots t ! i) (slots t' ! i)" "capacity t' = capacity t"
        using install_Inl [of t r e t'] cap by auto
      with eq i False show ?thesis by (auto simp: slot_scanned_def)
    next
      case (Inr h)
      with eq have "install t r = (Inr h, t')" by simp
      note spec = install_Inr [OF this cap]
      show ?thesis
      proof (cases "i = unat (h_slot h)")
        case True
        with spec(4) eq assms(3) show ?thesis by simp
      next
        case ne: False
        from slot_scanned_Live [OF spec(5) [OF this]] spec(6) eq i False show ?thesis by auto
      qed
    qed
  qed
  then show "linked (snd (install t r)) (slots (snd (install t r)) ! i)" by (rule mono)
qed

lemma delegate_Inr:
  assumes "delegate t src p tgt ri = (Inr h, t')"
  obtains r prov where "record_of t p = Inr r" "validate_delegation r p src ri = Inr ri"
    "tgt \<noteq> HOLDER_KERNEL" "child_of p (rec_provenance r) = Inr prov"
    "install t \<lparr>rec_state = Live, rec_holder = tgt, rec_resource = rec_resource r, rec_rights = ri,
                rec_provenance = prov, rec_generation = 0\<rparr> = (Inr h, t')"
  using assms that
  by (auto simp: delegate_def validate_delegation_Inr split: sum.splits if_splits)

lemma delegate_linked:
  assumes "record_of t p = Inr r" "validate_delegation r p src ri = Inr ri'"
    "child_of p (rec_provenance r) = Inr prov"
  shows "linked t \<lparr>rec_state = Live, rec_holder = tgt, rec_resource = rec_resource r, rec_rights = ri',
                rec_provenance = prov, rec_generation = 0\<rparr>"
  using assms child_of_depth [OF assms(3)]
  by (auto simp: linked_def validate_delegation_Inr child_of_Inr)

lemma tree_wf_delegate:
  assumes "table_wf t" and "tree_wf t"
  shows "tree_wf (snd (delegate t src p tgt ri))"
  using assms by (auto simp: delegate_def intro: tree_wf_install delegate_linked split: sum.split)

lemma tree_wf_grant:
  assumes "table_wf t" and "tree_wf t"
  shows "tree_wf (snd (grant t ho re ri (provenance_root ho')))"
  unfolding grant_eq_install [of t ho re ri "provenance_root ho'" Live 0]
  by (rule tree_wf_install [OF assms]) simp

lemma tree_wf_revoke_subtree:
  assumes "table_wf t" and "tree_wf t"
  shows "tree_wf (snd (revoke_subtree t h))"
proof (cases "record_of t h")
  case (Inl e)
  then show ?thesis using assms by (simp add: revoke_subtree_def slot_for_handle_def)
next
  case (Inr r)
  from revoke_subtree_spec [OF assms this] show ?thesis
    by (metis assms(2) child_closed_descends snd_conv tree_wf_pruned)
qed

lemma tree_wf_revoke_trees_where:
  assumes "table_wf t" and "tree_wf t"
  shows "tree_wf (snd (revoke_trees_where P t))" and "table_wf (snd (revoke_trees_where P t))"
proof -
  from revoke_trees_where_spec [OF assms, of P] obtain c v t' where
    t': "revoke_trees_where P t = ((c, v), t')" "pruned t (doomed t P) t'" "table_wf t'" by metis
  then show "tree_wf (snd (revoke_trees_where P t))"
    using tree_wf_pruned [OF assms(2) t'(2) child_closed_doomed] by simp
  from t' show "table_wf (snd (revoke_trees_where P t))" by simp
qed

lemma revoke_holder_tree_keeps:
  assumes "table_wf t" and "tree_wf t"
  shows "tree_wf (snd (revoke_holder_tree_visiting t ho))"
    and "table_wf (snd (revoke_holder_tree_visiting t ho))"
  using tree_wf_revoke_trees_where [OF assms, of "\<lambda>r. rec_holder r = ho"]
    table_run_wf [OF run_release_where]
  by (auto simp: revoke_holder_tree_visiting_def split: prod.split intro: tree_wf_release_where)

lemma revoke_resource_tree_keeps:
  assumes "table_wf t" and "tree_wf t"
  shows "tree_wf (snd (revoke_resource_tree t c i))"
    and "table_wf (snd (revoke_resource_tree t c i))"
  using tree_wf_revoke_trees_where [OF assms, of "\<lambda>r. res_class (rec_resource r) = c \<and> res_id (rec_resource r) = i"]
    table_run_wf [OF run_release_where]
  by (auto simp: revoke_resource_tree_def Let_def split: prod.split intro: tree_wf_release_where)

lemma live_count_card: "table_wf t \<Longrightarrow> live_count t = card {i. live t i}"
  by (simp add: table_wf_def length_filter_conv_card)

lemma pruned_count:
  assumes "table_wf t" and "table_wf t'" and "pruned t S t'"
  shows "live_count t = card {i. live t i \<and> i \<in> S} + live_count t'"
proof -
  have fin: "finite {i. live t i}" by (rule finite_subset [of _ "{..<capacity t}"]) auto
  have split: "{i. live t i} = {i. live t i \<and> i \<in> S} \<union> {i. live t' i}"
    by (auto simp: pruned_live [OF assms(3)])
  have "card {i. live t i} = card {i. live t i \<and> i \<in> S} + card {i. live t' i}"
    unfolding split
    by (rule card_Un_disjoint)
       (auto simp: pruned_live [OF assms(3)] intro: finite_subset [OF _ fin])
  then show ?thesis using assms(1,2) by (simp add: live_count_card)
qed

lemma pruned_authorize:
  assumes "pruned t S t'"
  shows "table_authorize t' actor h res req = Inr r
    \<longleftrightarrow> table_authorize t actor h res req = Inr r \<and> unat (h_slot h) \<notin> S"
  using pruned_nth [OF assms, of "unat (h_slot h)"] pruned_capacity [OF assms]
  by (auto simp: table_authorize_Inr split: if_splits)

lemma pruned_revoked:
  assumes "pruned t S t'" and "live t i" and "i \<in> S" and "record_of t h = Inr (slots t ! i)"
    and "unat (h_slot h) = i"
  shows "table_authorize t' actor h res req = Inl RevokedError"
proof -
  from assms have "record_of t' h = Inr ((slots t ! i)\<lparr>rec_state := Revoked, rec_rights := 0\<rparr>)"
    using pruned_nth [OF assms(1), of i] pruned_capacity [OF assms(1)] by (auto simp: record_of_Inr)
  moreover have "rec_generation (slots t ! i) = h_generation h" using assms(4) by (auto simp: record_of_Inr)
  ultimately show ?thesis by (simp add: table_authorize_def authorize_def)
qed

section \<open>Evaluating concrete forests\<close>

text \<open>
  Three slots: holder 10 has a root grant on object 42 and has delegated \<open>READ\<close> to holder 20; holder
  30 has an unrelated grant on object 7.
\<close>

definition sample_root :: cap_record where
  "sample_root = \<lparr>rec_state = Live, rec_holder = 10, rec_resource = resource_object 42,
     rec_rights = READ OR DELEGATE, rec_provenance = provenance_root 10, rec_generation = 1\<rparr>"

definition sample_child :: cap_record where
  "sample_child = \<lparr>rec_state = Live, rec_holder = 20, rec_resource = resource_object 42,
     rec_rights = READ,
     rec_provenance = \<lparr>prov_parent = Some \<lparr>h_slot = 0, h_generation = 1\<rparr>, prov_depth = 1, root_holder = 10\<rparr>,
     rec_generation = 1\<rparr>"

definition sample_other :: cap_record where
  "sample_other = \<lparr>rec_state = Live, rec_holder = 30, rec_resource = resource_object 7,
     rec_rights = WRITE, rec_provenance = provenance_root 30, rec_generation = 1\<rparr>"

definition sample_forest :: cap_table where
  "sample_forest = \<lparr>slots = [sample_root, sample_child, sample_other], live_count = 3\<rparr>"

lemmas sample_forest_defs = sample_root_def sample_child_def sample_other_def sample_forest_def

definition sample_forest0 :: cap_table where
  "sample_forest0 = \<lparr>slots = [sample_root, RECORD_EMPTY, RECORD_EMPTY], live_count = 1\<rparr>"

definition sample_forest1 :: cap_table where
  "sample_forest1 = \<lparr>slots = [sample_root, sample_child, RECORD_EMPTY], live_count = 2\<rparr>"

lemma sample_forest0_grant:
  "grant (table_new 3) 10 (resource_object 42) (READ OR DELEGATE) (provenance_root 10)
     = (Inr \<lparr>h_slot = 0, h_generation = 1\<rparr>, sample_forest0)"
  by (simp add: grant_def table_eval sample_forest_defs sample_forest0_def)

lemma sample_forest1_delegate:
  "delegate sample_forest0 10 \<lparr>h_slot = 0, h_generation = 1\<rparr> 20 READ
     = (Inr \<lparr>h_slot = 1, h_generation = 1\<rparr>, sample_forest1)"
  by (simp add: delegate_def install_def record_of_def validate_delegation_def authorize_def child_of_def
      checked_add_def ok_or_def MAX_DELEGATION_DEPTH_def HOLDER_KERNEL_def rights_intersects_def
      table_eval sample_forest_defs sample_forest0_def sample_forest1_def)

lemma sample_forest_grant:
  "grant sample_forest1 30 (resource_object 7) WRITE (provenance_root 30)
     = (Inr \<lparr>h_slot = 2, h_generation = 1\<rparr>, sample_forest)"
  by (simp add: grant_def table_eval sample_forest_defs sample_forest1_def)

lemma tree_wf_new: "tree_wf (table_new n)"
  by (simp add: tree_wf_def table_new_def RECORD_EMPTY_def)

lemma sample_forest_wf: "table_wf sample_forest" "tree_wf sample_forest"
proof -
  have "table_wf sample_forest0 \<and> tree_wf sample_forest0"
    using table_wf_grant [OF table_wf_new [of 3], of 10 "resource_object 42" "READ OR DELEGATE" "provenance_root 10"]
      tree_wf_grant [OF table_wf_new [of 3] tree_wf_new, of 10 "resource_object 42" "READ OR DELEGATE" 10]
    by (simp add: sample_forest0_grant)
  then have "table_wf sample_forest1 \<and> tree_wf sample_forest1"
    using table_run_wf [OF run_delegate] tree_wf_delegate sample_forest1_delegate
    by (metis (no_types) snd_conv)
  then show "table_wf sample_forest" "tree_wf sample_forest"
    using table_wf_grant tree_wf_grant sample_forest_grant by (metis (no_types) snd_conv)+
qed

lemma sample_forest_record: "record_of sample_forest \<lparr>h_slot = 0, h_generation = 1\<rparr> = Inr sample_root"
  by (simp add: record_of_Inr sample_forest_defs capacity_make)

lemma sample_forest_edge: "parent_rel sample_forest 0 1" "descends sample_forest 0 1"
proof -
  show "parent_rel sample_forest 0 1" by (simp add: parent_rel_def sample_forest_defs capacity_make)
  then show "descends sample_forest 0 1" by blast
qed

section \<open>Properties of delegation and revocation\<close>

text \<open>
  C2 (safety). Revoking a capability ends exactly the authority of its subtree. In a well-formed
  forest the call cannot fail on a handle that resolves; it returns the number of live records it
  revoked, which are the capability and all its transitive delegates, however deep; each of their
  handles is refused as revoked from then on, every other authorization is decided as before, and
  the forest stays well formed.
\<close>

theorem revoke_subtree_exact:
  assumes "table_wf t" and "tree_wf t" and "record_of t h = Inr r"
  shows "\<exists>n t'. revoke_subtree t h = (Inr n, t')
    \<and> n = card {i. live t i \<and> descends t (unat (h_slot h)) i}
    \<and> (\<forall>actor h' res req r'. table_authorize t' actor h' res req = Inr r' \<longleftrightarrow>
         table_authorize t actor h' res req = Inr r' \<and> \<not> descends t (unat (h_slot h)) (unat (h_slot h')))
    \<and> (\<forall>actor h' res req r'. record_of t h' = Inr r' \<and> rec_state r' = Live
         \<and> descends t (unat (h_slot h)) (unat (h_slot h')) \<longrightarrow>
         table_authorize t' actor h' res req = Inl RevokedError)
    \<and> table_wf t' \<and> tree_wf t'"
proof -
  from revoke_subtree_spec [OF assms] obtain n t' where
    n: "revoke_subtree t h = (Inr n, t')" "pruned t {j. descends t (unat (h_slot h)) j} t'"
      "table_wf t'" "n + live_count t' = live_count t" .
  have "tree_wf t'" using assms(2) n(2) child_closed_descends by (rule tree_wf_pruned)
  moreover have "n = card {i. live t i \<and> descends t (unat (h_slot h)) i}"
    using pruned_count [OF assms(1) n(3,2)] n(4) by simp
  moreover have "table_authorize t' actor h' res req = Inl RevokedError"
    if "record_of t h' = Inr r'" "rec_state r' = Live" "descends t (unat (h_slot h)) (unat (h_slot h'))"
    for actor h' res req r'
    using that by (intro pruned_revoked [OF n(2), of "unat (h_slot h')"]) (auto simp: record_of_Inr)
  ultimately show ?thesis using n(1,3) pruned_authorize [OF n(2)] by auto
qed

theorem revoke_subtree_exact_witness:
  "fst (revoke_subtree sample_forest \<lparr>h_slot = 0, h_generation = 1\<rparr>)
      = Inr (card {i. live sample_forest i \<and> descends sample_forest 0 i})
   \<and> table_authorize (snd (revoke_subtree sample_forest \<lparr>h_slot = 0, h_generation = 1\<rparr>))
      20 \<lparr>h_slot = 1, h_generation = 1\<rparr> (resource_object 42) READ = Inl RevokedError"
proof -
  have "record_of sample_forest \<lparr>h_slot = 1, h_generation = 1\<rparr> = Inr sample_child
        \<and> rec_state sample_child = Live"
    by (simp add: record_of_Inr sample_forest_defs capacity_make)
  then show ?thesis
    using revoke_subtree_exact [OF sample_forest_wf sample_forest_record] sample_forest_edge(2)
    by fastforce
qed

text \<open>
  Revoking the same subtree again revokes nothing: the second call succeeds with
  count zero and leaves the table as it is.
\<close>

theorem revoke_subtree_idempotent:
  assumes "table_wf t" and "tree_wf t" and "record_of t h = Inr r"
  shows "revoke_subtree (snd (revoke_subtree t h)) h = (Inr 0, snd (revoke_subtree t h))"
proof -
  from revoke_subtree_spec [OF assms] obtain n t' where
    n: "revoke_subtree t h = (Inr n, t')" "pruned t {j. descends t (unat (h_slot h)) j} t'"
      "table_wf t'" "n + live_count t' = live_count t" .
  have tree: "tree_wf t'" using assms(2) n(2) child_closed_descends by (rule tree_wf_pruned)
  have s: "unat (h_slot h) < capacity t" using assms(3) by (simp add: record_of_Inr)
  have "\<exists>r'. record_of t' h = Inr r'"
    using assms(3) pruned_nth [OF n(2) s] pruned_capacity [OF n(2)] by (auto simp: record_of_Inr)
  then obtain r' where r': "record_of t' h = Inr r'" ..
  from revoke_subtree_spec [OF n(3) tree r'] obtain m t'' where
    m: "revoke_subtree t' h = (Inr m, t'')" "pruned t' {j. descends t' (unat (h_slot h)) j} t''"
      "table_wf t''" "m + live_count t'' = live_count t'" .
  have dead: "\<not> live t' i" if "descends t' (unat (h_slot h)) i" for i
  proof -
    have "descends t (unat (h_slot h)) i"
      using that pruned_descends [OF n(2) child_closed_descends] by auto
    then show ?thesis using pruned_live [OF n(2), of i] by auto
  qed
  have "slots t'' ! i = slots t' ! i" if "i < capacity t'" for i
    using pruned_nth [OF m(2) that] dead [of i] that by auto
  then have "slots t'' = slots t'"
    using pruned_capacity [OF m(2)] by (intro nth_equalityI) simp_all
  moreover have "m = 0"
    using pruned_count [OF n(3) m(3,2)] m(4) dead by (simp add: conj_commute cong: conj_cong)
  ultimately have "m = 0 \<and> t'' = t'" using m(4) by (cases t'', cases t') simp
  with m(1) n(1) show ?thesis by simp
qed

theorem revoke_subtree_idempotent_witness:
  "revoke_subtree (snd (revoke_subtree sample_forest \<lparr>h_slot = 0, h_generation = 1\<rparr>))
       \<lparr>h_slot = 0, h_generation = 1\<rparr>
     = (Inr 0, snd (revoke_subtree sample_forest \<lparr>h_slot = 0, h_generation = 1\<rparr>))"
  by (rule revoke_subtree_idempotent [OF sample_forest_wf sample_forest_record])

lemma released_generation_nonzero:
  "rec_state (released r) = Empty \<Longrightarrow> rec_generation (released r) \<noteq> 0"
  by (auto simp: released_def dest: generation_next_nonzero split: option.splits)

lemma record_of_released:
  assumes "unat (h_slot h) < capacity t" and "slots t ! unat (h_slot h) = released r"
  shows "record_of t h = Inl StaleHandle"
  using assms released_state [of r] released_generation_nonzero [of r]
  by (auto simp: record_of_def slot_index_def Let_def)

lemma release_where_authorize:
  "table_authorize (release_where P t) actor h res req = Inr r
     \<longleftrightarrow> table_authorize t actor h res req = Inr r"
  using release_where_live [where P = P and t = t and i = "unat (h_slot h)"] by (auto simp: table_authorize_Inr)

lemma release_where_record_of:
  assumes "record_of t h = Inr r"
  shows "record_of (release_where P t) h =
           (if P r \<and> rec_state r = Revoked then Inl StaleHandle else Inr r)"
proof -
  let ?s = "unat (h_slot h)"
  from assms have s: "?s < capacity t" "r = slots t ! ?s" by (auto simp: record_of_Inr)
  then have *: "slots (release_where P t) ! ?s
      = (if P r \<and> rec_state r = Revoked then released r else r)"
    by (simp add: release_where_slots)
  show ?thesis
  proof (cases "P r \<and> rec_state r = Revoked")
    case True
    with * s record_of_released [of h "release_where P t" r] show ?thesis by simp
  next
    case False
    with * s assms show ?thesis by (auto simp: record_of_Inr)
  qed
qed

text \<open>
  C4 (safety). When a holder ends, its authority and everything derived from it ends, and nothing
  else: in a well-formed forest \<open>revoke_holder_tree\<close> returns the number of live records in the
  trees below the holder's capabilities and no handle of one of them authorizes anything again. The
  holder's own handles become stale, because their slots are released, while delegates held by others
  are reported as revoked; every other authorization is decided as before.
\<close>

theorem revoke_holder_tree_authority:
  assumes "table_wf t" and "tree_wf t" and "revoke_holder_tree t holder = (n, t')"
  shows "n = card {i. live t i \<and> i \<in> doomed t (\<lambda>r. rec_holder r = holder)}
    \<and> (\<forall>actor h res req r. table_authorize t' actor h res req = Inr r \<longleftrightarrow>
         table_authorize t actor h res req = Inr r
         \<and> unat (h_slot h) \<notin> doomed t (\<lambda>r. rec_holder r = holder))
    \<and> (\<forall>actor h res req r. record_of t h = Inr r \<and> rec_state r = Live
         \<and> unat (h_slot h) \<in> doomed t (\<lambda>r. rec_holder r = holder) \<longrightarrow>
         table_authorize t' actor h res req
           = Inl (if rec_holder r = holder then StaleHandle else RevokedError))
    \<and> table_wf t' \<and> tree_wf t'"
proof -
  let ?P = "\<lambda>r. rec_holder r = holder"
  from revoke_trees_where_spec [OF assms(1,2), of ?P] obtain c v t1 where
    c: "revoke_trees_where ?P t = ((c, v), t1)" "pruned t (doomed t ?P) t1" "table_wf t1"
      "c + live_count t1 = live_count t"
      "set v = {rec_resource (slots t ! j) | j. live t j \<and> j \<in> doomed t ?P}" .
  from assms(3) c(1) have n: "n = c" "t' = release_where ?P t1"
    by (simp_all add: revoke_holder_tree_def revoke_holder_tree_visiting_def)
  have count: "n = card {i. live t i \<and> i \<in> doomed t ?P}"
    using pruned_count [OF assms(1) c(3,2)] c(4) n(1) by simp
  have refused: "table_authorize t' actor h res req
           = Inl (if rec_holder r = holder then StaleHandle else RevokedError)"
    if h: "record_of t h = Inr r \<and> rec_state r = Live \<and> unat (h_slot h) \<in> doomed t ?P"
    for actor h res req r
  proof -
    let ?r1 = "r\<lparr>rec_state := Revoked, rec_rights := 0\<rparr>"
    from h have r1: "record_of t1 h = Inr ?r1"
      using pruned_nth [OF c(2), of "unat (h_slot h)"] pruned_capacity [OF c(2)]
      by (auto simp: record_of_Inr)
    have g: "rec_generation r = h_generation h" using h by (auto simp: record_of_Inr)
    show ?thesis
    proof (cases "rec_holder r = holder")
      case True
      with release_where_record_of [OF r1, of ?P] show ?thesis by (simp add: n(2) table_authorize_def)
    next
      case False
      with release_where_record_of [OF r1, of ?P] g show ?thesis
        by (simp add: n(2) table_authorize_def authorize_def)
    qed
  qed
  have keeps: "table_wf t'" "tree_wf t'"
    using revoke_holder_tree_keeps [OF assms(1,2), of holder] c(1) n(2)
    by (simp_all add: revoke_holder_tree_visiting_def)
  have others: "table_authorize t' actor h res req = Inr r \<longleftrightarrow>
         table_authorize t actor h res req = Inr r \<and> unat (h_slot h) \<notin> doomed t ?P" for actor h res req r
    by (simp add: n(2) release_where_authorize pruned_authorize [OF c(2)])
  show ?thesis by (intro conjI allI impI count others refused keeps) simp_all
qed

lemma sample_doomed: "1 \<in> doomed sample_forest (\<lambda>r. rec_holder r = 10)"
  using sample_forest_edge(2) by (auto simp: doomed_def sample_forest_defs capacity_make intro!: exI [of _ 0])

theorem revoke_holder_tree_authority_witness:
  "table_authorize (snd (revoke_holder_tree sample_forest 10))
     20 \<lparr>h_slot = 1, h_generation = 1\<rparr> (resource_object 42) READ = Inl RevokedError"
proof -
  have child: "record_of sample_forest \<lparr>h_slot = 1, h_generation = 1\<rparr> = Inr sample_child"
    "rec_state sample_child = Live" "rec_holder sample_child \<noteq> 10"
    by (simp_all add: record_of_Inr sample_forest_defs capacity_make)
  obtain n t' where eq: "revoke_holder_tree sample_forest 10 = (n, t')" by (cases "revoke_holder_tree sample_forest 10")
  from revoke_holder_tree_authority [OF sample_forest_wf eq] child sample_doomed show ?thesis
    by (simp add: eq)
qed

text \<open>
  The visitor of \<open>revoke_holder_tree_visiting\<close> is called with exactly the
  resources whose capabilities the call revokes, which is what the caller relies on to reconcile the
  mappings of revoked buffers.
\<close>

theorem revoke_holder_tree_visits:
  assumes "table_wf t" and "tree_wf t"
    and "revoke_holder_tree_visiting t holder = ((n, visited), t')"
  shows "set visited = {rec_resource (slots t ! i) | i. live t i \<and> \<not> live t' i}"
proof -
  let ?P = "\<lambda>r. rec_holder r = holder"
  from revoke_trees_where_spec [OF assms(1,2), of ?P] obtain c v t1 where
    c: "revoke_trees_where ?P t = ((c, v), t1)" "pruned t (doomed t ?P) t1" "table_wf t1"
      "c + live_count t1 = live_count t"
      "set v = {rec_resource (slots t ! j) | j. live t j \<and> j \<in> doomed t ?P}" .
  from assms(3) c(1) have n: "visited = v" "t' = release_where ?P t1"
    by (simp_all add: revoke_holder_tree_visiting_def)
  have "live t i \<and> \<not> live t' i \<longleftrightarrow> live t i \<and> i \<in> doomed t ?P" for i
    using pruned_live [OF c(2), of i] release_where_live(1) [where P = ?P and t = t1 and i = i] by (auto simp: n(2))
  then show ?thesis using c(5) n(1) by simp
qed

theorem revoke_holder_tree_visits_witness:
  "set (snd (fst (revoke_holder_tree_visiting sample_forest 10)))
     = {rec_resource (slots sample_forest ! i) | i.
          live sample_forest i \<and> \<not> live (snd (revoke_holder_tree_visiting sample_forest 10)) i}"
  by (rule revoke_holder_tree_visits [OF sample_forest_wf]) (simp add: prod_eq_iff)

text \<open>
  C6 (safety). A successful delegation attenuates: the parent handle resolves to a live capability
  of the source that carries \<open>DELEGATE\<close>, the child's rights are a subset of the parent's and contain
  no root-only right, the new handle authorizes exactly the target for exactly those rights on the
  parent's resource, and no other handle gains or loses anything.
\<close>

theorem delegate_attenuates:
  assumes "table_wf t" and "delegate t source parent target rights = (Inr h, t')"
  shows "\<exists>p c. record_of t parent = Inr p \<and> rec_state p = Live \<and> rec_holder p = source
    \<and> rights_contains (rec_rights p) DELEGATE \<and> is_subset_of rights (rec_rights p)
    \<and> rights AND root_only_for (res_class (rec_resource p)) = 0 \<and> target \<noteq> HOLDER_KERNEL
    \<and> record_of t' h = Inr c \<and> prov_parent (rec_provenance c) = Some parent
    \<and> unat (prov_depth (rec_provenance c)) = Suc (unat (prov_depth (rec_provenance p)))
    \<and> unat (prov_depth (rec_provenance c)) \<le> 4
    \<and> (\<forall>actor res req. table_authorize t' actor h res req =
          (if actor \<noteq> target then Inl UnauthorizedHolder
           else if res \<noteq> rec_resource p then Inl WrongResource
           else if \<not> rights_contains rights req then Inl MissingRight else Inr c))
    \<and> (\<forall>h' actor res req r. h' \<noteq> h \<longrightarrow> (table_authorize t' actor h' res req = Inr r
          \<longleftrightarrow> table_authorize t actor h' res req = Inr r))"
proof -
  from delegate_Inr [OF assms(2)] obtain p prov where
    p: "record_of t parent = Inr p" "validate_delegation p parent source rights = Inr rights"
      "target \<noteq> HOLDER_KERNEL" "child_of parent (rec_provenance p) = Inr prov"
      "install t \<lparr>rec_state = Live, rec_holder = target, rec_resource = rec_resource p,
                  rec_rights = rights, rec_provenance = prov, rec_generation = 0\<rparr> = (Inr h, t')" .
  let ?c = "\<lparr>rec_state = Live, rec_holder = target, rec_resource = rec_resource p,
             rec_rights = rights, rec_provenance = prov, rec_generation = h_generation h\<rparr>"
  have c: "record_of t' h = Inr ?c"
    using install_authority(1) [OF assms(1) p(5)] by (simp add: installed_as_def)
  have auth: "table_authorize t' actor h res req =
          (if actor \<noteq> target then Inl UnauthorizedHolder
           else if res \<noteq> rec_resource p then Inl WrongResource
           else if \<not> rights_contains rights req then Inl MissingRight else Inr ?c)" for actor res req
    using authorize_live [OF c] by simp
  have parent: "rec_state p = Live \<and> rec_holder p = source \<and> rights_contains (rec_rights p) DELEGATE
      \<and> is_subset_of rights (rec_rights p) \<and> rights AND root_only_for (res_class (rec_resource p)) = 0"
    using p(2) by (simp add: validate_delegation_Inr rights_contains_subset rights_intersects_def)
  have prov: "prov_parent prov = Some parent" using p(4) by (simp add: child_of_Inr)
  show ?thesis
    using p(1,3) c child_of_depth [OF p(4)] parent prov
    by (intro exI [of _ p] exI [of _ ?c] conjI allI impI auth install_authority(2) [OF assms(1) p(5)]) simp_all
qed

theorem delegate_attenuates_witness:
  "table_authorize sample_forest1 20 \<lparr>h_slot = 1, h_generation = 1\<rparr> (resource_object 42) DELEGATE
     = Inl MissingRight"
proof -
  have wf: "table_wf sample_forest0"
    using table_wf_grant [OF table_wf_new [of 3], of 10 "resource_object 42" "READ OR DELEGATE" "provenance_root 10"]
    by (simp add: sample_forest0_grant)
  have "record_of sample_forest0 \<lparr>h_slot = 0, h_generation = 1\<rparr> = Inr sample_root"
    by (simp add: record_of_Inr sample_forest0_def sample_root_def capacity_make)
  with delegate_attenuates [OF wf sample_forest1_delegate] show ?thesis
    by (auto simp: sample_root_def rights_contains_def rights_consts)
qed

text \<open>
  A delegation that is refused changes no authority: every authorization is decided as
  before and the live count stays, and the table is left untouched except when the slots are used
  up, where the scan for a free slot may have retired exhausted empty ones.
\<close>

theorem delegate_refused:
  assumes "table_wf t" and "delegate t source parent target rights = (Inl e, t')"
  shows "live_count t' = live_count t \<and> (e \<noteq> CapacityExhausted \<longrightarrow> t' = t)
    \<and> (table_authorize t' actor h res req = Inr r \<longleftrightarrow> table_authorize t actor h res req = Inr r)"
proof -
  note cap = table_wfD(1) [OF assms(1)]
  from assms(2) have "t' = t \<or> (\<exists>rc. install t rc = (Inl e, t'))"
    by (auto simp: delegate_def split: sum.splits if_splits)
  then show ?thesis
  proof
    assume "\<exists>rc. install t rc = (Inl e, t')"
    then obtain rc where eq: "install t rc = (Inl e, t')" ..
    note spec = install_Inl [OF eq cap]
    from spec(1) [of "unat (h_slot h)"] spec(2-4) show ?thesis
      by (auto simp: table_authorize_Inr slot_scanned_def)
  qed simp
qed

theorem delegate_refused_witness:
  "delegate sample_forest 20 \<lparr>h_slot = 1, h_generation = 1\<rparr> 40 READ = (Inl MissingRight, sample_forest)
   \<and> live_count sample_forest = 3"
proof -
  have "fst (delegate sample_forest 20 \<lparr>h_slot = 1, h_generation = 1\<rparr> 40 READ) = Inl MissingRight"
    by (simp add: delegate_def record_of_def validate_delegation_def authorize_def table_eval sample_forest_defs)
  then obtain t' where eq: "delegate sample_forest 20 \<lparr>h_slot = 1, h_generation = 1\<rparr> 40 READ = (Inl MissingRight, t')"
    by (metis prod.collapse)
  from delegate_refused [OF sample_forest_wf(1) eq] eq show ?thesis by (simp add: sample_forest_def)
qed

section \<open>Who may revoke, and listing\<close>

lemma ancestor_last:
  "(parent_rel t)\<^sup>+\<^sup>+ i j \<longleftrightarrow> (\<exists>p. parent_rel t p j \<and> (i = p \<or> (parent_rel t)\<^sup>+\<^sup>+ i p))"
  by (subst tranclp.simps) auto

lemma ancestor_step:
  assumes "parent_rel t p j"
  shows "(parent_rel t)\<^sup>+\<^sup>+ i j \<longleftrightarrow> i = p \<or> (parent_rel t)\<^sup>+\<^sup>+ i p"
proof -
  have "parent_rel t q j \<longleftrightarrow> q = p" for q using assms parent_rel_unique by blast
  then show ?thesis using ancestor_last [of t i j] by simp
qed

lemma ancestor_none:
  "prov_parent (rec_provenance (slots t ! j)) = None \<Longrightarrow> \<not> (parent_rel t)\<^sup>+\<^sup>+ i j"
  by (simp add: ancestor_last [of t i j] parent_rel_def)

lemma revoke_walk_spec:
  assumes "tree_wf t" and "live t j" and "unat (prov_depth (rec_provenance (slots t ! j))) \<le> n"
  shows "revoke_walk t n actor (prov_parent (rec_provenance (slots t ! j))) =
    (if \<exists>i. (parent_rel t)\<^sup>+\<^sup>+ i j \<and> rec_holder (slots t ! i) = actor
     then Inr () else Inl UnauthorizedHolder)"
  using assms(2,3)
proof (induction n arbitrary: j)
  case 0
  have "\<not> parent_rel t k j" for k using 0 assms(1) by (auto elim: parent_relE)
  with 0 have "prov_parent (rec_provenance (slots t ! j)) = None"
    by (cases "prov_parent (rec_provenance (slots t ! j))") (auto simp: parent_rel_def)
  with ancestor_none show ?case by simp
next
  case (Suc n)
  show ?case
  proof (cases "prov_parent (rec_provenance (slots t ! j))")
    case None
    with ancestor_none show ?thesis by simp
  next
    case (Some h)
    let ?p = "unat (h_slot h)"
    from Some Suc.prems have edge: "parent_rel t ?p j" by (simp add: parent_rel_def)
    with assms(1) Some have p: "live t ?p" "record_of t h = Inr (slots t ! ?p)"
      "unat (prov_depth (rec_provenance (slots t ! j))) = Suc (unat (prov_depth (rec_provenance (slots t ! ?p))))"
      by (auto elim!: parent_relE)
    then have "unat (prov_depth (rec_provenance (slots t ! ?p))) \<le> n" using Suc.prems by simp
    note IH = Suc.IH [OF p(1) this]
    have "(\<exists>i. (parent_rel t)\<^sup>+\<^sup>+ i j \<and> rec_holder (slots t ! i) = actor) \<longleftrightarrow>
        rec_holder (slots t ! ?p) = actor
        \<or> (\<exists>i. (parent_rel t)\<^sup>+\<^sup>+ i ?p \<and> rec_holder (slots t ! i) = actor)"
      unfolding ancestor_step [OF edge] by blast
    with IH p(2) Some show ?thesis by simp
  qed
qed

text \<open>
  C7 (safety). Who may revoke a live capability is decided by the delegation chain: the walk over
  provenance allows exactly the holder of the capability and the holders of its ancestors, and
  refuses everybody else as unauthorized. The bound of four steps never cuts a chain short.
\<close>

theorem authorize_revoke_ancestors:
  assumes "tree_wf t" and "record_of t h = Inr r" and "rec_state r = Live"
  shows "authorize_revoke t actor h =
    (if \<exists>i. descends t i (unat (h_slot h)) \<and> rec_holder (slots t ! i) = actor
     then Inr () else Inl UnauthorizedHolder)"
proof -
  let ?j = "unat (h_slot h)"
  from assms(2,3) have j: "live t ?j" "r = slots t ! ?j" by (auto simp: record_of_Inr)
  have "unat (prov_depth (rec_provenance (slots t ! ?j))) \<le> 4"
  proof -
    from descends_from_root [OF assms(1) j(1)] obtain i where "descends t i ?j"
      and i: "live t i" "prov_parent (rec_provenance (slots t ! i)) = None" by blast
    then obtain n where n: "(parent_rel t ^^ n) i ?j" by (auto dest: rtranclp_imp_relpowp)
    moreover have "prov_depth (rec_provenance (slots t ! i)) = 0"
      using tree_wfD [OF assms(1) i(1)] i(2) by (simp add: linked_def)
    ultimately show ?thesis using descends_depth [OF n assms(1)] descends_bound [OF n assms(1)] by simp
  qed
  note walk = revoke_walk_spec [OF assms(1) j(1) this, of actor]
  have "descends t i ?j \<longleftrightarrow> i = ?j \<or> (parent_rel t)\<^sup>+\<^sup>+ i ?j" for i
    by (metis rtranclpD rtranclp.rtrancl_refl tranclp_into_rtranclp)
  then have "(\<exists>i. descends t i ?j \<and> rec_holder (slots t ! i) = actor) \<longleftrightarrow> rec_holder r = actor
      \<or> (\<exists>i. (parent_rel t)\<^sup>+\<^sup>+ i ?j \<and> rec_holder (slots t ! i) = actor)"
    unfolding j(2) by (metis (no_types))
  with walk assms(2) j(2) show ?thesis
    by (simp add: authorize_revoke_def MAX_DELEGATION_DEPTH_def)
qed

theorem authorize_revoke_ancestors_witness:
  "authorize_revoke sample_forest 10 \<lparr>h_slot = 1, h_generation = 1\<rparr> = Inr ()"
proof -
  have child: "record_of sample_forest \<lparr>h_slot = 1, h_generation = 1\<rparr> = Inr sample_child"
    "rec_state sample_child = Live" "rec_holder (slots sample_forest ! 0) = 10"
    by (simp_all add: record_of_Inr sample_forest_defs capacity_make)
  with authorize_revoke_ancestors [OF sample_forest_wf(2) child(1,2), of 10] sample_forest_edge(2)
  show ?thesis by auto
qed

text \<open>A listing step returns the next live slot of the holder at or after the cursor.\<close>

definition held_by :: "cap_table \<Rightarrow> holder_id \<Rightarrow> nat \<Rightarrow> bool" where
  "held_by t holder i \<longleftrightarrow> live t i \<and> rec_holder (slots t ! i) = holder"

lemma list_holder_from_find:
  assumes "capacity t \<le> 65536" and "set xs \<subseteq> {..<capacity t}"
  shows "list_holder_from xs t holder = map_option
    (\<lambda>i. (Suc i, \<lparr>h_slot = of_nat i, h_generation = rec_generation (slots t ! i)\<rparr>, slots t ! i))
    (find (held_by t holder) xs)"
  using assms(2)
proof (induction xs)
  case (Cons i xs)
  then have i: "i < capacity t" by simp
  show ?case
  proof (cases "held_by t holder i")
    case True
    then have "handle_at t i = Some \<lparr>h_slot = of_nat i, h_generation = rec_generation (slots t ! i)\<rparr>"
      by (simp add: handle_at_Some [OF assms(1)] held_by_def)
    with True show ?thesis by (simp add: record_at_def held_by_def Let_def)
  next
    case False
    with i Cons show ?thesis by (auto simp: record_at_def held_by_def)
  qed
qed simp

lemma list_holder_find:
  "capacity t \<le> 65536 \<Longrightarrow> list_holder t holder cursor = map_option
    (\<lambda>i. (Suc i, \<lparr>h_slot = of_nat i, h_generation = rec_generation (slots t ! i)\<rparr>, slots t ! i))
    (find (held_by t holder) [cursor..<capacity t])"
  using list_holder_from_find [of t "[cursor..<capacity t]" holder]
  by (simp add: list_holder_def subset_iff)

lemma list_holder_None:
  assumes "capacity t \<le> 65536" and "list_holder t holder cursor = None" and "cursor \<le> i"
  shows "\<not> held_by t holder i"
  using assms by (auto simp: list_holder_find find_None_iff held_by_def)

lemma list_holder_Some:
  assumes "capacity t \<le> 65536" and "list_holder t holder cursor = Some (next, h, r)"
  obtains i where "next = Suc i" "cursor \<le> i" "held_by t holder i" "r = slots t ! i"
    "unat (h_slot h) = i" "record_of t h = Inr r"
    "\<forall>k. cursor \<le> k \<and> k < i \<longrightarrow> \<not> held_by t holder k"
proof -
  from assms obtain i where i: "find (held_by t holder) [cursor..<capacity t] = Some i"
    "next = Suc i" "h = \<lparr>h_slot = of_nat i, h_generation = rec_generation (slots t ! i)\<rparr>" "r = slots t ! i"
    by (auto simp: list_holder_find)
  from i(1) obtain n where n: "n < capacity t - cursor" "i = cursor + n" "held_by t holder i"
    "\<forall>j<n. \<not> held_by t holder (cursor + j)"
    by (auto simp: find_Some_iff)
  have "i < 65536" using n(1,2) assms(1) by simp
  then have "unat (h_slot h) = i" using i(3) unat_of_nat_slot by simp
  moreover from this i n(3) have "record_of t h = Inr r" by (simp add: record_of_Inr held_by_def)
  moreover have "\<not> held_by t holder k" if "cursor \<le> k" "k < i" for k
    using n(4) that n(2) by (metis add_diff_inverse_nat nat_add_left_cancel_less not_less)
  then have "\<forall>k. cursor \<le> k \<and> k < i \<longrightarrow> \<not> held_by t holder k" by blast
  ultimately show thesis using that i n by simp
qed

end
