(* ===== verification/Cap_Audit.thy ===== *)
theory Cap_Audit
  imports Cap_Tree
begin

text \<open>
  The audit trail of the \<open>capability\<close> crate (\<open>audit.rs\<close>, \<open>audit_log.rs\<close>): events and outcomes, the
  audited authorization over any \<open>AuditSink\<close>, the line formatter, and the bounded ring
  \<open>BoundedAuditLog<N>\<close>. The ring refines a list that keeps its last \<open>N\<close> entries; sequences are
  consecutive and the reader returns a gap-free window. The padding fields of the C layouts are
  always zero and are left out.
\<close>

section \<open>Events\<close>

record audit_outcome =
  oc_tag :: u8
  oc_error_code :: u8

record audit_event =
  ev_sequence :: u64
  ev_actor :: holder_id
  ev_class :: resource_class
  ev_resource_id :: u64
  ev_requested :: rights
  ev_handle :: u64
  ev_outcome :: audit_outcome
  ev_depth :: u8

definition TAG_ALLOWED :: u8 where "TAG_ALLOWED = 0"
definition TAG_DENIED :: u8 where "TAG_DENIED = 1"

definition outcome_allowed :: audit_outcome where
  "outcome_allowed = \<lparr>oc_tag = TAG_ALLOWED, oc_error_code = 0\<rparr>"

definition outcome_denied :: "cap_error \<Rightarrow> audit_outcome" where
  "outcome_denied e = \<lparr>oc_tag = TAG_DENIED, oc_error_code = cap_error_as_u8 e\<rparr>"

definition outcome_error_name :: "audit_outcome \<Rightarrow> string" where
  "outcome_error_name oc =
     (if oc_tag oc = TAG_ALLOWED then ''allowed''
      else case cap_error_from_u8 (oc_error_code oc) of
             Some e \<Rightarrow> error_name e | None \<Rightarrow> ''unknown'')"

definition event_for ::
  "u64 \<Rightarrow> holder_id \<Rightarrow> resource_ref \<Rightarrow> rights \<Rightarrow> cap_handle \<Rightarrow> u8 \<Rightarrow> cap_error + unit \<Rightarrow> audit_event" where
  "event_for sequence actor resource requested handle depth result =
     \<lparr>ev_sequence = sequence, ev_actor = actor, ev_class = res_class resource,
      ev_resource_id = res_id resource, ev_requested = requested,
      ev_handle = handle_encode handle,
      ev_outcome = (case result of Inr _ \<Rightarrow> outcome_allowed | Inl e \<Rightarrow> outcome_denied e),
      ev_depth = depth\<rparr>"

text \<open>\<open>authorize_audited\<close> takes the sink's \<open>record\<close> operation and its state.\<close>

definition authorize_audited ::
  "('s \<Rightarrow> audit_event \<Rightarrow> 's) \<Rightarrow> 's \<Rightarrow> u64 \<Rightarrow> cap_record \<Rightarrow> cap_handle \<Rightarrow> holder_id \<Rightarrow> resource_ref
     \<Rightarrow> rights \<Rightarrow> (cap_error + unit) \<times> 's" where
  "authorize_audited rec sink sequence record handle holder resource required =
     (let result = authorize record handle holder resource required;
          outcome = (case result of Inr _ \<Rightarrow> outcome_allowed | Inl e \<Rightarrow> outcome_denied e);
          event = \<lparr>ev_sequence = sequence, ev_actor = holder, ev_class = res_class resource,
                   ev_resource_id = res_id resource, ev_requested = required,
                   ev_handle = handle_encode handle, ev_outcome = outcome,
                   ev_depth = prov_depth (rec_provenance record)\<rparr>
      in (result, rec sink event))"

text \<open>\<open>NullAuditSink\<close> discards.\<close>

definition null_record :: "unit \<Rightarrow> audit_event \<Rightarrow> unit" where
  "null_record s e = s"

section \<open>Formatting\<close>

fun resource_class_name :: "resource_class \<Rightarrow> string" where
  "resource_class_name PersistentObject = ''persistent-object''"
| "resource_class_name ProcessControl = ''process-control''"
| "resource_class_name IpcEndpoint = ''ipc-endpoint''"
| "resource_class_name BlockDevice = ''block-device''"
| "resource_class_name LifecycleControl = ''lifecycle-control''"
| "resource_class_name Audit = ''audit''"
| "resource_class_name Network = ''network''"
| "resource_class_name SharedBuffer = ''shared-buffer''"
| "resource_class_name Graphics = ''graphics''"
| "resource_class_name Display = ''display''"
| "resource_class_name Input = ''input''"

text \<open>
  \<open>write_u64\<close> fills a buffer of 20 bytes from the end; \<open>None\<close> is the panic of an index that would
  go below zero.
\<close>

fun write_u64_loop :: "nat \<Rightarrow> nat \<Rightarrow> string \<Rightarrow> string option" where
  "write_u64_loop remaining index digits =
     (if remaining = 0 then Some digits
      else if index = 0 then None
      else write_u64_loop (remaining div 10) (index - 1) (char_of (48 + remaining mod 10) # digits))"

definition write_u64 :: "u64 \<Rightarrow> string option" where
  "write_u64 value = (if value = 0 then Some ''0'' else write_u64_loop (unat value) 20 [])"

definition format_audit_line :: "audit_event \<Rightarrow> string option" where
  "format_audit_line event =
     Option.bind (write_u64 (ev_sequence event)) (\<lambda>sq.
     Option.bind (write_u64 (ev_actor event)) (\<lambda>actor.
     Option.bind (write_u64 (ev_resource_id event)) (\<lambda>resource.
     Option.bind (write_u64 (ucast (ev_depth event))) (\<lambda>depth.
       Some (''[AUD ] seq='' @ sq @ '' actor='' @ actor
             @ '' class='' @ resource_class_name (ev_class event)
             @ '' resource='' @ resource @ '' op=''
             @ (if ev_requested event = 0 then ''none'' else write_names (ev_requested event))
             @ '' outcome='' @ outcome_error_name (ev_outcome event)
             @ '' depth='' @ depth)))))"

section \<open>The bounded ring\<close>

record audit_log =
  al_events :: "audit_event list"
  al_start :: nat
  al_len :: nat
  al_next_sequence :: u64
  al_dropped :: u64

definition dummy_event :: audit_event where
  "dummy_event =
     \<lparr>ev_sequence = 0, ev_actor = 0, ev_class = PersistentObject, ev_resource_id = 0,
      ev_requested = rights_empty, ev_handle = 0, ev_outcome = outcome_allowed, ev_depth = 0\<rparr>"

definition log_new :: "nat \<Rightarrow> audit_log" where
  "log_new n = \<lparr>al_events = replicate n dummy_event, al_start = 0, al_len = 0,
                al_next_sequence = 1, al_dropped = 0\<rparr>"

abbreviation log_capacity :: "audit_log \<Rightarrow> nat" where
  "log_capacity log \<equiv> length (al_events log)"

text \<open>The event at an offset from the oldest one.\<close>

definition event_at :: "audit_log \<Rightarrow> nat \<Rightarrow> audit_event" where
  "event_at log offset = al_events log ! ((al_start log + offset) mod log_capacity log)"

definition oldest_sequence :: "audit_log \<Rightarrow> u64 option" where
  "oldest_sequence log =
     (if al_len log = 0 then None else Some (ev_sequence (al_events log ! al_start log)))"

definition newest_sequence :: "audit_log \<Rightarrow> u64 option" where
  "newest_sequence log =
     (if al_len log = 0 then None
      else Some (ev_sequence
             (al_events log ! ((al_start log + al_len log - 1) mod log_capacity log))))"

fun read_from_loop ::
  "audit_log \<Rightarrow> u64 \<Rightarrow> nat list \<Rightarrow> audit_event list \<Rightarrow> nat \<Rightarrow> u64 \<Rightarrow> nat \<times> u64 \<times> audit_event list" where
  "read_from_loop log since [] out written last_seq = (written, last_seq, out)"
| "read_from_loop log since (offset # rest) out written last_seq =
     (let event = event_at log offset in
      if ev_sequence event < since then read_from_loop log since rest out written last_seq
      else if written \<ge> length out then (written, last_seq, out)
      else read_from_loop log since rest (out[written := event]) (written + 1) (ev_sequence event))"

definition read_from :: "audit_log \<Rightarrow> u64 \<Rightarrow> audit_event list \<Rightarrow> (nat \<times> u64) \<times> audit_event list" where
  "read_from log since out =
     (if al_len log = 0 \<or> out = [] then ((0, al_next_sequence log), out)
      else case read_from_loop log since [0..<al_len log] out 0 0 of
             (written, last_seq, out') \<Rightarrow>
               ((written, if written = 0 then al_next_sequence log else last_seq + 1), out'))"

definition log_get :: "audit_log \<Rightarrow> u64 \<Rightarrow> audit_event option" where
  "log_get log sequence =
     map_option (event_at log)
       (find (\<lambda>offset. ev_sequence (event_at log offset) = sequence) [0..<al_len log])"

definition push_event :: "audit_log \<Rightarrow> audit_event \<Rightarrow> audit_log" where
  "push_event log event =
     (if al_len log < log_capacity log
      then let index = (al_start log + al_len log) mod log_capacity log in
        log\<lparr>al_events := (al_events log)[index := event], al_len := al_len log + 1\<rparr>
      else log\<lparr>al_events := (al_events log)[al_start log := event],
               al_start := (al_start log + 1) mod log_capacity log,
               al_dropped := al_dropped log + 1\<rparr>)"

definition log_record :: "audit_log \<Rightarrow> audit_event \<Rightarrow> audit_log" where
  "log_record log event =
     (let event' = event\<lparr>ev_sequence := al_next_sequence log\<rparr>;
          log' = log\<lparr>al_next_sequence := al_next_sequence log + 1\<rparr>
      in push_event log' event')"

section \<open>Decimal output\<close>

fun decimal_value :: "string \<Rightarrow> nat" where
  "decimal_value s = fold (\<lambda>c v. 10 * v + (of_char c - 48)) s 0"

lemma fold_decimal_append:
  "fold (\<lambda>c v. 10 * v + (of_char c - 48)) (s @ t) (v::nat)
     = fold (\<lambda>c v. 10 * v + (of_char c - 48)) t (fold (\<lambda>c v. 10 * v + (of_char c - 48)) s v)"
  by simp

lemma of_char_digit: "d < 10 \<Longrightarrow> (of_char (char_of (48 + d)) :: nat) = 48 + d" for d :: nat
  by simp

declare write_u64_loop.simps [simp del]

lemma write_u64_loop_spec:
  "n < 10 ^ k \<Longrightarrow> \<exists>s. write_u64_loop n k acc = Some (s @ acc) \<and> length s \<le> k
     \<and> fold (\<lambda>c v. 10 * v + (of_char c - 48)) s 0 = n
     \<and> (\<forall>c\<in>set s. of_char c \<in> {48..57::nat}) \<and> (if n = 0 then s = [] else s \<noteq> [] \<and> hd s \<noteq> CHR ''0'')"
proof (induction k arbitrary: n acc)
  case (Suc k)
  show ?case
  proof (cases "n = 0")
    case False
    let ?c = "char_of (48 + n mod 10)"
    from Suc.prems have "n div 10 < 10 ^ k" by (simp add: less_mult_imp_div_less mult.commute)
    from Suc.IH [OF this, of "?c # acc"] obtain s where
      s: "write_u64_loop (n div 10) k (?c # acc) = Some (s @ ?c # acc)" "length s \<le> k"
        "fold (\<lambda>c v. 10 * v + (of_char c - 48)) s 0 = n div 10"
        "\<forall>c\<in>set s. of_char c \<in> {48..57::nat}" "if n div 10 = 0 then s = [] else s \<noteq> [] \<and> hd s \<noteq> CHR ''0''" by blast
    have c: "(of_char ?c :: nat) = 48 + n mod 10" by (rule of_char_digit) simp
    have first: "hd (s @ [?c]) \<noteq> CHR ''0''"
    proof (cases "n div 10 = 0")
      case True
      with s(5) have "s = []" by simp
      moreover have "?c \<noteq> CHR ''0''"
      proof
        assume "?c = CHR ''0''"
        then have "(of_char ?c :: nat) = of_char (CHR ''0'')" by simp
        with c True False show False by simp
      qed
      ultimately show ?thesis by simp
    qed (use s(5) in auto)
    from False s(1) have "write_u64_loop n (Suc k) acc = Some ((s @ [?c]) @ acc)"
      by (simp add: write_u64_loop.simps [of n])
    moreover have "fold (\<lambda>c v. 10 * v + (of_char c - 48)) (s @ [?c]) 0 = n"
      using s(3) c by simp
    ultimately show ?thesis using False s(2,4) c first by (intro exI [of _ "s @ [?c]"]) auto
  qed (simp add: write_u64_loop.simps [of 0])
qed (simp add: write_u64_loop.simps [of 0])

text \<open>
  Decimal output never overruns its buffer of 20 bytes: every 64-bit value is
  printed, as at most 20 digits that read back as the value, with no leading zero except for zero
  itself.
\<close>

theorem write_u64_roundtrip:
  "\<exists>s. write_u64 v = Some s \<and> length s \<le> 20 \<and> s \<noteq> [] \<and> decimal_value s = unat v
    \<and> (\<forall>c\<in>set s. of_char c \<in> {48..57::nat}) \<and> (hd s = CHR ''0'' \<longleftrightarrow> v = 0)"
proof (cases "v = 0")
  case True
  then show ?thesis by (intro exI [of _ "''0''"]) (simp add: write_u64_def)
next
  case False
  have "unat v < 2 ^ 64" using unsigned_less [of v] by simp
  then have "unat v < 10 ^ 20" by simp
  from write_u64_loop_spec [OF this, of "[]"] False show ?thesis
    by (auto simp: write_u64_def unat_eq_zero)
qed

theorem write_u64_roundtrip_witness:
  "\<exists>s. write_u64 12 = Some s \<and> decimal_value s = 12"
  using write_u64_roundtrip [of 12] by auto

section \<open>The ring as a list\<close>

definition contents :: "audit_log \<Rightarrow> audit_event list" where
  "contents log = map (event_at log) [0..<al_len log]"

definition ring_wf :: "audit_log \<Rightarrow> bool" where
  "ring_wf log \<longleftrightarrow> al_start log < log_capacity log \<and> al_len log \<le> log_capacity log"

lemma length_contents [simp]: "length (contents log) = al_len log"
  by (simp add: contents_def)

lemma nth_contents: "i < al_len log \<Longrightarrow> contents log ! i = event_at log i"
  by (simp add: contents_def)

lemma ring_wf_new: "0 < n \<Longrightarrow> ring_wf (log_new n)"
  by (simp add: ring_wf_def log_new_def)

lemma ring_wf_push: "ring_wf log \<Longrightarrow> ring_wf (push_event log e)"
proof -
  assume wf: "ring_wf log"
  then have "Suc (al_start log) mod log_capacity log < log_capacity log"
    by (intro mod_less_divisor) (use wf in \<open>auto simp: ring_wf_def\<close>)
  with wf show ?thesis by (auto simp: ring_wf_def push_event_def Let_def)
qed

lemma ring_index:
  fixes s :: nat
  assumes "s < n" and "i \<le> n"
  shows "(s + i) mod n = (if s + i < n then s + i else s + i - n)"
  using assms by (cases "s + i < 2 * n") (auto simp: mod_if)

lemma ring_index_inj:
  fixes s :: nat
  assumes "s < n" "i < n" "j < n" "(s + i) mod n = (s + j) mod n"
  shows "i = j"
  using assms ring_index [of s n i] ring_index [of s n j] by (auto split: if_splits)

lemma ring_next:
  fixes s :: nat
  assumes "s < n"
  shows "((s + 1) mod n + i) mod n = (s + Suc i) mod n"
  by (simp add: mod_add_left_eq)

text \<open>Pushing appends, and drops the oldest event when the ring is full.\<close>

lemma contents_push:
  assumes "ring_wf log"
  shows "contents (push_event log e)
    = (if al_len log < log_capacity log then contents log else tl (contents log)) @ [e]"
proof (cases "al_len log < log_capacity log")
  case True
  let ?n = "log_capacity log" and ?s = "al_start log" and ?log' = "push_event log e"
  have s: "?s < ?n" using assms by (simp add: ring_wf_def)
  have "event_at ?log' i = (contents log @ [e]) ! i" if "i < Suc (al_len log)" for i
  proof (cases "i = al_len log")
    case eq: True
    have "(?s + al_len log) mod ?n < ?n" by (rule mod_less_divisor) (use s in linarith)
    with True eq show ?thesis by (simp add: push_event_def event_at_def Let_def nth_append)
  next
    case False
    with that have i: "i < al_len log" by simp
    with True s ring_index_inj [of ?s ?n i "al_len log"] have "(?s + al_len log) mod ?n \<noteq> (?s + i) mod ?n"
      by fastforce
    with True i show ?thesis by (simp add: push_event_def event_at_def Let_def nth_append nth_contents)
  qed
  with True show ?thesis by (intro nth_equalityI) (auto simp: nth_contents push_event_def Let_def)
next
  case False
  let ?n = "log_capacity log" and ?s = "al_start log" and ?log' = "push_event log e"
  have s: "?s < ?n" and len: "al_len log = ?n" using assms False by (auto simp: ring_wf_def)
  have "event_at ?log' i = (tl (contents log) @ [e]) ! i" if "i < ?n" for i
  proof -
    have at: "event_at ?log' i = (al_events log)[?s := e] ! ((?s + Suc i) mod ?n)"
      using False ring_next [OF s, of i] by (simp add: push_event_def event_at_def)
    show ?thesis
    proof (cases "Suc i = ?n")
      case True
      then have "(?s + Suc i) mod ?n = ?s" using s by simp
      with at s True len show ?thesis by (simp add: nth_append)
    next
      case ne: False
      with that have i: "Suc i < ?n" by simp
      with s ring_index_inj [of ?s ?n "Suc i" 0] have "(?s + Suc i) mod ?n \<noteq> ?s" by fastforce
      with at i len show ?thesis by (simp add: nth_append nth_tl nth_contents event_at_def)
    qed
  qed
  moreover have "al_len ?log' = ?n" using False len by (simp add: push_event_def)
  ultimately show ?thesis
    using False s len by (intro nth_equalityI) (auto simp: nth_contents)
qed

section \<open>Sinks\<close>

text \<open>
  The contract of an \<open>AuditSink\<close>: recording keeps the sink's invariant and appends the event, up to
  its sequence number, to what the sink retains, which is the last \<open>bound\<close> events.
\<close>

definition last_n :: "nat \<Rightarrow> 'a list \<Rightarrow> 'a list" where
  "last_n n xs = drop (length xs - n) xs"

definition same_decision :: "audit_event \<Rightarrow> audit_event \<Rightarrow> bool" where
  "same_decision e e' \<longleftrightarrow> e' = e\<lparr>ev_sequence := ev_sequence e'\<rparr>"

lemma same_decision_refl [simp]: "same_decision e e"
  by (simp add: same_decision_def)

lemma last_n_append: "last_n n (last_n n xs @ ys) = last_n n (xs @ ys)"
  by (cases "length xs \<le> n") (auto simp: last_n_def add.commute)

lemma length_last_n [simp]: "length (last_n n xs) = min n (length xs)"
  by (simp add: last_n_def)

lemma list_all2_last_n: "list_all2 P xs ys \<Longrightarrow> list_all2 P (last_n n xs) (last_n n ys)"
  by (simp add: last_n_def list_all2_lengthD list_all2_dropI)

locale audit_sink =
  fixes sink_record :: "'s \<Rightarrow> audit_event \<Rightarrow> 's"
    and retained :: "'s \<Rightarrow> audit_event list"
    and sink_ok :: "'s \<Rightarrow> bool"
    and bound :: nat
  assumes ok_record: "sink_ok s \<Longrightarrow> sink_ok (sink_record s e)"
    and retained_record: "sink_ok s \<Longrightarrow>
          \<exists>e'. same_decision e e' \<and> retained (sink_record s e) = last_n bound (retained s @ [e'])"
begin

lemma record_all_ok: "sink_ok s \<Longrightarrow> sink_ok (fold (\<lambda>e s. sink_record s e) es s)"
  by (induction es arbitrary: s) (auto intro: ok_record)

lemma record_all_retained:
  assumes "sink_ok s" and "retained s = last_n bound xs" and "list_all2 same_decision ys xs"
  shows "\<exists>xs'. retained (fold (\<lambda>e s. sink_record s e) es s) = last_n bound xs'
           \<and> list_all2 same_decision (ys @ es) xs'"
  using assms
proof (induction es arbitrary: s xs ys)
  case (Cons e es)
  from retained_record [OF Cons.prems(1)] obtain e' where e': "same_decision e e'"
    "retained (sink_record s e) = last_n bound (retained s @ [e'])" by blast
  have 1: "retained (sink_record s e) = last_n bound (xs @ [e'])"
    by (simp add: e'(2) Cons.prems(2) last_n_append)
  have 2: "list_all2 same_decision (ys @ [e]) (xs @ [e'])"
    using Cons.prems(3) e'(1) by (simp add: list_all2_appendI)
  from Cons.IH [OF ok_record [OF Cons.prems(1)] 1 2] show ?case by simp
qed auto

lemma trail:
  assumes "sink_ok s" and "retained s = []"
  shows "list_all2 same_decision (last_n bound es) (retained (fold (\<lambda>e s. sink_record s e) es s))"
proof -
  have "retained s = last_n bound []" using assms(2) by (simp add: last_n_def)
  from record_all_retained [OF assms(1) this, of "[]" es] show ?thesis
    by (auto intro: list_all2_last_n)
qed

lemma audited_decision:
  "fst (authorize_audited sink_record s q r h ho re ri) = authorize r h ho re ri"
  by (simp add: authorize_audited_def Let_def)

lemma audited_retained:
  assumes "sink_ok s"
  shows "\<exists>e'. retained (snd (authorize_audited sink_record s q r h ho re ri))
              = last_n bound (retained s @ [e'])
    \<and> same_decision (event_for q ho re ri h (prov_depth (rec_provenance r)) (authorize r h ho re ri)) e'"
  using retained_record [OF assms] by (auto simp: authorize_audited_def Let_def event_for_def)

end

interpretation null_sink: audit_sink null_record "\<lambda>_. []" "\<lambda>_. True" 0
  by unfold_locales (auto simp: last_n_def intro: same_decision_refl)

lemma contents_record:
  assumes "ring_wf log"
  shows "contents (log_record log e) =
    last_n (log_capacity log) (contents log @ [e\<lparr>ev_sequence := al_next_sequence log\<rparr>])"
proof -
  let ?log = "log\<lparr>al_next_sequence := al_next_sequence log + 1\<rparr>"
  have wf: "ring_wf ?log" using assms by (simp add: ring_wf_def)
  have c: "contents ?log = contents log" by (simp add: contents_def event_at_def)
  show ?thesis
  proof (cases "al_len log < log_capacity log")
    case True
    then show ?thesis
      unfolding log_record_def Let_def contents_push [OF wf] c by (simp add: last_n_def)
  next
    case False
    with assms have len: "al_len log = log_capacity log" "0 < al_len log" by (auto simp: ring_wf_def)
    then obtain x xs where "contents log = x # xs"
      by (metis length_contents length_greater_0_conv neq_Nil_conv)
    with False len show ?thesis
      unfolding log_record_def Let_def contents_push [OF wf] c
      using length_contents [of log] by (simp add: last_n_def)
  qed
qed

lemma ring_wf_record: "ring_wf log \<Longrightarrow> ring_wf (log_record log e)"
  unfolding log_record_def Let_def by (rule ring_wf_push) (simp add: ring_wf_def)

lemma log_capacity_record [simp]: "log_capacity (log_record log e) = log_capacity log"
  by (simp add: log_record_def push_event_def Let_def)

text \<open>The ring of capacity 64 that the kernel uses, and any other capacity.\<close>

definition ring_ok :: "nat \<Rightarrow> audit_log \<Rightarrow> bool" where
  "ring_ok n log \<longleftrightarrow> ring_wf log \<and> log_capacity log = n"

interpretation ring_sink: audit_sink log_record contents "ring_ok n" n for n
proof
  fix s e assume "ring_ok n s"
  then show "ring_ok n (log_record s e)" by (simp add: ring_ok_def ring_wf_record)
next
  fix s e assume "ring_ok n s"
  then have "contents (log_record s e) = last_n n (contents s @ [e\<lparr>ev_sequence := al_next_sequence s\<rparr>])"
    by (auto simp: ring_ok_def contents_record)
  then show "\<exists>e'. same_decision e e' \<and> contents (log_record s e) = last_n n (contents s @ [e'])"
    by (intro exI [of _ "e\<lparr>ev_sequence := al_next_sequence s\<rparr>"]) (simp add: same_decision_def)
qed

text \<open>
  C26 (refinement). The ring keeps exactly the last \<open>N\<close> decisions: after any sequence of events has
  been recorded into an empty log of capacity \<open>N\<close>, reading the ring from its oldest entry gives the
  last \<open>N\<close> of them in order, each as it was recorded except for the sequence number, which the log
  assigns.
\<close>

theorem audit_log_keeps_last:
  assumes "0 < N"
  shows "list_all2 same_decision (last_n N events)
           (contents (fold (\<lambda>e log. log_record log e) events (log_new N)))"
proof (rule ring_sink.trail)
  show "ring_ok N (log_new N)" using ring_wf_new [OF assms] by (simp add: ring_ok_def log_new_def)
  show "contents (log_new N) = []" by (simp add: contents_def log_new_def)
qed

theorem audit_log_keeps_last_witness:
  "list_all2 same_decision (last_n 2 [dummy_event, dummy_event, dummy_event\<lparr>ev_actor := 7\<rparr>])
     (contents (fold (\<lambda>e log. log_record log e)
        [dummy_event, dummy_event, dummy_event\<lparr>ev_actor := 7\<rparr>] (log_new 2)))"
  by (rule audit_log_keeps_last) simp

section \<open>Sequence numbers and the reader\<close>

text \<open>
  The log invariant: sequences are consecutive up to the next one, and the events that are no longer
  in the ring are the ones counted as dropped.
\<close>

definition log_inv :: "audit_log \<Rightarrow> bool" where
  "log_inv log \<longleftrightarrow> ring_wf log
     \<and> unat (al_next_sequence log) = Suc (unat (al_dropped log) + al_len log)
     \<and> map (\<lambda>e. unat (ev_sequence e)) (contents log)
         = [Suc (unat (al_dropped log))..<unat (al_next_sequence log)]"

lemma log_inv_new: "0 < n \<Longrightarrow> log_inv (log_new n)"
  by (simp add: log_inv_def ring_wf_new) (simp add: log_new_def contents_def)

lemma log_inv_record:
  assumes "log_inv log" and "al_next_sequence log \<noteq> - 1"
  shows "log_inv (log_record log e)"
proof -
  let ?n = "al_next_sequence log" and ?d = "al_dropped log" and ?log' = "log_record log e"
  from assms(1) have wf: "ring_wf log" and n: "unat ?n = Suc (unat ?d + al_len log)"
    and sq: "map (\<lambda>e. unat (ev_sequence e)) (contents log) = [Suc (unat ?d)..<unat ?n]"
    by (simp_all add: log_inv_def)
  have n1: "unat (?n + 1) = Suc (unat ?n)" using assms(2) by (rule unat_succ)
  have next': "al_next_sequence ?log' = ?n + 1" by (simp add: log_record_def push_event_def Let_def)
  show ?thesis
  proof (cases "al_len log < log_capacity log")
    case True
    then have "al_dropped ?log' = ?d" "al_len ?log' = Suc (al_len log)"
      by (simp_all add: log_record_def push_event_def Let_def)
    moreover have "contents ?log' = contents log @ [e\<lparr>ev_sequence := ?n\<rparr>]"
      using contents_record [OF wf] True by (simp add: last_n_def)
    ultimately show ?thesis
      using n n1 next' sq by (simp add: log_inv_def ring_wf_record [OF wf])
  next
    case False
    with wf have len: "al_len log = log_capacity log" "0 < al_len log" by (auto simp: ring_wf_def)
    from False have dl: "al_dropped ?log' = ?d + 1" "al_len ?log' = al_len log"
      by (simp_all add: log_record_def push_event_def Let_def)
    have "?d \<noteq> - 1"
    proof
      assume "?d = - 1"
      then have "unat ?d = 2 ^ 64 - 1" by (simp add: unat_max_word)
      with n unat_bound [of ?n] show False by simp
    qed
    then have d1: "unat (?d + 1) = Suc (unat ?d)" by (rule unat_succ)
    obtain x xs where x: "contents log = x # xs"
      using len(2) by (metis length_contents length_greater_0_conv neq_Nil_conv)
    then have "contents ?log' = xs @ [e\<lparr>ev_sequence := ?n\<rparr>]"
      using contents_record [OF wf, of e] len(1) length_contents [of log] by (simp add: last_n_def)
    moreover have "map (\<lambda>e. unat (ev_sequence e)) xs = [Suc (Suc (unat ?d))..<unat ?n]"
      using sq x n len(2) upt_conv_Cons [of "Suc (unat ?d)" "unat ?n"] by (simp del: upt_Suc)
    ultimately show ?thesis
      using n n1 d1 dl next' len by (simp add: log_inv_def ring_wf_record [OF wf] Suc_le_eq)
  qed
qed

lemma read_from_loop_spec:
  assumes "w \<le> length out"
    and "m = filter (\<lambda>e. since \<le> ev_sequence e) (map (event_at log) xs)"
    and "k = min (length out - w) (length m)"
  shows "read_from_loop log since xs out w q =
    (w + k, if k = 0 then q else ev_sequence (m ! (k - 1)), take w out @ take k m @ drop (w + k) out)"
  using assms
proof (induction xs arbitrary: out w q m k)
  case (Cons x xs)
  let ?e = "event_at log x"
  let ?m = "filter (\<lambda>e. since \<le> ev_sequence e) (map (event_at log) xs)"
  show ?case
  proof (cases "ev_sequence ?e < since")
    case True
    then have "m = ?m" by (simp add: Cons.prems(2) not_le)
    with True Cons.IH [of w out m k q] Cons.prems show ?thesis by simp
  next
    case False
    then have m: "m = ?e # ?m" by (simp add: Cons.prems(2) not_less)
    show ?thesis
    proof (cases "w < length out")
      case True
      define M where "M = ?m"
      define K where "K = min (length out - Suc w) (length M)"
      have k: "k = Suc K" using True m Cons.prems(3) by (simp add: K_def M_def)
      have "take (Suc w) (out[w := ?e]) = take w out @ [?e]"
        using True by (simp add: take_Suc_conv_app_nth)
      moreover have "Suc w \<le> length (out[w := ?e])" using True by simp
      moreover have "K = min (length (out[w := ?e]) - Suc w) (length M)" by (simp add: K_def)
      ultimately have "read_from_loop log since (x # xs) out w q =
        (Suc w + K, if K = 0 then ev_sequence ?e else ev_sequence (M ! (K - 1)),
         take w out @ [?e] @ take K M @ drop (Suc w + K) out)"
        using Cons.IH [OF _ M_def, of "Suc w" "out[w := ?e]" K "ev_sequence ?e"] True False by (simp add: Let_def)
      then show ?thesis unfolding k m M_def [symmetric] by (cases K) simp_all
    next
      case full: False
      with Cons.prems(1,3) have "k = 0" "w = length out" by simp_all
      with False show ?thesis by simp
    qed
  qed
qed simp

text \<open>
  Reading returns, oldest first, the retained events at or after \<open>since\<close>, as many
  as the buffer holds, and leaves the rest of the buffer as it was.
\<close>

theorem read_from_window:
  assumes "read_from log since out = ((count, next), out')"
  shows "let m = filter (\<lambda>e. since \<le> ev_sequence e) (contents log) in
    count = min (length out) (length m) \<and> out' = take count m @ drop count out
    \<and> next = (if count = 0 then al_next_sequence log else ev_sequence (m ! (count - 1)) + 1)"
  using assms read_from_loop_spec [of 0 out _ since log "[0..<al_len log]" _ 0, OF _ refl refl]
  by (auto simp: read_from_def contents_def Let_def split: if_splits)

theorem read_from_window_witness:
  "fst (fst (read_from (log_record (log_new 2) dummy_event) 1 [dummy_event])) = 1"
proof -
  let ?log = "log_record (log_new 2) dummy_event"
  have c: "contents ?log = [dummy_event\<lparr>ev_sequence := 1\<rparr>]"
    using contents_record [OF ring_wf_new [of 2], of dummy_event]
    by (simp add: log_new_def contents_def last_n_def)
  obtain count nx out' where r: "read_from ?log 1 [dummy_event] = ((count, nx), out')"
    by (metis prod.collapse)
  from read_from_window [OF r] show ?thesis by (simp add: r c Let_def)
qed

lemma sequence_at:
  assumes "log_inv log" and "i < al_len log"
  shows "unat (ev_sequence (contents log ! i)) = Suc (unat (al_dropped log)) + i"
proof -
  have "map (\<lambda>e. unat (ev_sequence e)) (contents log) ! i
      = [Suc (unat (al_dropped log))..<unat (al_next_sequence log)] ! i"
    and n: "unat (al_next_sequence log) = Suc (unat (al_dropped log) + al_len log)"
    using assms(1) by (simp_all add: log_inv_def)
  with assms(2) show ?thesis by (simp del: upt_Suc)
qed

lemma filter_ge_drop:
  assumes "\<And>i. i < length xs \<Longrightarrow> f (xs ! i) = b + i"
  shows "filter (\<lambda>x. (a::nat) \<le> f x) xs = drop (a - b) xs"
  using assms
proof (induction xs arbitrary: b)
  case (Cons x xs)
  have "f (xs ! i) = Suc b + i" if "i < length xs" for i
    using Cons.prems [of "Suc i"] that by simp
  from Cons.IH [OF this] Cons.prems [of 0] show ?case
    by (cases "a \<le> b") (auto simp: drop_Cons' Suc_diff_le)
qed simp

lemma filter_since:
  assumes "log_inv log"
  shows "filter (\<lambda>e. a \<le> ev_sequence e) (contents log)
       = drop (unat a - Suc (unat (al_dropped log))) (contents log)"
  using filter_ge_drop [of "contents log" "\<lambda>e. unat (ev_sequence e)" "Suc (unat (al_dropped log))" "unat a"]
    sequence_at [OF assms]
  by (simp add: word_le_nat_alt)

text \<open>
  C27 (safety). A reader that continues from the returned cursor loses nothing and sees nothing twice:
  the events written to the buffer, followed by the retained events at or after the new cursor, are
  exactly the retained events that were asked for, in order. As many are returned as the buffer holds,
  and the rest of the buffer is as it was.
\<close>

theorem read_from_resumes:
  assumes "log_inv log" and "read_from log since out = ((count, next), out')" and "out \<noteq> []"
  shows "take count out' @ filter (\<lambda>e. next \<le> ev_sequence e) (contents log)
       = filter (\<lambda>e. since \<le> ev_sequence e) (contents log)
    \<and> count = min (length out) (length (filter (\<lambda>e. since \<le> ev_sequence e) (contents log)))
    \<and> length out' = length out \<and> drop count out' = drop count out"
proof -
  let ?d = "Suc (unat (al_dropped log))" and ?n = "al_next_sequence log"
  define m where "m = filter (\<lambda>e. since \<le> ev_sequence e) (contents log)"
  define j where "j = unat since - ?d"
  have m: "m = drop j (contents log)" unfolding m_def j_def by (rule filter_since [OF assms(1)])
  have r: "count = min (length out) (length m)"
    "next = (if count = 0 then ?n else ev_sequence (m ! (count - 1)) + 1)"
    "out' = take count m @ drop count out"
    using assms(2) read_from_loop_spec [of 0 out _ since log "[0..<al_len log]" _ 0, OF _ refl refl]
    by (auto simp: read_from_def contents_def Let_def m_def split: if_splits)
  have "drop (unat next - ?d) (contents log) = drop count m"
  proof (cases "count = 0")
    case True
    with r(1) assms(3) have "m = []" by (simp add: min_def split: if_splits)
    moreover have "unat ?n - ?d = al_len log" using assms(1) by (simp add: log_inv_def)
    ultimately show ?thesis using True r(2) by simp
  next
    case False
    with r(1) have i: "j + (count - 1) < al_len log"
      by (simp only: m length_drop length_contents)
    then have "unat (ev_sequence (m ! (count - 1))) = ?d + (j + (count - 1))"
      using sequence_at [OF assms(1) i] by (simp add: m)
    moreover have "?d + (j + (count - 1)) < unat ?n" using i assms(1) by (simp add: log_inv_def)
    then have "Suc (?d + (j + (count - 1))) < 2 ^ 64" using unat_bound [of ?n] by simp
    ultimately have "unat next = Suc (?d + (j + (count - 1)))"
      using r(2) False by (simp add: unat_word_ariths)
    then show ?thesis using False by (simp add: m add.commute)
  qed
  then have "filter (\<lambda>e. next \<le> ev_sequence e) (contents log) = drop count m"
    using filter_since [OF assms(1), of "next"] by simp
  moreover have "take count out' = take count m" "drop count out' = drop count out" "length out' = length out"
    using r(1,3) by auto
  ultimately show ?thesis using r(1) by (simp add: m_def)
qed

theorem read_from_resumes_witness:
  "let log = log_record (log_record (log_new 2) dummy_event) dummy_event in
   \<exists>next out'. read_from log 1 [dummy_event] = ((1, next), out')
     \<and> out' @ filter (\<lambda>e. next \<le> ev_sequence e) (contents log) = contents log \<and> length (contents log) = 2"
proof -
  let ?a = "dummy_event\<lparr>ev_sequence := 1\<rparr>" and ?b = "dummy_event\<lparr>ev_sequence := 2\<rparr>"
  let ?log1 = "log_record (log_new 2) dummy_event" let ?log = "log_record ?log1 dummy_event"
  have sq: "al_next_sequence (log_new 2) = 1" "al_next_sequence ?log1 = 2"
    by (simp_all add: log_new_def log_record_def push_event_def Let_def)
  then have inv: "log_inv ?log1" "log_inv ?log"
    using log_inv_new [of 2] by (auto intro!: log_inv_record)
  have cap: "log_capacity (log_new 2) = 2" "log_capacity ?log1 = 2" "contents (log_new 2) = []"
    by (simp_all add: log_new_def log_record_def push_event_def Let_def contents_def)
  have "contents ?log1 = [?a]"
    using contents_record [OF ring_wf_new [of 2], of dummy_event] sq cap by (simp add: last_n_def)
  then have c: "contents ?log = [?a, ?b]"
    using contents_record [of ?log1 dummy_event] inv(1) sq cap by (simp add: last_n_def log_inv_def)
  have all: "filter (\<lambda>e. 1 \<le> ev_sequence e) (contents ?log) = contents ?log" by (simp add: c)
  have len: "length (contents ?log) = 2" by (simp add: c)
  obtain count nx out' where r: "read_from ?log 1 [dummy_event] = ((count, nx), out')"
    by (metis prod.collapse)
  from read_from_resumes [OF inv(2) r] have "count = 1 \<and> length out' = 1
      \<and> take count out' @ filter (\<lambda>e. nx \<le> ev_sequence e) (contents ?log) = contents ?log"
    unfolding all len by auto
  then have "count = 1" "out' @ filter (\<lambda>e. nx \<le> ev_sequence e) (contents ?log) = contents ?log"
    by auto
  with r len show ?thesis unfolding Let_def by blast
qed

end
