(* ===== verification/Cap_Kernel.thy ===== *)
theory Cap_Kernel
  imports Cap_Audit "HOL-Library.Multiset"
begin

text \<open>
  The kernel's use of the capability space (\<open>kernel/src/capability/mod.rs\<close>, \<open>audit.rs\<close>,
  \<open>bootstrap_grant.rs\<close>): authorization of wire handles for the current process with its audit
  record, root grants with reclamation, the holder query, capability inheritance on fork with its
  rollback, the hand-off table for bootstrap grants, and the tree revocations of exiting holders and
  destroyed resources. The current process identity is an argument; \<open>None\<close> is a kernel context
  without one.
\<close>

section \<open>Authorization of the current process\<close>

definition authorize_decoded ::
  "cap_table \<Rightarrow> holder_id \<Rightarrow> u64 \<Rightarrow> resource_ref \<Rightarrow> rights \<Rightarrow> cap_error + cap_record" where
  "authorize_decoded t holder raw_handle resource required =
     rbind (handle_decode raw_handle) (\<lambda>handle. table_authorize t holder handle resource required)"

definition authorize_decoded_class ::
  "cap_table \<Rightarrow> holder_id \<Rightarrow> u64 \<Rightarrow> resource_class \<Rightarrow> rights \<Rightarrow> cap_error + cap_record" where
  "authorize_decoded_class t holder raw_handle class required =
     rbind (handle_decode raw_handle) (\<lambda>handle. authorize_class t holder handle class required)"

text \<open>
  \<open>record_decision\<close> records the event and, when the serial echo is on and the resource is the audit
  log itself, formats the stored event into a line of at most 256 bytes.
\<close>

definition audit_line :: "bool \<Rightarrow> resource_ref \<Rightarrow> audit_log \<Rightarrow> string option" where
  "audit_line echo resource log =
     (if echo \<and> res_class resource = Audit
      then Option.bind (newest_sequence log) (\<lambda>sequence.
           Option.bind (log_get log sequence) (\<lambda>stored.
           Option.bind (format_audit_line stored) (\<lambda>line.
             if length line \<le> 256 then Some line else None)))
      else None)"

definition record_decision ::
  "bool \<Rightarrow> audit_log \<Rightarrow> holder_id \<Rightarrow> resource_ref \<Rightarrow> rights \<Rightarrow> cap_handle \<Rightarrow> u8 \<Rightarrow> cap_error + unit
     \<Rightarrow> string option \<times> audit_log" where
  "record_decision echo log actor resource requested handle depth result =
     (let log' = log_record log (event_for 0 actor resource requested handle depth result)
      in (audit_line echo resource log', log'))"

definition decode_or_invalid :: "u64 \<Rightarrow> cap_handle" where
  "decode_or_invalid raw = (case handle_decode raw of Inr h \<Rightarrow> h | Inl _ \<Rightarrow> HANDLE_INVALID)"

definition authorize_current ::
  "bool \<Rightarrow> cap_table \<Rightarrow> audit_log \<Rightarrow> holder_id option \<Rightarrow> u64 \<Rightarrow> resource_ref \<Rightarrow> rights
     \<Rightarrow> (cap_error + cap_record) \<times> string option \<times> audit_log" where
  "authorize_current echo t log current raw_handle resource required =
     (case current of
        None \<Rightarrow> (Inl UnauthorizedHolder, None, log)
      | Some holder \<Rightarrow>
          let handle = decode_or_invalid raw_handle;
              result = authorize_decoded t holder raw_handle resource required;
              (audit_resource, depth) =
                (case result of Inr r \<Rightarrow> (rec_resource r, prov_depth (rec_provenance r))
                              | Inl _ \<Rightarrow> (resource, 0))
          in (result, record_decision echo log holder audit_resource required handle depth
                        (rbind result (\<lambda>_. Inr ()))))"

definition authorize_current_class ::
  "bool \<Rightarrow> cap_table \<Rightarrow> audit_log \<Rightarrow> holder_id option \<Rightarrow> u64 \<Rightarrow> resource_class \<Rightarrow> rights
     \<Rightarrow> (cap_error + cap_record) \<times> string option \<times> audit_log" where
  "authorize_current_class echo t log current raw_handle class required =
     (case current of
        None \<Rightarrow> (Inl UnauthorizedHolder, None, log)
      | Some holder \<Rightarrow>
          let handle = decode_or_invalid raw_handle;
              result = authorize_decoded_class t holder raw_handle class required;
              (audit_resource, depth) =
                (case result of
                   Inr r \<Rightarrow> (rec_resource r, prov_depth (rec_provenance r))
                 | Inl _ \<Rightarrow> (\<lparr>res_class = class, res_id = 0, instance_generation = 0\<rparr>, 0))
          in (result, record_decision echo log holder audit_resource required handle depth
                        (rbind result (\<lambda>_. Inr ()))))"

section \<open>Grants and queries\<close>

definition grant_root ::
  "cap_table \<Rightarrow> holder_id \<Rightarrow> resource_ref \<Rightarrow> rights \<Rightarrow> (cap_error + cap_handle) \<times> cap_table" where
  "grant_root t holder resource rights =
     (case grant t holder resource rights (provenance_root holder) of
        (Inr handle, t') \<Rightarrow> (Inr handle, t')
      | (Inl e, t') \<Rightarrow>
          if e = CapacityExhausted
          then grant (snd (release_revoked t')) holder resource rights (provenance_root holder)
          else (Inl e, t'))"

lemma list_holder_from_next:
  "list_holder_from xs t ho = Some (n, h, r) \<Longrightarrow> \<exists>i\<in>set xs. n = Suc i \<and> i < capacity t"
proof (induction xs)
  case (Cons i xs)
  show ?case
  proof (cases "rec_state (record_at t i) \<noteq> Live \<or> rec_holder (record_at t i) \<noteq> ho")
    case True
    with Cons show ?thesis by auto
  next
    case False
    with Cons.prems have "\<exists>h. handle_at t i = Some h \<and> n = Suc i" by (auto simp: Let_def)
    then have "i < capacity t \<and> n = Suc i" by (auto simp: handle_at_def split: if_splits)
    then show ?thesis by auto
  qed
qed simp

lemma list_holder_next: "list_holder t ho c = Some (n, h, r) \<Longrightarrow> c < n \<and> n \<le> capacity t"
  by (auto simp: list_holder_def dest!: list_holder_from_next split: if_splits)

function holder_has_from :: "cap_table \<Rightarrow> holder_id \<Rightarrow> resource_ref \<Rightarrow> rights \<Rightarrow> nat \<Rightarrow> bool" where
  "holder_has_from t holder resource required cursor =
     (case list_holder t holder cursor of
        None \<Rightarrow> False
      | Some (next_cursor, handle, _) \<Rightarrow>
          if is_ok (table_authorize t holder handle resource required) then True
          else holder_has_from t holder resource required next_cursor)"
  by pat_completeness auto
termination
  by (relation "measure (\<lambda>(t, _, _, _, cursor). capacity t - cursor)")
     (auto dest!: list_holder_next)

definition holder_has_resource_rights ::
  "cap_table \<Rightarrow> holder_id \<Rightarrow> resource_ref \<Rightarrow> rights \<Rightarrow> bool" where
  "holder_has_resource_rights t holder resource required = holder_has_from t holder resource required 0"

section \<open>Inheritance on fork\<close>

lemma capacity_install [simp]: "capacity (snd (install t r)) = capacity t"
proof -
  obtain res t1 where p: "pick_empty_slot t = (res, t1)" by (cases "pick_empty_slot t")
  from pick_empty_slot_spec(1) [OF p] p show ?thesis
    by (auto simp: install_def Let_def split: sum.split prod.split)
qed

lemma install_capacity: "install t r = (res, t') \<Longrightarrow> capacity t' = capacity t"
  using capacity_install [of t r] by simp

definition rollback_fork_inherited :: "cap_table \<Rightarrow> cap_handle list \<Rightarrow> cap_table" where
  "rollback_fork_inherited t handles = fold (\<lambda>h t. snd (revoke t h)) handles t"

text \<open>
  The loop carries the cursor and the installed handles. The question mark on \<open>child_of\<close> leaves the
  function without the rollback that the two explicit error exits perform.
\<close>

function inherit_from ::
  "cap_table \<Rightarrow> holder_id \<Rightarrow> holder_id \<Rightarrow> nat \<Rightarrow> cap_handle list \<Rightarrow> (cap_error + unit) \<times> cap_table" where
  "inherit_from t parent child cursor installed =
     (case list_holder t parent cursor of
        None \<Rightarrow> (Inr (), t)
      | Some (next_cursor, handle, record) \<Rightarrow>
          (case child_of handle (rec_provenance record) of
             Inl e \<Rightarrow> (Inl e, t)
           | Inr prov \<Rightarrow>
               if length installed \<ge> MAX_SLOTS
               then (Inl CapacityExhausted, rollback_fork_inherited t installed)
               else (case install t \<lparr>rec_state = Live, rec_holder = child,
                                     rec_resource = rec_resource record,
                                     rec_rights = rec_rights record, rec_provenance = prov,
                                     rec_generation = 0\<rparr> of
                       (Inr child_handle, t') \<Rightarrow>
                         inherit_from t' parent child next_cursor (installed @ [child_handle])
                     | (Inl e, t') \<Rightarrow> (Inl e, rollback_fork_inherited t' installed))))"
  by pat_completeness auto
termination
  by (relation "measure (\<lambda>(t, _, _, cursor, _). capacity t - cursor)")
     (auto dest!: list_holder_next install_capacity [OF sym])

definition inherit_capabilities_for_fork ::
  "cap_table \<Rightarrow> holder_id \<Rightarrow> holder_id \<Rightarrow> (cap_error + unit) \<times> cap_table" where
  "inherit_capabilities_for_fork t parent child = inherit_from t parent child 0 []"

declare holder_has_from.simps [simp del] inherit_from.simps [simp del]

section \<open>Bootstrap grants\<close>

type_synonym bootstrap_table = "(holder_id \<times> cap_handle) option list"

definition PENDING_BOOTSTRAP_GRANTS :: nat where
  "PENDING_BOOTSTRAP_GRANTS = 16"

definition bootstrap_new :: bootstrap_table where
  "bootstrap_new = replicate PENDING_BOOTSTRAP_GRANTS None"

datatype bootstrap_error = KernelHolder | TableFull

definition bootstrap_register ::
  "bootstrap_table \<Rightarrow> holder_id \<Rightarrow> cap_handle \<Rightarrow> (bootstrap_error + unit) \<times> bootstrap_table" where
  "bootstrap_register entries holder handle =
     (if holder = HOLDER_KERNEL then (Inl KernelHolder, entries)
      else case position (\<lambda>e. e = None) entries of
             Some i \<Rightarrow> (Inr (), entries[i := Some (holder, handle)])
           | None \<Rightarrow> (Inl TableFull, entries))"

definition entry_for :: "holder_id \<Rightarrow> (holder_id \<times> cap_handle) option \<Rightarrow> bool" where
  "entry_for holder e = (case e of Some (ho, _) \<Rightarrow> ho = holder | None \<Rightarrow> False)"

definition bootstrap_claim ::
  "bootstrap_table \<Rightarrow> holder_id \<Rightarrow> cap_handle option \<times> bootstrap_table" where
  "bootstrap_claim entries holder =
     (case position (entry_for holder) entries of
        None \<Rightarrow> (None, entries)
      | Some i \<Rightarrow> (map_option snd (entries ! i), entries[i := None]))"

definition bootstrap_discard_for_holder ::
  "bootstrap_table \<Rightarrow> holder_id \<Rightarrow> nat \<times> bootstrap_table" where
  "bootstrap_discard_for_holder entries holder =
     (length (filter (entry_for holder) entries),
      map (\<lambda>e. if entry_for holder e then None else e) entries)"

definition revoke_for_process_resource :: "cap_table \<Rightarrow> u64 \<Rightarrow> nat \<times> cap_table" where
  "revoke_for_process_resource t process_id = revoke_resource_tree t ProcessControl process_id"

section \<open>What a holder may do\<close>

definition has_authority :: "cap_table \<Rightarrow> holder_id \<Rightarrow> resource_ref \<Rightarrow> rights \<Rightarrow> nat \<Rightarrow> bool" where
  "has_authority t holder resource required i \<longleftrightarrow>
     held_by t holder i \<and> rec_resource (slots t ! i) = resource
     \<and> is_subset_of required (rec_rights (slots t ! i))"

lemma holder_has_from_iff:
  "capacity t \<le> 65536 \<Longrightarrow> holder_has_from t holder resource required cursor
     \<longleftrightarrow> (\<exists>i\<ge>cursor. has_authority t holder resource required i)"
proof (induction t holder resource required cursor rule: holder_has_from.induct)
  case (1 t holder resource required cursor)
  show ?case
  proof (cases "list_holder t holder cursor")
    case None
    with list_holder_None [OF "1.prems" None] show ?thesis
      by (auto simp: holder_has_from.simps [of t holder resource required cursor] has_authority_def)
  next
    case (Some x)
    then obtain n h r where x: "list_holder t holder cursor = Some (n, h, r)" by (cases x) auto
    from list_holder_Some [OF "1.prems" x] obtain i where
      i: "n = Suc i" "cursor \<le> i" "held_by t holder i" "r = slots t ! i" "unat (h_slot h) = i"
        "record_of t h = Inr r" "\<forall>k. cursor \<le> k \<and> k < i \<longrightarrow> \<not> held_by t holder k" .
    have auth: "is_ok (table_authorize t holder h resource required)
        \<longleftrightarrow> has_authority t holder resource required i"
      using i(3-6) by (auto simp: is_ok_iff table_authorize_Inr has_authority_def held_by_def record_of_Inr)
    have split: "(\<exists>k\<ge>cursor. has_authority t holder resource required k)
        \<longleftrightarrow> has_authority t holder resource required i \<or> (\<exists>k\<ge>Suc i. has_authority t holder resource required k)"
    proof
      assume "\<exists>k\<ge>cursor. has_authority t holder resource required k"
      then obtain k where k: "cursor \<le> k" "has_authority t holder resource required k" by blast
      with i(7) have "\<not> k < i" by (auto simp: has_authority_def)
      then have "k = i \<or> Suc i \<le> k" by linarith
      with k show "has_authority t holder resource required i \<or> (\<exists>k\<ge>Suc i. has_authority t holder resource required k)"
        by auto
    qed (use i(2) Suc_leD le_trans in blast)
    show ?thesis
    proof (cases "is_ok (table_authorize t holder h resource required)")
      case True
      with x auth split show ?thesis
        by (simp add: holder_has_from.simps [of t holder resource required cursor])
    next
      case False
      have "holder_has_from t holder resource required cursor = holder_has_from t holder resource required n"
        using x False by (simp add: holder_has_from.simps [of t holder resource required cursor])
      moreover have "holder_has_from t holder resource required n
          \<longleftrightarrow> (\<exists>k\<ge>n. has_authority t holder resource required k)"
        using "1.IH" [OF x refl refl False "1.prems"] .
      ultimately show ?thesis using split False auth i(1) by simp
    qed
  qed
qed

text \<open>
  The holder query of the kernel is exact: it answers yes if and only if some live
  record of the holder names that very resource and carries all the required rights.
\<close>

theorem holder_has_resource_rights_iff:
  assumes "table_wf t"
  shows "holder_has_resource_rights t holder resource required \<longleftrightarrow>
    (\<exists>i. live t i \<and> rec_holder (slots t ! i) = holder \<and> rec_resource (slots t ! i) = resource
         \<and> is_subset_of required (rec_rights (slots t ! i)))"
  using holder_has_from_iff [OF table_wfD(1) [OF assms], of holder resource required 0]
  by (auto simp: holder_has_resource_rights_def has_authority_def held_by_def)

theorem holder_has_resource_rights_iff_witness:
  "holder_has_resource_rights sample_table 10 (resource_object 42) READ
   \<and> \<not> holder_has_resource_rights sample_table 11 (resource_object 42) READ"
  unfolding holder_has_resource_rights_iff [OF sample_wf]
  by (auto simp: sample_defs capacity_make RECORD_EMPTY_def nth_Cons' intro!: exI [of _ 0])

section \<open>Fork\<close>

lemma revoke_resolving:
  assumes "record_of t h = Inr r"
  shows "snd (revoke t h) = snd (revoke_slot t (unat (h_slot h)))"
  using assms by (auto simp: revoke_def slot_index_def record_of_Inr Let_def split: prod.split)

lemma rollback_pruned:
  assumes "pruned t S t'" and "\<forall>h\<in>set hs. \<exists>r. record_of t h = Inr r"
  shows "pruned t (S \<union> {unat (h_slot h) | h. h \<in> set hs}) (rollback_fork_inherited t' hs)"
  using assms
proof (induction hs arbitrary: S t')
  case Nil
  then show ?case by (simp add: rollback_fork_inherited_def)
next
  case (Cons h hs)
  from Cons.prems(2) obtain r where r: "record_of t h = Inr r" by auto
  then have "\<exists>r'. record_of t' h = Inr r'"
    using pruned_nth [OF Cons.prems(1), of "unat (h_slot h)"] pruned_capacity [OF Cons.prems(1)]
    by (auto simp: record_of_Inr)
  then have "snd (revoke t' h) = snd (revoke_slot t' (unat (h_slot h)))"
    using revoke_resolving by blast
  with pruned_revoke_slot [OF Cons.prems(1)]
  have "pruned t (insert (unat (h_slot h)) S) (snd (revoke t' h))" by simp
  from Cons.IH [OF this] Cons.prems(2)
  have "pruned t (insert (unat (h_slot h)) S \<union> {unat (h_slot h) | h. h \<in> set hs})
          (rollback_fork_inherited t' (h # hs))"
    by (simp add: rollback_fork_inherited_def)
  moreover have "insert (unat (h_slot h)) S \<union> {unat (h_slot h) | h. h \<in> set hs}
      = S \<union> {unat (h_slot ha) | ha. ha \<in> set (h # hs)}" by auto
  ultimately show ?case by simp
qed

text \<open>
  The state of the loop: the installed handles name live records of the child, which no live
  record has as its parent.
\<close>

definition fork_inv :: "cap_table \<Rightarrow> holder_id \<Rightarrow> cap_handle list \<Rightarrow> bool" where
  "fork_inv t child installed \<longleftrightarrow> table_wf t \<and> tree_wf t
     \<and> (\<forall>h\<in>set installed. \<exists>r. record_of t h = Inr r \<and> rec_state r = Live \<and> rec_holder r = child
            \<and> (\<forall>j. \<not> parent_rel t (unat (h_slot h)) j))"

lemma install_parent_rel:
  assumes "table_wf t" and "install t rc = (Inr ch, t')"
  shows "parent_rel t' i j \<longleftrightarrow> parent_rel t i j
    \<or> j = unat (h_slot ch) \<and> (\<exists>h. prov_parent (rec_provenance rc) = Some h \<and> unat (h_slot h) = i)"
proof -
  note spec = install_Inr [OF assms(2) table_wfD(1) [OF assms(1)]]
  show ?thesis
  proof (cases "j = unat (h_slot ch)")
    case True
    with spec(1,2,4,6) show ?thesis by (auto simp: parent_rel_def split: option.splits)
  next
    case False
    note sc = spec(5) [OF False]
    have "live t' j \<longleftrightarrow> live t j" using slot_scanned_Live [OF sc] spec(6) by simp
    moreover have "slots t' ! j = slots t ! j" if "live t j"
      using slot_scanned_nonempty [OF sc] that by simp
    ultimately show ?thesis using False by (auto simp: parent_rel_def)
  qed
qed

lemma fork_step:
  assumes inv: "fork_inv t child installed" and "parent \<noteq> child"
    and l: "list_holder t parent cursor = Some (n, h, r)"
    and c: "child_of h (rec_provenance r) = Inr prov"
    and ins: "install t \<lparr>rec_state = Live, rec_holder = child, rec_resource = rec_resource r,
                rec_rights = rec_rights r, rec_provenance = prov, rec_generation = 0\<rparr> = (Inr ch, t')"
  shows "fork_inv t' child (installed @ [ch])"
proof -
  let ?rc = "\<lparr>rec_state = Live, rec_holder = child, rec_resource = rec_resource r,
                rec_rights = rec_rights r, rec_provenance = prov, rec_generation = 0\<rparr>"
  from inv have wf: "table_wf t" and tree: "tree_wf t" by (simp_all add: fork_inv_def)
  from list_holder_Some [OF table_wfD(1) [OF wf] l] obtain i where
    i: "n = Suc i" "cursor \<le> i" "held_by t parent i" "r = slots t ! i" "unat (h_slot h) = i"
      "record_of t h = Inr r" "\<forall>k. cursor \<le> k \<and> k < i \<longrightarrow> \<not> held_by t parent k" .
  have "linked t ?rc"
    using child_of_depth [OF c] c i(3,4,6) by (auto simp: linked_def child_of_Inr held_by_def)
  with wf tree have tree': "tree_wf t'" using tree_wf_install [of t ?rc] ins by simp
  have wf': "table_wf t'" using table_wf_install [OF wf, of ?rc] ins by simp
  note spec = install_Inr [OF ins table_wfD(1) [OF wf]]
  have prov: "prov_parent prov = Some h" using c by (simp add: child_of_Inr)
  have "\<exists>r. record_of t' g = Inr r \<and> rec_state r = Live \<and> rec_holder r = child
            \<and> (\<forall>j. \<not> parent_rel t' (unat (h_slot g)) j)" if "g \<in> set (installed @ [ch])" for g
  proof (cases "g = ch")
    case True
    have "record_of t' ch = Inr (installed_as ?rc (h_generation ch))"
      by (rule install_authority(1) [OF wf ins])
    moreover have "\<not> parent_rel t' (unat (h_slot ch)) j" for j
    proof
      assume "parent_rel t' (unat (h_slot ch)) j"
      then have "parent_rel t (unat (h_slot ch)) j \<or> unat (h_slot h) = unat (h_slot ch)"
        using install_parent_rel [OF wf ins] prov by auto
      then have "live t (unat (h_slot ch))"
        using i(3,5) tree by (auto simp: held_by_def elim: parent_relE)
      with spec(2) show False by simp
    qed
    ultimately show ?thesis using True by auto
  next
    case False
    with that have "g \<in> set installed" by simp
    with inv obtain q where q: "record_of t g = Inr q" "rec_state q = Live" "rec_holder q = child"
      "\<forall>j. \<not> parent_rel t (unat (h_slot g)) j" by (auto simp: fork_inv_def)
    have "record_of t' g = Inr q" using install_keeps(3) [OF wf q(1), of ?rc] ins by simp
    moreover have "unat (h_slot g) \<noteq> unat (h_slot h)"
    proof
      assume "unat (h_slot g) = unat (h_slot h)"
      with q(1,3) i(3,5) assms(2) show False by (auto simp: record_of_Inr held_by_def)
    qed
    then have "\<not> parent_rel t' (unat (h_slot g)) j" for j
      using install_parent_rel [OF wf ins] q(4) prov by auto
    ultimately show ?thesis using q by auto
  qed
  with wf' tree' show ?thesis by (simp add: fork_inv_def)
qed

lemma fork_rollback:
  assumes "fork_inv t child installed"
  shows "pruned t {unat (h_slot h) | h. h \<in> set installed} (rollback_fork_inherited t installed)"
    and "tree_wf (rollback_fork_inherited t installed)"
    and "table_wf (rollback_fork_inherited t installed)"
proof -
  let ?S = "{unat (h_slot h) | h. h \<in> set installed}"
  have "\<forall>h\<in>set installed. \<exists>r. record_of t h = Inr r" using assms by (auto simp: fork_inv_def)
  from rollback_pruned [OF pruned_empty this]
  show pr: "pruned t ?S (rollback_fork_inherited t installed)" by simp
  have "child_closed t ?S" using assms by (auto simp: child_closed_def fork_inv_def)
  with assms pr show "tree_wf (rollback_fork_inherited t installed)"
    by (auto simp: fork_inv_def intro: tree_wf_pruned)
  have "table_wf t" using assms by (simp add: fork_inv_def)
  then show "table_wf (rollback_fork_inherited t installed)"
    unfolding rollback_fork_inherited_def
    by (intro fold_invariant_set [where I = table_wf]) (auto intro: table_wf_revoke)
qed

lemma install_has_authority:
  assumes "table_wf t" and "install t rc = (Inr ch, t')"
  shows "has_authority t' ho re ri i \<longleftrightarrow> has_authority t ho re ri i
    \<or> i = unat (h_slot ch) \<and> rec_holder rc = ho \<and> rec_resource rc = re \<and> is_subset_of ri (rec_rights rc)"
proof -
  note spec = install_Inr [OF assms(2) table_wfD(1) [OF assms(1)]]
  show ?thesis
  proof (cases "i = unat (h_slot ch)")
    case True
    with spec(1,2,4,6) show ?thesis by (auto simp: has_authority_def held_by_def)
  next
    case False
    note sc = spec(5) [OF False]
    have "live t' i \<longleftrightarrow> live t i" using slot_scanned_Live [OF sc] spec(6) by simp
    moreover have "slots t' ! i = slots t ! i" if "live t i"
      using slot_scanned_nonempty [OF sc] that by simp
    ultimately show ?thesis using False by (auto simp: has_authority_def held_by_def)
  qed
qed

text \<open>The five exits of the loop.\<close>

lemma inherit_cases:
  obtains (stop) "list_holder t parent cursor = None"
      "inherit_from t parent child cursor installed = (Inr (), t)"
  | (deep) n h r e where "list_holder t parent cursor = Some (n, h, r)"
      "child_of h (rec_provenance r) = Inl e"
      "inherit_from t parent child cursor installed = (Inl e, t)"
  | (many) n h r where "list_holder t parent cursor = Some (n, h, r)" "MAX_SLOTS \<le> length installed"
      "inherit_from t parent child cursor installed
         = (Inl CapacityExhausted, rollback_fork_inherited t installed)"
  | (full) n h r rc e t1 where "list_holder t parent cursor = Some (n, h, r)"
      "install t rc = (Inl e, t1)"
      "inherit_from t parent child cursor installed = (Inl e, rollback_fork_inherited t1 installed)"
  | (more) n h r prov ch t1 where "list_holder t parent cursor = Some (n, h, r)"
      "child_of h (rec_provenance r) = Inr prov" "length installed < MAX_SLOTS"
      "install t \<lparr>rec_state = Live, rec_holder = child, rec_resource = rec_resource r,
                  rec_rights = rec_rights r, rec_provenance = prov, rec_generation = 0\<rparr> = (Inr ch, t1)"
      "inherit_from t parent child cursor installed = inherit_from t1 parent child n (installed @ [ch])"
proof (cases "list_holder t parent cursor")
  case None
  with stop show thesis by (simp add: inherit_from.simps [of t])
next
  case (Some x)
  then obtain n h r where x: "list_holder t parent cursor = Some (n, h, r)" by (cases x) auto
  show thesis
  proof (cases "child_of h (rec_provenance r)")
    case (Inl e)
    with x deep show thesis by (simp add: inherit_from.simps [of t])
  next
    case (Inr prov)
    let ?rc = "\<lparr>rec_state = Live, rec_holder = child, rec_resource = rec_resource r,
                rec_rights = rec_rights r, rec_provenance = prov, rec_generation = 0\<rparr>"
    show thesis
    proof (cases "MAX_SLOTS \<le> length installed")
      case True
      with x Inr many show thesis by (simp add: inherit_from.simps [of t])
    next
      case False
      show thesis
      proof (cases "install t ?rc")
        case (Pair res t1)
        with x Inr False full [OF x, of ?rc _ t1] more [OF x Inr _, of _ t1] show thesis
          by (cases res) (simp_all add: inherit_from.simps [of t])
      qed
    qed
  qed
qed

lemma install_failed_keeps:
  assumes "fork_inv t child installed" and "install t rc = (Inl e, t1)"
  shows "fork_inv t1 child installed"
    and "table_authorize t1 a h re ri = Inr q \<longleftrightarrow> table_authorize t a h re ri = Inr q"
    and "e \<noteq> DelegationDepthExceeded"
proof -
  have wf: "table_wf t" and tree: "tree_wf t" using assms(1) by (simp_all add: fork_inv_def)
  note spec = install_Inl [OF assms(2) table_wfD(1) [OF wf]]
  have live: "live t1 i \<longleftrightarrow> live t i" "live t i \<Longrightarrow> slots t1 ! i = slots t ! i" for i
    using slot_scanned_Live [OF spec(1) [of i]] slot_scanned_nonempty [OF spec(1) [of i]] spec(2) by auto
  have pr: "parent_rel t1 i j \<longleftrightarrow> parent_rel t i j" for i j
    using live [of j] by (auto simp: parent_rel_def)
  have "table_wf t1" using table_wf_install [OF wf, of rc] assms(2) by simp
  moreover have "tree_wf t1"
  proof (rule tree_wf_restrict [OF tree spec(2)])
    fix i j assume "parent_rel t i j"
    then have "live t i" using tree by (auto elim: parent_relE)
    then show "live t1 i" using live(1) by blast
  qed (use live in blast)
  moreover have "record_of t1 h = Inr r" if "record_of t h = Inr r" for h r
    using install_keeps(3) [OF wf that, of rc] assms(2) by simp
  ultimately show "fork_inv t1 child installed"
    using assms(1) by (auto simp: fork_inv_def pr)
  show "table_authorize t1 a h re ri = Inr q \<longleftrightarrow> table_authorize t a h re ri = Inr q"
    using live [of "unat (h_slot h)"] by (auto simp: table_authorize_Inr)
  show "e \<noteq> DelegationDepthExceeded" using spec(4) by auto
qed

lemma inherit_keeps:
  assumes "fork_inv t child installed" and "parent \<noteq> child"
    and "inherit_from t parent child cursor installed = (res, t')"
  shows "table_wf t' \<and> tree_wf t'"
  using assms
proof (induction t parent child cursor installed rule: inherit_from.induct)
  case (1 t parent child cursor installed)
  show ?case
  proof (cases rule: inherit_cases [of t parent cursor child installed])
    case (full n h r rc e t1)
    with 1 fork_rollback [OF install_failed_keeps(1)] show ?thesis by (metis prod.inject)
  next
    case (more n h r prov ch t1)
    have "fork_inv t1 child (installed @ [ch])"
      by (rule fork_step [OF "1.prems"(1,2) more(1,2,4)])
    with "1.IH" [OF more(1) refl refl more(2) _ more(4) [symmetric] refl] more(3,5) "1.prems"
    show ?thesis by simp
  qed (use 1 fork_rollback in \<open>auto simp: fork_inv_def\<close>)
qed

lemma inherit_ok:
  assumes "fork_inv t child installed" and "parent \<noteq> child"
    and "inherit_from t parent child cursor installed = (Inr (), t')"
  shows "(\<exists>i. has_authority t' ho re ri i) \<longleftrightarrow> (\<exists>i. has_authority t ho re ri i)
    \<or> ho = child \<and> (\<exists>i\<ge>cursor. has_authority t parent re ri i)"
  using assms
proof (induction t parent child cursor installed rule: inherit_from.induct)
  case (1 t parent child cursor installed)
  have wf: "table_wf t" using "1.prems"(1) by (simp add: fork_inv_def)
  note cap = table_wfD(1) [OF wf]
  show ?case
  proof (cases rule: inherit_cases [of t parent cursor child installed])
    case stop
    with 1 list_holder_None [OF cap stop(1)] show ?thesis by (auto simp: has_authority_def)
  next
    case (more n h r prov ch t1)
    let ?rc = "\<lparr>rec_state = Live, rec_holder = child, rec_resource = rec_resource r,
                rec_rights = rec_rights r, rec_provenance = prov, rec_generation = 0\<rparr>"
    from list_holder_Some [OF cap more(1)] obtain i where
      i: "n = Suc i" "cursor \<le> i" "held_by t parent i" "r = slots t ! i" "unat (h_slot h) = i"
        "record_of t h = Inr r" "\<forall>k. cursor \<le> k \<and> k < i \<longrightarrow> \<not> held_by t parent k" .
    have "fork_inv t1 child (installed @ [ch])"
      by (rule fork_step [OF "1.prems"(1,2) more(1,2,4)])
    with "1.IH" [OF more(1) refl refl more(2) _ more(4) [symmetric] refl] more(3,5) "1.prems"
    have IH: "(\<exists>i. has_authority t' ho re ri i) \<longleftrightarrow> (\<exists>i. has_authority t1 ho re ri i)
        \<or> ho = child \<and> (\<exists>i\<ge>n. has_authority t1 parent re ri i)" by simp
    note new = install_has_authority [OF wf more(4)]
    have par: "has_authority t1 parent re ri k \<longleftrightarrow> has_authority t parent re ri k" for k
      using new [of parent re ri k] "1.prems"(2) by simp
    have this_one: "has_authority t parent re ri i \<longleftrightarrow> rec_resource r = re \<and> is_subset_of ri (rec_rights r)"
      using i(3,4) by (simp add: has_authority_def)
    have t1: "(\<exists>k. has_authority t1 ho re ri k) \<longleftrightarrow> (\<exists>k. has_authority t ho re ri k)
        \<or> ho = child \<and> has_authority t parent re ri i"
      unfolding this_one using new [of ho re ri] by auto
    have split: "(\<exists>k\<ge>cursor. has_authority t parent re ri k)
        \<longleftrightarrow> has_authority t parent re ri i \<or> (\<exists>k\<ge>n. has_authority t parent re ri k)"
    proof
      assume "\<exists>k\<ge>cursor. has_authority t parent re ri k"
      then obtain k where k: "cursor \<le> k" "has_authority t parent re ri k" by blast
      with i(7) have "\<not> k < i" by (auto simp: has_authority_def)
      then have "k = i \<or> n \<le> k" using i(1) by linarith
      with k show "has_authority t parent re ri i \<or> (\<exists>k\<ge>n. has_authority t parent re ri k)" by auto
    qed (use i(1,2) Suc_leD le_trans in blast)
    show ?thesis unfolding IH par t1 split by blast
  qed (use 1 in simp_all)
qed

lemma rollback_authorize:
  assumes "fork_inv t child installed"
  shows "table_authorize (rollback_fork_inherited t installed) a h re ri = Inr r
    \<longleftrightarrow> table_authorize t a h re ri = Inr r \<and> h \<notin> set installed"
proof -
  have "h \<in> set installed \<longleftrightarrow> unat (h_slot h) \<in> {unat (h_slot h) | h. h \<in> set installed}"
    if "table_authorize t a h re ri = Inr r"
  proof
    assume "unat (h_slot h) \<in> {unat (h_slot h) | h. h \<in> set installed}"
    then obtain g where g: "g \<in> set installed" "unat (h_slot h) = unat (h_slot g)" by auto
    with assms obtain q where "record_of t g = Inr q" by (auto simp: fork_inv_def)
    with g that have "h_generation h = h_generation g" "h_slot h = h_slot g"
      by (auto simp: table_authorize_Inr record_of_Inr word_unat_eq_iff)
    then have "h = g" by simp
    with g show "h \<in> set installed" by simp
  qed auto
  then show ?thesis using pruned_authorize [OF fork_rollback(1) [OF assms]] by blast
qed

lemma inherit_fail:
  assumes "fork_inv t child installed" and "parent \<noteq> child"
    and "inherit_from t parent child cursor installed = (Inl e, t')" and "e \<noteq> DelegationDepthExceeded"
  shows "table_authorize t' a h re ri = Inr q
    \<longleftrightarrow> table_authorize t a h re ri = Inr q \<and> h \<notin> set installed"
  using assms
proof (induction t parent child cursor installed rule: inherit_from.induct)
  case (1 t parent child cursor installed)
  have wf: "table_wf t" using "1.prems"(1) by (simp add: fork_inv_def)
  show ?case
  proof (cases rule: inherit_cases [of t parent cursor child installed])
    case (deep n g r e')
    with 1 child_of_Inl [OF deep(2)] show ?thesis by simp
  next
    case (many n g r)
    with 1 rollback_authorize [OF "1.prems"(1)] show ?thesis by auto
  next
    case (full n g r rc e' t1)
    note keeps = install_failed_keeps [OF "1.prems"(1) full(2)]
    from rollback_authorize [OF keeps(1)] keeps(2) full(3) "1.prems"(3) show ?thesis by auto
  next
    case (more n g r prov ch t1)
    let ?rc = "\<lparr>rec_state = Live, rec_holder = child, rec_resource = rec_resource r,
                rec_rights = rec_rights r, rec_provenance = prov, rec_generation = 0\<rparr>"
    have inv: "fork_inv t1 child (installed @ [ch])"
      by (rule fork_step [OF "1.prems"(1,2) more(1,2,4)])
    have IH: "table_authorize t' a h re ri = Inr q
        \<longleftrightarrow> table_authorize t1 a h re ri = Inr q \<and> h \<notin> set (installed @ [ch])"
      using "1.IH" [OF more(1) refl refl more(2) _ more(4) [symmetric] refl inv] more(3,5) "1.prems" by simp
    have "table_authorize t a ch re ri \<noteq> Inr q"
      using install_Inr(2) [OF more(4) table_wfD(1) [OF wf]] by (auto simp: table_authorize_Inr)
    with IH install_authority(2) [OF wf more(4), of h a re ri q] show ?thesis by (cases "h = ch") auto
  qed (use 1 in simp)
qed

text \<open>
  C8 (functional). A fork that succeeds gives the child exactly the parent's authority: for every
  resource and set of rights, the child may use them afterwards if and only if the parent could (or
  the child could already), no other holder gains or loses anything, and the forest stays well
  formed.
\<close>

theorem fork_inherits_exactly:
  assumes "table_wf t" and "tree_wf t" and "parent \<noteq> child"
    and "inherit_capabilities_for_fork t parent child = (Inr (), t')"
  shows "table_wf t' \<and> tree_wf t' \<and>
    (holder_has_resource_rights t' holder resource required \<longleftrightarrow>
       holder_has_resource_rights t holder resource required
       \<or> holder = child \<and> holder_has_resource_rights t parent resource required)"
proof -
  have inv: "fork_inv t child []" using assms(1,2) by (simp add: fork_inv_def)
  have eq: "inherit_from t parent child 0 [] = (Inr (), t')"
    using assms(4) by (simp add: inherit_capabilities_for_fork_def)
  have wf': "table_wf t' \<and> tree_wf t'" by (rule inherit_keeps [OF inv assms(3) eq])
  have "holder_has_resource_rights s ho resource required \<longleftrightarrow> (\<exists>i. has_authority s ho resource required i)"
    if "table_wf s" for s ho
    using holder_has_from_iff [OF table_wfD(1) [OF that], of ho resource required 0]
    by (simp add: holder_has_resource_rights_def)
  with assms(1) wf' inherit_ok [OF inv assms(3) eq, of holder resource required] show ?thesis by simp
qed

theorem fork_inherits_exactly_witness:
  "holder_has_resource_rights (snd (inherit_capabilities_for_fork sample_table 10 20)) 20
     (resource_object 42) READ"
proof -
  have tree: "tree_wf sample_table"
    using tree_wf_grant [OF table_wf_new [of 2] tree_wf_new, of 10 "resource_object 42" READ 10]
    by (simp add: sample_grant)
  have "fst (inherit_capabilities_for_fork sample_table 10 20) = Inr ()"
    by (simp add: inherit_capabilities_for_fork_def inherit_from.simps list_holder_def record_at_def
        handle_at_def upt_rec child_of_def checked_add_def ok_or_def MAX_DELEGATION_DEPTH_def MAX_SLOTS_def
        install_def table_eval sample_defs)
  then have eq: "inherit_capabilities_for_fork sample_table 10 20
      = (Inr (), snd (inherit_capabilities_for_fork sample_table 10 20))" by (simp add: prod_eq_iff)
  have "holder_has_resource_rights sample_table 10 (resource_object 42) READ"
  proof -
    have "has_authority sample_table 10 (resource_object 42) READ 0"
      by (simp add: has_authority_def held_by_def sample_defs capacity_make)
    then show ?thesis
      using holder_has_from_iff [OF table_wfD(1) [OF sample_wf]]
      by (auto simp: holder_has_resource_rights_def)
  qed
  with fork_inherits_exactly [OF sample_wf tree _ eq] show ?thesis by simp
qed

text \<open>
  C9 (error). A fork that fails for lack of capacity is undone: every authorization is decided as
  before the call.
\<close>

theorem fork_failure_rolled_back:
  assumes "table_wf t" and "tree_wf t" and "parent \<noteq> child"
    and "inherit_capabilities_for_fork t parent child = (Inl e, t')" and "e \<noteq> DelegationDepthExceeded"
  shows "table_authorize t' actor h res req = Inr r \<longleftrightarrow> table_authorize t actor h res req = Inr r"
proof -
  have inv: "fork_inv t child []" using assms(1,2) by (simp add: fork_inv_def)
  have eq: "inherit_from t parent child 0 [] = (Inl e, t')"
    using assms(4) by (simp add: inherit_capabilities_for_fork_def)
  from inherit_fail [OF inv assms(3) eq assms(5)] show ?thesis by simp
qed

definition full_table :: cap_table where
  "full_table = \<lparr>slots = [sample_record], live_count = 1\<rparr>"

theorem fork_failure_rolled_back_witness:
  "fst (inherit_capabilities_for_fork full_table 10 20) = Inl CapacityExhausted
   \<and> table_authorize (snd (inherit_capabilities_for_fork full_table 10 20)) 10 sample_handle
       (resource_object 42) READ = Inr sample_record"
proof -
  have wf: "table_wf full_table"
    by (simp add: table_wf_def record_wf_def full_table_def sample_record_def table_eval)
  have tree: "tree_wf full_table"
    by (simp add: tree_wf_def linked_def full_table_def sample_record_def provenance_root_def)
  have fails: "fst (inherit_capabilities_for_fork full_table 10 20) = Inl CapacityExhausted"
    by (simp add: inherit_capabilities_for_fork_def inherit_from.simps list_holder_def record_at_def
        handle_at_def upt_rec child_of_def checked_add_def ok_or_def MAX_DELEGATION_DEPTH_def MAX_SLOTS_def
        install_def table_eval sample_record_def full_table_def)
  have "table_authorize full_table 10 sample_handle (resource_object 42) READ = Inr sample_record"
    by (simp add: table_authorize_Inr full_table_def sample_record_def sample_handle_def capacity_make)
  moreover have "inherit_capabilities_for_fork full_table 10 20
      = (Inl CapacityExhausted, snd (inherit_capabilities_for_fork full_table 10 20))"
    using fails by (simp add: prod_eq_iff)
  from fork_failure_rolled_back [OF wf tree _ this, of 10 sample_handle "resource_object 42" READ sample_record]
  have "table_authorize (snd (inherit_capabilities_for_fork full_table 10 20)) 10 sample_handle
       (resource_object 42) READ = Inr sample_record
     \<longleftrightarrow> table_authorize full_table 10 sample_handle (resource_object 42) READ = Inr sample_record"
    by simp
  ultimately show ?thesis using fails by simp
qed

text \<open>
  \<open>stopped_at t parent c k\<close>: slot \<open>k\<close> holds the first live capability of \<open>parent\<close>, from slot \<open>c\<close> on,
  that may not be delegated any deeper.
\<close>

definition stopped_at :: "cap_table \<Rightarrow> holder_id \<Rightarrow> nat \<Rightarrow> nat \<Rightarrow> bool" where
  "stopped_at t parent c k \<longleftrightarrow> c \<le> k \<and> held_by t parent k
     \<and> MAX_DELEGATION_DEPTH \<le> prov_depth (rec_provenance (slots t ! k))
     \<and> (\<forall>i. c \<le> i \<and> i < k \<and> held_by t parent i
          \<longrightarrow> prov_depth (rec_provenance (slots t ! i)) < MAX_DELEGATION_DEPTH)"

lemma child_of_shallow: "(\<exists>p. child_of h pp = Inr p) \<longleftrightarrow> prov_depth pp < MAX_DELEGATION_DEPTH"
  by (simp add: child_of_Inr MAX_DELEGATION_DEPTH_def word_less_nat_alt)

lemma install_held_by:
  assumes "table_wf t" and "install t rc = (Inr ch, t')" and "rec_holder rc \<noteq> ho"
  shows "held_by t' ho i \<longleftrightarrow> held_by t ho i"
    and "held_by t ho i \<Longrightarrow> slots t' ! i = slots t ! i"
proof -
  note spec = install_Inr [OF assms(2) table_wfD(1) [OF assms(1)]]
  show "held_by t' ho i \<longleftrightarrow> held_by t ho i"
  proof (cases "i = unat (h_slot ch)")
    case True
    with spec(1,2,4,6) assms(3) show ?thesis by (auto simp: held_by_def)
  next
    case False
    note sc = spec(5) [OF False]
    from slot_scanned_Live [OF sc] slot_scanned_nonempty [OF sc] spec(6) show ?thesis
      by (auto simp: held_by_def)
  qed
  show "slots t' ! i = slots t ! i" if "held_by t ho i"
    using install_keeps(2) [OF assms(1), of i rc] that assms(2) by (simp add: held_by_def)
qed

lemma inherit_depth:
  assumes "fork_inv t child installed" and "parent \<noteq> child"
    and "inherit_from t parent child cursor installed = (Inl DelegationDepthExceeded, t')"
  shows "\<exists>k. stopped_at t parent cursor k \<and> (\<forall>ho re ri.
    (\<exists>i. has_authority t' ho re ri i) \<longleftrightarrow> (\<exists>i. has_authority t ho re ri i)
      \<or> ho = child \<and> (\<exists>i. cursor \<le> i \<and> i < k \<and> has_authority t parent re ri i))"
  using assms
proof (induction t parent child cursor installed rule: inherit_from.induct)
  case (1 t parent child cursor installed)
  have wf: "table_wf t" using "1.prems"(1) by (simp add: fork_inv_def)
  note cap = table_wfD(1) [OF wf]
  show ?case
  proof (cases rule: inherit_cases [of t parent cursor child installed])
    case (deep n h r e)
    from list_holder_Some [OF cap deep(1)] obtain i where
      i: "n = Suc i" "cursor \<le> i" "held_by t parent i" "r = slots t ! i" "unat (h_slot h) = i"
        "record_of t h = Inr r" "\<forall>k. cursor \<le> k \<and> k < i \<longrightarrow> \<not> held_by t parent k" .
    have "\<not> prov_depth (rec_provenance r) < MAX_DELEGATION_DEPTH"
      using deep(2) child_of_shallow [of h "rec_provenance r"] by auto
    with i have "stopped_at t parent cursor i" by (auto simp: stopped_at_def)
    moreover have "t' = t" using deep(3) "1.prems"(3) by simp
    ultimately show ?thesis using i(7) unfolding has_authority_def by blast
  next
    case (full n h r rc e t1)
    with "1.prems" install_failed_keeps(3) [OF "1.prems"(1) full(2)] show ?thesis by simp
  next
    case (more n h r prov ch t1)
    from list_holder_Some [OF cap more(1)] obtain i where
      i: "n = Suc i" "cursor \<le> i" "held_by t parent i" "r = slots t ! i" "unat (h_slot h) = i"
        "record_of t h = Inr r" "\<forall>k. cursor \<le> k \<and> k < i \<longrightarrow> \<not> held_by t parent k" .
    have "fork_inv t1 child (installed @ [ch])"
      by (rule fork_step [OF "1.prems"(1,2) more(1,2,4)])
    with "1.IH" [OF more(1) refl refl more(2) _ more(4) [symmetric] refl] more(3,5) "1.prems"
    obtain k where k: "stopped_at t1 parent n k" "\<forall>ho re ri.
        (\<exists>i. has_authority t' ho re ri i) \<longleftrightarrow> (\<exists>i. has_authority t1 ho re ri i)
          \<or> ho = child \<and> (\<exists>i. n \<le> i \<and> i < k \<and> has_authority t1 parent re ri i)" by auto
    note held = install_held_by [OF wf more(4), of parent, simplified, OF "1.prems"(2) [symmetric]]
    note new = install_has_authority [OF wf more(4)]
    have par: "has_authority t1 parent re ri j \<longleftrightarrow> has_authority t parent re ri j" for re ri j
      using new [of parent re ri j] "1.prems"(2) by simp
    have this_one: "has_authority t parent re ri i \<longleftrightarrow> rec_resource r = re \<and> is_subset_of ri (rec_rights r)" for re ri
      using i(3,4) by (simp add: has_authority_def)
    have t1: "(\<exists>j. has_authority t1 ho re ri j) \<longleftrightarrow> (\<exists>j. has_authority t ho re ri j)
        \<or> ho = child \<and> has_authority t parent re ri i" for ho re ri
      unfolding this_one using new [of ho re ri] by auto
    have ik: "i < k" using k(1) i(1) by (simp add: stopped_at_def)
    have range: "cursor \<le> j \<and> j < k \<and> has_authority t parent re ri j
        \<longleftrightarrow> j = i \<and> has_authority t parent re ri i \<or> n \<le> j \<and> j < k \<and> has_authority t parent re ri j" for j re ri
      using i(1,2,7) ik by (cases j i rule: linorder_cases) (auto simp: has_authority_def)
    have "prov_depth (rec_provenance (slots t ! i)) < MAX_DELEGATION_DEPTH"
      using more(2) i(4) child_of_shallow [of h "rec_provenance r"] by auto
    moreover have "prov_depth (rec_provenance (slots t ! j)) < MAX_DELEGATION_DEPTH"
      if "n \<le> j" "j < k" "held_by t parent j" for j
      using k(1) held [of j] that by (auto simp: stopped_at_def)
    ultimately have "prov_depth (rec_provenance (slots t ! j)) < MAX_DELEGATION_DEPTH"
      if "cursor \<le> j" "j < k" "held_by t parent j" for j
      using that i(1,7) by (cases j i rule: linorder_cases) auto
    with k(1) i(1,2) held [of k] have "stopped_at t parent cursor k" by (auto simp: stopped_at_def)
    then show ?thesis
      unfolding k(2) [rule_format] t1 par
      by (intro exI [of _ k] conjI allI) (use range in auto)
  qed (use 1 in simp_all)
qed

text \<open>
  A table with both kinds of capability. Holder 10 has a root grant and, at the end of a chain
  through other holders, a capability at the maximal depth.
\<close>

definition chain_record :: "holder_id \<Rightarrow> u16 \<Rightarrow> u8 \<Rightarrow> cap_record" where
  "chain_record holder parent depth =
     \<lparr>rec_state = Live, rec_holder = holder, rec_resource = resource_object 42,
      rec_rights = READ OR DELEGATE,
      rec_provenance = (if depth = 0 then provenance_root 10
        else \<lparr>prov_parent = Some \<lparr>h_slot = parent, h_generation = 1\<rparr>, prov_depth = depth, root_holder = 10\<rparr>),
      rec_generation = 1\<rparr>"

definition deep_table :: cap_table where
  "deep_table = \<lparr>slots = [chain_record 10 0 0, chain_record 11 0 1, chain_record 12 1 2,
                          chain_record 13 2 3, chain_record 10 3 4, RECORD_EMPTY], live_count = 5\<rparr>"

definition deep_table' :: cap_table where
  "deep_table' = \<lparr>slots = [chain_record 10 0 0, chain_record 11 0 1, chain_record 12 1 2,
                          chain_record 13 2 3, chain_record 10 3 4, chain_record 20 0 1], live_count = 6\<rparr>"

lemma deep_fork:
  "table_wf deep_table" "tree_wf deep_table"
  "inherit_capabilities_for_fork deep_table 10 20 = (Inl DelegationDepthExceeded, deep_table')"
proof -
  show "table_wf deep_table"
    by (simp add: table_wf_def record_wf_def deep_table_def chain_record_def table_eval)
  show "tree_wf deep_table"
    by (simp add: tree_wf_def linked_def deep_table_def chain_record_def table_eval record_of_def)
  have l0: "list_holder deep_table 10 0 = Some (1, \<lparr>h_slot = 0, h_generation = 1\<rparr>, chain_record 10 0 0)"
    by (simp add: list_holder_def record_at_def handle_at_def deep_table_def table_eval chain_record_def
        upt_conv_Cons)
  have l1: "list_holder deep_table' 10 (Suc 0) = Some (5, \<lparr>h_slot = 4, h_generation = 1\<rparr>, chain_record 10 3 4)"
    by (simp add: list_holder_def record_at_def handle_at_def deep_table'_def table_eval chain_record_def
        upt_conv_Cons)
  have ins: "install deep_table (chain_record 20 0 1\<lparr>rec_generation := 0\<rparr>)
      = (Inr \<lparr>h_slot = 5, h_generation = 1\<rparr>, deep_table')"
    by (simp add: install_def deep_table_def deep_table'_def table_eval chain_record_def upt_conv_Cons)
  then show "inherit_capabilities_for_fork deep_table 10 20 = (Inl DelegationDepthExceeded, deep_table')"
    by (simp add: inherit_capabilities_for_fork_def inherit_from.simps [of deep_table] l0
        inherit_from.simps [of deep_table'] l1 child_of_def checked_add_def ok_or_def
        MAX_DELEGATION_DEPTH_def MAX_SLOTS_def chain_record_def provenance_root_def)
qed

text \<open>
  C10 (error). The depth error of a fork is not undone. A fork that fails with
  \<open>DelegationDepthExceeded\<close> was stopped at the parent's first capability at the maximal depth, and
  the child is left with live copies of everything the parent holds in the slots before it: for every
  holder, resource and set of rights, the authority afterwards is the authority before, and for the
  child also that of those capabilities. Only when the parent's first capability is itself too deep
  does the child gain nothing.
\<close>

theorem fork_depth_error_leaks:
  assumes "table_wf t" and "tree_wf t" and "parent \<noteq> child"
    and "inherit_capabilities_for_fork t parent child = (Inl DelegationDepthExceeded, t')"
  shows "\<exists>k. stopped_at t parent 0 k \<and> (\<forall>holder resource required.
    holder_has_resource_rights t' holder resource required \<longleftrightarrow>
      holder_has_resource_rights t holder resource required
      \<or> holder = child \<and> (\<exists>i<k. has_authority t parent resource required i))"
proof -
  have inv: "fork_inv t child []" using assms(1,2) by (simp add: fork_inv_def)
  have eq: "inherit_from t parent child 0 [] = (Inl DelegationDepthExceeded, t')"
    using assms(4) by (simp add: inherit_capabilities_for_fork_def)
  have wf': "table_wf t'" using inherit_keeps [OF inv assms(3) eq] by simp
  have "holder_has_resource_rights s ho re ri \<longleftrightarrow> (\<exists>i. has_authority s ho re ri i)"
    if "table_wf s" for s ho re ri
    using holder_has_from_iff [OF table_wfD(1) [OF that], of ho re ri 0]
    by (simp add: holder_has_resource_rights_def)
  with assms(1) wf' inherit_depth [OF inv assms(3) eq] show ?thesis by simp
qed

theorem fork_depth_error_leaks_witness:
  "holder_has_resource_rights (snd (inherit_capabilities_for_fork deep_table 10 20)) 20
     (resource_object 42) READ"
proof -
  obtain k where k: "stopped_at deep_table 10 0 k" and leak: "\<forall>holder resource required.
    holder_has_resource_rights deep_table' holder resource required \<longleftrightarrow>
      holder_has_resource_rights deep_table holder resource required
      \<or> holder = 20 \<and> (\<exists>i<k. has_authority deep_table 10 resource required i)"
    using fork_depth_error_leaks [OF deep_fork(1,2) _ deep_fork(3)] by auto
  have "0 < k"
    using k by (cases k) (auto simp: stopped_at_def deep_table_def chain_record_def provenance_root_def
        MAX_DELEGATION_DEPTH_def)
  moreover have "has_authority deep_table 10 (resource_object 42) READ 0"
    by (simp add: has_authority_def held_by_def deep_table_def chain_record_def capacity_make
        is_subset_of_def rights_consts)
  ultimately show ?thesis using leak by (auto simp: deep_fork(3))
qed

section \<open>Root grants\<close>

lemma capacity_grant [simp]: "capacity (snd (grant t ho re ri p)) = capacity t"
  unfolding grant_eq_install [of t ho re ri p Live 0] by simp

lemma grant_keeps_authority:
  assumes "table_wf t" and "table_authorize t actor h res req = Inr r"
  shows "table_authorize (snd (grant t ho re ri p)) actor h res req = Inr r"
proof -
  let ?rc = "\<lparr>rec_state = Live, rec_holder = ho, rec_resource = re, rec_rights = ri,
              rec_provenance = p, rec_generation = 0\<rparr>"
  have eq: "grant t ho re ri p = install t ?rc" by (rule grant_eq_install)
  from assms(2) have "rec_state (slots t ! unat (h_slot h)) \<noteq> Empty" by (auto simp: table_authorize_Inr)
  with install_keeps(1,2) [OF assms(1)] assms(2) show ?thesis
    unfolding eq by (auto simp: table_authorize_Inr)
qed

lemma grant_exhausted:
  assumes "table_wf t" and "grant t ho re ri p = (Inl CapacityExhausted, t')" and "i < capacity t"
  shows "rec_state (slots t' ! i) \<noteq> Empty" and "slot_scanned (slots t ! i) (slots t' ! i)"
    and "capacity t' = capacity t"
proof -
  have eq: "install t \<lparr>rec_state = Live, rec_holder = ho, rec_resource = re, rec_rights = ri,
              rec_provenance = p, rec_generation = 0\<rparr> = (Inl CapacityExhausted, t')"
    using assms(2) by (simp add: grant_eq_install [of t ho re ri p Live 0])
  note spec = install_Inl [OF eq table_wfD(1) [OF assms(1)]]
  from spec(4) assms(3) show "rec_state (slots t' ! i) \<noteq> Empty" by auto
  show "slot_scanned (slots t ! i) (slots t' ! i)" and "capacity t' = capacity t"
    by (rule spec(1), rule spec(2))
qed

text \<open>
  C11 (safety). A root grant of the kernel reclaims revoked slots before it gives up and never takes
  a live one: whatever was authorized before the call is still authorized after it, and when the
  call reports exhaustion every slot of the table is live or permanently retired.
\<close>

theorem grant_root_never_evicts:
  assumes "table_wf t" and "grant_root t holder resource rights = (res, t')"
  shows "table_wf t'
    \<and> (\<forall>actor h re req r. table_authorize t actor h re req = Inr r \<longrightarrow>
         table_authorize t' actor h re req = Inr r)
    \<and> (res = Inl CapacityExhausted \<longrightarrow>
         (\<forall>i<capacity t'. rec_state (slots t' ! i) = Live \<or> rec_state (slots t' ! i) = Retired))"
proof -
  let ?g = "\<lambda>t. grant t holder resource rights (provenance_root holder)"
  obtain res1 t1 where g1: "?g t = (res1, t1)" by (cases "?g t")
  have wf1: "table_wf t1" using table_wf_grant [OF assms(1)] g1 by (metis snd_conv)
  have keep1: "table_authorize t1 actor h re req = Inr r" if "table_authorize t actor h re req = Inr r"
    for actor h re req r using grant_keeps_authority [OF assms(1) that] g1 by (metis snd_conv)
  show ?thesis
  proof (cases "res1 = Inl CapacityExhausted")
    case False
    with assms(2) g1 have "res = res1" "t' = t1"
      by (auto simp: grant_root_def split: sum.splits if_splits)
    with False wf1 keep1 show ?thesis by blast
  next
    case True
    let ?t2 = "snd (release_revoked t1)"
    have wf2: "table_wf ?t2" by (rule table_wf_release_revoked [OF wf1])
    have g2: "?g ?t2 = (res, t')" using assms(2) g1 True by (simp add: grant_root_def)
    have "table_wf t'" using table_wf_grant [OF wf2] g2 by (metis snd_conv)
    moreover have "table_authorize t' actor h re req = Inr r"
      if "table_authorize t actor h re req = Inr r" for actor h re req r
      using grant_keeps_authority [OF wf2] keep1 [OF that] release_revoked_authorize g2
      by (metis snd_conv)
    moreover have "rec_state (slots t' ! i) = Live \<or> rec_state (slots t' ! i) = Retired"
      if "res = Inl CapacityExhausted" "i < capacity t'" for i
    proof -
      from g2 that(1) have ex: "?g ?t2 = (Inl CapacityExhausted, t')" by simp
      have i: "i < capacity ?t2"
        using capacity_grant [of ?t2 holder resource rights "provenance_root holder"] that(2) ex by simp
      note e = grant_exhausted [OF wf2 ex i]
      have "rec_state (slots ?t2 ! i) \<noteq> Revoked"
        using i by (simp add: release_revoked_slots)
      with e(1,2) show ?thesis
        by (cases "rec_state (slots t' ! i)") (auto simp: slot_scanned_def)
    qed
    ultimately show ?thesis by blast
  qed
qed

theorem grant_root_never_evicts_witness:
  "table_authorize (snd (grant_root sample_table 11 (resource_object 7) WRITE)) 10 sample_handle
     (resource_object 42) READ = Inr sample_record"
proof -
  have "table_authorize sample_table 10 sample_handle (resource_object 42) READ = Inr sample_record"
    by (simp add: table_authorize_Inr sample_defs capacity_make)
  then show ?thesis
    using grant_root_never_evicts [OF sample_wf, of 11 "resource_object 7" WRITE
        "fst (grant_root sample_table 11 (resource_object 7) WRITE)"
        "snd (grant_root sample_table 11 (resource_object 7) WRITE)"] by simp
qed

section \<open>The hand-off table\<close>

text \<open>The pending grants as a multiset of holder and handle.\<close>

definition pending :: "bootstrap_table \<Rightarrow> (holder_id \<times> cap_handle) multiset" where
  "pending entries = image_mset the (filter_mset (\<lambda>e. e \<noteq> None) (mset entries))"

lemma pending_update:
  assumes "i < length entries"
  shows "pending (entries[i := v]) =
    pending entries - (case entries ! i of None \<Rightarrow> {#} | Some x \<Rightarrow> {#x#})
    + (case v of None \<Rightarrow> {#} | Some x \<Rightarrow> {#x#})"
proof -
  have "entries ! i \<in># mset entries" using assms by simp
  then obtain M where M: "mset entries = add_mset (entries ! i) M" by (meson multi_member_split)
  then have "mset (entries[i := v]) = add_mset v M" using assms by (simp add: mset_update)
  with M show ?thesis by (cases "entries ! i"; cases v) (simp_all add: pending_def)
qed

lemma pending_member: "(holder, h) \<in># pending entries \<longleftrightarrow> Some (holder, h) \<in> set entries"
  by (force simp: pending_def)

text \<open>
  C28 (refinement). The hand-off table implements a bag of pending grants: registering adds the pair
  and fails only for the kernel holder or when all 16 places are taken; claiming hands out a handle
  that was registered for that very holder, and removes it, so no handle is handed out twice; it
  answers none exactly when the holder has nothing pending.
\<close>

theorem bootstrap_refines_bag:
  "(case bootstrap_register entries holder handle of
      (Inr _, entries') \<Rightarrow> holder \<noteq> HOLDER_KERNEL
        \<and> pending entries' = add_mset (holder, handle) (pending entries)
    | (Inl e, entries') \<Rightarrow> entries' = entries
        \<and> (if e = KernelHolder then holder = HOLDER_KERNEL else size (pending entries) = length entries))
   \<and> (case bootstrap_claim entries holder of
        (Some h, entries') \<Rightarrow> (holder, h) \<in># pending entries
          \<and> pending entries' = pending entries - {#(holder, h)#}
      | (None, entries') \<Rightarrow> entries' = entries \<and> (\<forall>h. (holder, h) \<notin># pending entries))"
proof (intro conjI)
  show "case bootstrap_register entries holder handle of
      (Inr _, entries') \<Rightarrow> holder \<noteq> HOLDER_KERNEL
        \<and> pending entries' = add_mset (holder, handle) (pending entries)
    | (Inl e, entries') \<Rightarrow> entries' = entries
        \<and> (if e = KernelHolder then holder = HOLDER_KERNEL else size (pending entries) = length entries)"
  proof (cases "position (\<lambda>e. e = None) entries")
    case None
    then have "filter_mset (\<lambda>e. e \<noteq> None) (mset entries) = mset entries"
      by (auto simp: position_None filter_mset_eq_conv)
    then have "size (pending entries) = length entries" by (simp add: pending_def)
    with None show ?thesis by (simp add: bootstrap_register_def)
  next
    case (Some i)
    then have i: "i < length entries" "entries ! i = None" by (auto dest: position_SomeD)
    with Some pending_update [OF i(1), of "Some (holder, handle)"] show ?thesis
      by (simp add: bootstrap_register_def)
  qed
  show "case bootstrap_claim entries holder of
        (Some h, entries') \<Rightarrow> (holder, h) \<in># pending entries
          \<and> pending entries' = pending entries - {#(holder, h)#}
      | (None, entries') \<Rightarrow> entries' = entries \<and> (\<forall>h. (holder, h) \<notin># pending entries)"
  proof (cases "position (entry_for holder) entries")
    case None
    then have "Some (holder, h) \<notin> set entries" for h
      by (auto simp: position_None entry_for_def)
    with None show ?thesis by (simp add: bootstrap_claim_def pending_member)
  next
    case (Some i)
    then have i: "i < length entries" "entry_for holder (entries ! i)" by (auto dest: position_SomeD)
    then obtain h where h: "entries ! i = Some (holder, h)"
      by (auto simp: entry_for_def split: option.splits)
    then have "Some (holder, h) \<in> set entries" using i(1) nth_mem by metis
    with Some h pending_update [OF i(1), of None] show ?thesis
      by (simp add: bootstrap_claim_def pending_member)
  qed
qed

section \<open>Audited authorization\<close>

text \<open>
  C12 (functional). Every authorization of the current process leaves exactly one audit event, and
  the decision does not depend on the log: the result is the table's decision on the decoded handle,
  and the newest retained event carries the process, the requested rights, the log's next sequence
  number and an outcome that is allowed exactly when the call is.
\<close>

theorem authorize_current_audited:
  assumes "ring_wf log"
    and "authorize_current echo t log (Some holder) raw resource required = (result, line, log')"
  shows "result = rbind (handle_decode raw) (\<lambda>h. table_authorize t holder h resource required)
    \<and> (\<exists>e. contents log' = last_n (log_capacity log) (contents log @ [e])
         \<and> ev_sequence e = al_next_sequence log \<and> ev_actor e = holder \<and> ev_requested e = required
         \<and> (ev_class e, ev_resource_id e) = (res_class resource, res_id resource)
         \<and> ev_outcome e = (case result of Inr _ \<Rightarrow> outcome_allowed | Inl err \<Rightarrow> outcome_denied err))"
proof -
  have res: "result = authorize_decoded t holder raw resource required"
    using assms(2) by (simp add: authorize_current_def Let_def split: prod.splits)
  obtain ar depth where ad: "(case result of Inr r \<Rightarrow> (rec_resource r, prov_depth (rec_provenance r))
                              | Inl _ \<Rightarrow> (resource, 0)) = (ar, depth)"
    by (cases "case result of Inr r \<Rightarrow> (rec_resource r, prov_depth (rec_provenance r)) | Inl _ \<Rightarrow> (resource, 0)")
  have ar: "ar = resource"
    using ad res by (auto simp: authorize_decoded_def result_simps table_authorize_Inr split: sum.splits)
  let ?e = "event_for 0 holder ar required (decode_or_invalid raw) depth (rbind result (\<lambda>_. Inr ()))"
  have "log' = log_record log ?e"
    using assms(2) ad res by (simp add: authorize_current_def record_decision_def Let_def)
  with contents_record [OF assms(1), of ?e]
  have "contents log' = last_n (log_capacity log)
      (contents log @ [?e\<lparr>ev_sequence := al_next_sequence log\<rparr>])" by simp
  then show ?thesis
    using res ar by (auto simp: event_for_def authorize_decoded_def split: sum.splits)
qed

theorem authorize_current_audited_witness:
  "fst (authorize_current False sample_table (log_new 2) (Some 10) (handle_encode sample_handle)
          (resource_object 42) READ) = Inr sample_record"
proof -
  let ?c = "authorize_current False sample_table (log_new 2) (Some 10) (handle_encode sample_handle)
          (resource_object 42) READ"
  obtain result line log' where c: "?c = (result, line, log')" by (cases ?c)
  have "handle_decode (handle_encode sample_handle) = Inr sample_handle"
    using handle_encode_high [of sample_handle] handle_encode_slot [of sample_handle]
      handle_encode_generation [of sample_handle]
    by (simp add: handle_decode_def Let_def sample_handle_def)
  moreover have "table_authorize sample_table 10 sample_handle (resource_object 42) READ = Inr sample_record"
    by (simp add: table_authorize_Inr sample_defs capacity_make)
  ultimately show ?thesis
    using authorize_current_audited [OF ring_wf_new [of 2] c] by (simp add: c)
qed

end
