(* ===== verification/Port_Transfer.thy ===== *)
theory Port_Transfer
  imports Cap_Tree
begin

text \<open>
  Capabilities that travel with a port request (\<open>port/src/transfer.rs\<close>, \<open>port/src/effects.rs\<close>). A
  SEND may carry one shared-buffer capability: \<open>validate\<close> checks it against the table and against the
  attestation of the buffer, \<open>install_child\<close> installs a read-only child for the server of the port, and
  \<open>release_child\<close> takes an undelivered child back. The lemmas show what the two do to the table: a
  transfer adds exactly one read-only authority, a refused one adds none, and taking a child back ends
  that child's authority only.
\<close>

section \<open>Shared buffer identities and errors\<close>

text \<open>
  A shared buffer identity is the checked 64-bit value itself (\<open>native-abi/src/shared_buffer.rs\<close>).
\<close>

datatype shared_buffer_id_error = InvalidGeneration | ReservedBitsSet

type_synonym shared_buffer_id = u64

definition buffer_id_new :: "u16 \<Rightarrow> u32 \<Rightarrow> shared_buffer_id_error + shared_buffer_id" where
  "buffer_id_new slot generation =
     (if generation = 0 then Inl InvalidGeneration
      else Inr (ucast slot OR push_bit 16 (ucast generation)))"

definition buffer_id_decode :: "u64 \<Rightarrow> shared_buffer_id_error + shared_buffer_id" where
  "buffer_id_decode raw =
     (if raw AND 0xffff000000000000 \<noteq> 0 then Inl ReservedBitsSet
      else let generation = ucast (drop_bit 16 raw) :: u32 in
        if generation = 0 then Inl InvalidGeneration else Inr raw)"

datatype port_error =
    PortInvalid
  | PortDenied
  | PortStale
  | PortNoSpace
  | PortWouldBlock
  | PortPeerClosed
  | PortRefused

fun capability_error :: "cap_error \<Rightarrow> port_error" where
  "capability_error InvalidHandle = PortInvalid"
| "capability_error InvalidRights = PortInvalid"
| "capability_error StaleHandle = PortStale"
| "capability_error RevokedError = PortStale"
| "capability_error UnauthorizedHolder = PortDenied"
| "capability_error WrongResource = PortDenied"
| "capability_error MissingRight = PortDenied"
| "capability_error RightsWidening = PortDenied"
| "capability_error NotDelegable = PortDenied"
| "capability_error DelegationDepthExceeded = PortNoSpace"
| "capability_error CapacityExhausted = PortNoSpace"
| "capability_error GenerationExhausted = PortNoSpace"

definition attestation_error :: "u64 \<Rightarrow> port_error" where
  "attestation_error status =
     (if status = SYSCALL_EINVAL then PortInvalid
      else if status = SYSCALL_EACCES then PortDenied
      else if status = SYSCALL_ENOSPC then PortNoSpace
      else PortStale)"

section \<open>Effects of one operation\<close>

record port_key =
  pk_slot :: u8
  pk_generation :: u32

type_synonym connection_id = u64

datatype 'b port_effect =
    WakeServer port_key
  | WakeSendSpace port_key
  | WakeConnection connection_id
  | Signal 'b u32

definition EFFECTS_CAPACITY :: nat where
  "EFFECTS_CAPACITY = 32"

definition REVOKED_TRANSFERS_CAPACITY :: nat where
  "REVOKED_TRANSFERS_CAPACITY = 16"

record 'b effects =
  eff_items :: "'b port_effect option list"
  eff_len :: nat
  eff_revoked :: "resource_ref option list"
  eff_revoked_len :: nat
  eff_overflowed :: bool

definition effects_new :: "'b effects" where
  "effects_new = \<lparr>eff_items = replicate EFFECTS_CAPACITY None, eff_len = 0,
                  eff_revoked = replicate REVOKED_TRANSFERS_CAPACITY None, eff_revoked_len = 0,
                  eff_overflowed = False\<rparr>"

text \<open>The iterators skip empty entries of the used prefix.\<close>

definition effects_iter :: "'b effects \<Rightarrow> 'b port_effect list" where
  "effects_iter e = List.map_filter (\<lambda>x. x) (take (eff_len e) (eff_items e))"

definition revoked_transfers :: "'b effects \<Rightarrow> resource_ref list" where
  "revoked_transfers e = List.map_filter (\<lambda>x. x) (take (eff_revoked_len e) (eff_revoked e))"

definition effects_push :: "'b effects \<Rightarrow> 'b port_effect \<Rightarrow> 'b effects" where
  "effects_push e effect =
     (if effect \<in> set (effects_iter e) then e
      else if eff_len e < length (eff_items e)
      then e\<lparr>eff_items := (eff_items e)[eff_len e := Some effect], eff_len := eff_len e + 1\<rparr>
      else e\<lparr>eff_overflowed := True\<rparr>)"

definition note_revoked :: "'b effects \<Rightarrow> resource_ref \<Rightarrow> 'b effects" where
  "note_revoked e resource =
     (if resource \<in> set (revoked_transfers e) then e
      else if eff_revoked_len e < length (eff_revoked e)
      then e\<lparr>eff_revoked := (eff_revoked e)[eff_revoked_len e := Some resource],
             eff_revoked_len := eff_revoked_len e + 1\<rparr>
      else e\<lparr>eff_overflowed := True\<rparr>)"

section \<open>Transfers\<close>

text \<open>
  The attestation of the buffer, computed by the caller, is a field of the transfer: the identity and
  length of the live buffer, or a native status.
\<close>

record transfer =
  tr_handle :: cap_handle
  tr_attestation :: "u64 + shared_buffer_id \<times> u64"

definition TRANSFER_CHILD_RIGHTS :: rights where
  "TRANSFER_CHILD_RIGHTS = READ"

record validated_transfer =
  vt_parent :: cap_record
  vt_provenance :: provenance
  vt_buffer :: shared_buffer_id
  vt_byte_len :: u64

record transferred_cap =
  tc_handle :: u64
  tc_buffer_id :: u64
  tc_byte_len :: u64
  tc_rights :: u32
  tc_class :: u8

definition transfer_validate ::
  "cap_table \<Rightarrow> holder_id \<Rightarrow> transfer \<Rightarrow> port_error + validated_transfer" where
  "transfer_validate t sender tr =
     (let handle = tr_handle tr in
      rbind (map_err capability_error (record_of t handle)) (\<lambda>parent.
      if rec_holder parent \<noteq> sender \<or> res_class (rec_resource parent) \<noteq> SharedBuffer
      then Inl PortDenied
      else
        rbind (map_err capability_error
                 (validate_delegation parent handle sender TRANSFER_CHILD_RIGHTS)) (\<lambda>_.
        rbind (map_err (\<lambda>_. PortInvalid) (buffer_id_decode (res_id (rec_resource parent)))) (\<lambda>buffer.
        rbind (map_err attestation_error (tr_attestation tr)) (\<lambda>(attested, byte_len).
        if attested \<noteq> buffer then Inl PortStale
        else
          rbind (map_err capability_error (child_of handle (rec_provenance parent))) (\<lambda>prov.
          Inr \<lparr>vt_parent = parent, vt_provenance = prov, vt_buffer = buffer,
               vt_byte_len = byte_len\<rparr>))))))"

definition has_installable_slot :: "cap_table \<Rightarrow> bool" where
  "has_installable_slot t \<longleftrightarrow>
     list_ex (\<lambda>slot. state_at t slot = Empty \<and> rec_generation (record_at t slot) \<noteq> - 1)
       [0..<capacity t]"

definition child_record :: "holder_id \<Rightarrow> validated_transfer \<Rightarrow> cap_record" where
  "child_record server v =
     \<lparr>rec_state = Live, rec_holder = server, rec_resource = rec_resource (vt_parent v),
      rec_rights = TRANSFER_CHILD_RIGHTS, rec_provenance = vt_provenance v, rec_generation = 0\<rparr>"

definition install_child ::
  "cap_table \<Rightarrow> holder_id \<Rightarrow> validated_transfer \<Rightarrow> (port_error + transferred_cap) \<times> cap_table" where
  "install_child t server v =
     (let t1 = (if has_installable_slot t then t else snd (release_revoked t)) in
      if \<not> has_installable_slot t1 then (Inl PortNoSpace, t1)
      else
        (case install t1 (child_record server v) of
           (Inl e, t2) \<Rightarrow> (Inl (capability_error e), t2)
         | (Inr child, t2) \<Rightarrow>
             (Inr \<lparr>tc_handle = handle_encode child, tc_buffer_id = vt_buffer v,
                   tc_byte_len = vt_byte_len v, tc_rights = TRANSFER_CHILD_RIGHTS,
                   tc_class = class_as_u8 SharedBuffer\<rparr>, t2)))"

definition release_child ::
  "cap_table \<Rightarrow> transferred_cap \<Rightarrow> 'b effects \<Rightarrow> cap_table \<times> 'b effects" where
  "release_child t child e =
     (case handle_decode (tc_handle child) of
        Inl _ \<Rightarrow> (t, e)
      | Inr handle \<Rightarrow>
          (case record_of t handle of
             Inl _ \<Rightarrow> (t, e)
           | Inr record \<Rightarrow>
               let slot = unat (h_slot handle);
                   t1 = snd (revoke_slot t slot);
                   t2 = snd (release_slot t1 slot)
               in (t2, note_revoked e (rec_resource record))))"

section \<open>Installing a child\<close>

lemma installable_install:
  assumes "has_installable_slot t" and "capacity t \<le> 65536"
    and "validate_rights (res_class (rec_resource r)) (rec_rights r) = Inr u"
  shows "\<exists>h t'. install t r = (Inr h, t')"
proof -
  obtain res t1 where p: "pick_empty_slot t = (res, t1)" by (cases "pick_empty_slot t")
  note spec = pick_empty_slot_spec [OF p]
  from assms(1) obtain i where i: "i < capacity t" "rec_state (slots t ! i) = Empty"
    "rec_generation (slots t ! i) \<noteq> - 1"
    by (auto simp: has_installable_slot_def list_ex_iff state_at_def record_at_def split: if_splits)
  then have "rec_state (slots t1 ! i) = Empty" using spec(3) [of i] by (auto simp: slot_scanned_def)
  with spec(5) [of i] i(1) obtain slot g where res: "res = Inr (slot, g)" by (cases res) auto
  with spec(4) assms(2) have "slot < 65536" by (simp add: scan_result_ok_def)
  then show ?thesis using assms(3) p res by (simp add: install_def slot_as_u16_def Let_def)
qed

lemma buffer_id_decode_Inr: "buffer_id_decode raw = Inr b \<Longrightarrow> b = raw"
  by (auto simp: buffer_id_decode_def Let_def split: if_splits)

lemma transfer_validateE:
  assumes "transfer_validate t sender tr = Inr v"
  obtains "record_of t (tr_handle tr) = Inr (vt_parent v)" "rec_holder (vt_parent v) = sender"
    "rec_state (vt_parent v) = Live" "res_class (rec_resource (vt_parent v)) = SharedBuffer"
    "is_subset_of DELEGATE (rec_rights (vt_parent v))" "is_subset_of READ (rec_rights (vt_parent v))"
    "tr_attestation tr = Inr (vt_buffer v, vt_byte_len v)"
    "vt_buffer v = res_id (rec_resource (vt_parent v))"
    "child_of (tr_handle tr) (rec_provenance (vt_parent v)) = Inr (vt_provenance v)"
  using assms that
  by (auto simp: transfer_validate_def Let_def result_simps map_err_Inr validate_delegation_Inr
      TRANSFER_CHILD_RIGHTS_def split: if_splits prod.splits dest!: buffer_id_decode_Inr)

lemma child_record_simps [simp]:
  "rec_holder (child_record server v) = server" "rec_rights (child_record server v) = READ"
  "rec_resource (child_record server v) = rec_resource (vt_parent v)"
  "rec_provenance (child_record server v) = vt_provenance v"
  by (simp_all add: child_record_def TRANSFER_CHILD_RIGHTS_def)

lemma child_rights_valid: "validate_rights SharedBuffer READ = Inr ()"
  by (simp add: validate_rights_def rights_consts rights_empty_def is_subset_of_def)

text \<open>The table in which the child is installed: the given one, or the reclaimed one if it is full.\<close>

definition reclaimed :: "cap_table \<Rightarrow> cap_table" where
  "reclaimed t = (if has_installable_slot t then t else snd (release_revoked t))"

lemma reclaimed_keeps:
  "table_wf t \<Longrightarrow> table_wf (reclaimed t)" "tree_wf t \<Longrightarrow> tree_wf (reclaimed t)"
  "table_authorize (reclaimed t) a h re ri = Inr r \<longleftrightarrow> table_authorize t a h re ri = Inr r"
  "live t i \<Longrightarrow> slots (reclaimed t) ! i = slots t ! i" "capacity (reclaimed t) = capacity t"
  by (auto simp: reclaimed_def table_wf_release_revoked tree_wf_release_revoked
      release_revoked_authorize release_revoked_slots)

text \<open>A validated transfer fails only for lack of a slot, and then only revoked slots were reclaimed.\<close>

lemma install_child_cases:
  assumes "table_wf t" and "transfer_validate t sender tr = Inr v"
  obtains (full) "install_child t server v = (Inl PortNoSpace, snd (release_revoked t))"
      "\<not> has_installable_slot t" "\<not> has_installable_slot (snd (release_revoked t))"
  | (installed) ch t' where "install (reclaimed t) (child_record server v) = (Inr ch, t')"
      "install_child t server v
         = (Inr \<lparr>tc_handle = handle_encode ch, tc_buffer_id = vt_buffer v, tc_byte_len = vt_byte_len v,
                 tc_rights = READ, tc_class = class_as_u8 SharedBuffer\<rparr>, t')"
proof (cases "has_installable_slot (reclaimed t)")
  case False
  then show thesis using full by (auto simp: install_child_def reclaimed_def Let_def split: if_splits)
next
  case True
  from transfer_validateE [OF assms(2)] have "res_class (rec_resource (vt_parent v)) = SharedBuffer" by blast
  with installable_install [OF True, of "child_record server v"] child_rights_valid
    table_wfD(1) [OF reclaimed_keeps(1) [OF assms(1)]]
  obtain ch t' where i: "install (reclaimed t) (child_record server v) = (Inr ch, t')" by auto
  with True have "install_child t server v
         = (Inr \<lparr>tc_handle = handle_encode ch, tc_buffer_id = vt_buffer v, tc_byte_len = vt_byte_len v,
                 tc_rights = READ, tc_class = class_as_u8 SharedBuffer\<rparr>, t')"
    by (simp add: install_child_def reclaimed_def [symmetric] TRANSFER_CHILD_RIGHTS_def)
  with i show thesis by (rule installed)
qed

lemma installed_handle:
  assumes "table_wf t" and "install t r = (Inr h, t')"
  shows "h_generation h \<noteq> 0" and "handle_decode (handle_encode h) = Inr h"
proof -
  show nz: "h_generation h \<noteq> 0"
    using install_Inr(3) [OF assms(2) table_wfD(1) [OF assms(1)]] generation_next_nonzero by blast
  then show "handle_decode (handle_encode h) = Inr h" by (simp add: handle_decode_encode)
qed

text \<open>
  C38 (safety). A capability sent with a request only attenuates. Once the transfer has been
  validated, the sender is known to hold the capability with the right to delegate it and it names
  the very shared buffer that was attested; then either the server gains exactly the right to read
  that buffer, under a handle no one could use before, and every other authorization is decided as
  before, or no slot is left, the request is refused with \<open>NoSpace\<close> and no authorization changes.
\<close>

theorem transfer_attenuates:
  assumes "table_wf t" and "transfer_validate t sender tr = Inr v"
    and "install_child t server v = (res, t')"
  shows "table_authorize t sender (tr_handle tr) (rec_resource (vt_parent v)) DELEGATE = Inr (vt_parent v)
    \<and> tr_attestation tr = Inr (res_id (rec_resource (vt_parent v)), vt_byte_len v)
    \<and> (case res of
         Inl e \<Rightarrow> e = PortNoSpace \<and> t' = snd (release_revoked t)
           \<and> (\<forall>a h re ri r. table_authorize t' a h re ri = Inr r \<longleftrightarrow> table_authorize t a h re ri = Inr r)
       | Inr c \<Rightarrow> \<exists>ch. handle_decode (tc_handle c) = Inr ch
           \<and> (\<forall>a re ri. \<not> is_ok (table_authorize t a ch re ri)
                \<and> (is_ok (table_authorize t' a ch re ri)
                     \<longleftrightarrow> a = server \<and> re = rec_resource (vt_parent v) \<and> is_subset_of ri READ))
           \<and> (\<forall>a h re ri r. h \<noteq> ch \<longrightarrow>
                (table_authorize t' a h re ri = Inr r \<longleftrightarrow> table_authorize t a h re ri = Inr r)))"
proof -
  have "table_authorize t sender (tr_handle tr) (rec_resource (vt_parent v)) DELEGATE = Inr (vt_parent v)
      \<and> tr_attestation tr = Inr (res_id (rec_resource (vt_parent v)), vt_byte_len v)"
    using assms(2) by (rule transfer_validateE) (auto simp: table_authorize_Inr record_of_Inr)
  moreover note wf = reclaimed_keeps(1) [OF assms(1)]
  show ?thesis
    using assms(1,2)
  proof (cases rule: install_child_cases [where server = server])
    case full
    with assms(3) calculation show ?thesis by (auto simp: release_revoked_authorize)
  next
    case (installed ch t1)
    note spec = install_Inr [OF installed(1) table_wfD(1) [OF wf]]
    have new: "\<not> is_ok (table_authorize t a ch re ri)
        \<and> (is_ok (table_authorize t1 a ch re ri)
             \<longleftrightarrow> a = server \<and> re = rec_resource (vt_parent v) \<and> is_subset_of ri READ)" for a re ri
      using spec(1,2,4,6) reclaimed_keeps(4) [of "unat (h_slot ch)" t]
      by (auto simp: is_ok_iff table_authorize_Inr)
    have "table_authorize t1 a h re ri = Inr r \<longleftrightarrow> table_authorize t a h re ri = Inr r"
      if "h \<noteq> ch" for a h re ri r
      using install_authority(2) [OF wf installed(1) that] reclaimed_keeps(3) by simp
    with new installed_handle(2) [OF wf installed(1)] installed(2) assms(3) calculation
    show ?thesis by auto
  qed
qed

text \<open>Holder 10 owns the shared buffer of slot 1, generation 1, and sends it to the server 20.\<close>

definition buffer_record :: cap_record where
  "buffer_record = \<lparr>rec_state = Live, rec_holder = 10, rec_resource = resource_shared_buffer 65537,
     rec_rights = READ OR DELEGATE, rec_provenance = provenance_root 10, rec_generation = 1\<rparr>"

definition buffer_table :: cap_table where
  "buffer_table = \<lparr>slots = [buffer_record, RECORD_EMPTY], live_count = 1\<rparr>"

definition buffer_transfer :: transfer where
  "buffer_transfer = \<lparr>tr_handle = \<lparr>h_slot = 0, h_generation = 1\<rparr>, tr_attestation = Inr (65537, 4096)\<rparr>"

definition buffer_validated :: validated_transfer where
  "buffer_validated = \<lparr>vt_parent = buffer_record,
     vt_provenance = \<lparr>prov_parent = Some \<lparr>h_slot = 0, h_generation = 1\<rparr>, prov_depth = 1, root_holder = 10\<rparr>,
     vt_buffer = 65537, vt_byte_len = 4096\<rparr>"

lemma buffer_table_wf: "table_wf buffer_table" "tree_wf buffer_table"
  by (simp_all add: table_wf_def record_wf_def tree_wf_def linked_def buffer_table_def buffer_record_def
      table_eval resource_shared_buffer_def)

lemma buffer_validate: "transfer_validate buffer_table 10 buffer_transfer = Inr buffer_validated"
  by (simp add: transfer_validate_def buffer_transfer_def buffer_validated_def buffer_table_def
      buffer_record_def record_of_def resource_shared_buffer_def table_eval validate_delegation_def
      authorize_def rights_intersects_def TRANSFER_CHILD_RIGHTS_def buffer_id_decode_def child_of_def
      checked_add_def ok_or_def MAX_DELEGATION_DEPTH_def)

lemma buffer_install:
  "\<exists>c t'. install_child buffer_table 20 buffer_validated = (Inr c, t')"
  by (simp add: install_child_def has_installable_slot_def buffer_table_def buffer_record_def
      state_at_def record_at_def child_record_def buffer_validated_def install_def
      TRANSFER_CHILD_RIGHTS_def resource_shared_buffer_def table_eval upt_rec)

theorem transfer_attenuates_witness:
  "\<exists>ch. is_ok (table_authorize (snd (install_child buffer_table 20 buffer_validated)) 20 ch
                (resource_shared_buffer 65537) READ)
      \<and> \<not> is_ok (table_authorize (snd (install_child buffer_table 20 buffer_validated)) 20 ch
                (resource_shared_buffer 65537) WRITE)"
proof -
  obtain c t' where i: "install_child buffer_table 20 buffer_validated = (Inr c, t')"
    using buffer_install by blast
  from transfer_attenuates [OF buffer_table_wf(1) buffer_validate i] obtain ch where
    "is_ok (table_authorize t' a ch re ri)
       \<longleftrightarrow> a = 20 \<and> re = rec_resource (vt_parent buffer_validated) \<and> is_subset_of ri READ" for a re ri
    by auto
  moreover have "rec_resource (vt_parent buffer_validated) = resource_shared_buffer 65537"
    by (simp add: buffer_validated_def buffer_record_def)
  moreover have "is_subset_of READ READ" "\<not> is_subset_of WRITE READ"
    by (simp_all add: is_subset_of_def rights_consts)
  ultimately show ?thesis by (intro exI [of _ ch]) (simp add: i)
qed

section \<open>Taking a child back\<close>

text \<open>
  Revoking a slot and releasing it at once; this is what the kernel does with a child it takes back.
\<close>

definition drop_slot :: "cap_table \<Rightarrow> nat \<Rightarrow> cap_table" where
  "drop_slot t slot = snd (release_slot (snd (revoke_slot t slot)) slot)"

lemma capacity_drop_slot [simp]: "capacity (drop_slot t k) = capacity t"
  by (simp add: drop_slot_def)

lemma drop_slot_other: "i \<noteq> k \<Longrightarrow> slots (drop_slot t k) ! i = slots t ! i"
  by (simp add: drop_slot_def slots_release_slot slots_revoke_slot)

lemma drop_slot_live: "live (drop_slot t k) i \<longleftrightarrow> live t i \<and> i \<noteq> k"
proof (cases "i = k")
  case True
  show ?thesis
    by (cases "rec_state (slots t ! k)")
       (auto simp: True drop_slot_def slots_release_slot slots_revoke_slot released_def
         RECORD_EMPTY_def split: option.splits)
qed (simp add: drop_slot_other)

lemma run_drop_slot: "table_run t (drop_slot t k)"
  unfolding drop_slot_def by (rule rtranclp_trans [OF run_revoke_slot run_release_slot])

lemma tree_wf_drop_slot:
  assumes "tree_wf t" and "\<And>j. \<not> parent_rel t k j"
  shows "tree_wf (drop_slot t k)"
proof (rule tree_wf_restrict [OF assms(1)])
  fix i assume "live (drop_slot t k) i"
  then show "slots (drop_slot t k) ! i = slots t ! i"
    using drop_slot_live drop_slot_other by blast
next
  fix i j assume "parent_rel t i j"
  with assms show "live (drop_slot t k) i" unfolding drop_slot_live by (auto elim: parent_relE)
qed simp

lemma release_child_resolving:
  assumes "handle_decode (tc_handle c) = Inr h" and "record_of t h = Inr r"
  shows "release_child t c e = (drop_slot t (unat (h_slot h)), note_revoked e (rec_resource r))"
  using assms by (simp add: release_child_def drop_slot_def Let_def)

lemma drop_slot_authorize:
  assumes "record_of t h = Inr q"
  shows "table_authorize (drop_slot t (unat (h_slot h))) a g re ri = Inr r
    \<longleftrightarrow> table_authorize t a g re ri = Inr r \<and> g \<noteq> h"
proof (cases "unat (h_slot g) = unat (h_slot h)")
  case True
  then have "h_slot g = h_slot h" by (simp add: word_unat_eq_iff)
  moreover have "\<not> live (drop_slot t (unat (h_slot h))) (unat (h_slot h))" by (simp only: drop_slot_live) simp
  ultimately show ?thesis
    using True assms by (cases g; cases h) (auto simp: table_authorize_Inr record_of_Inr)
next
  case False
  then show ?thesis by (auto simp: table_authorize_Inr drop_slot_other)
qed

end
