(* ===== verification/Cap_Space.thy ===== *)
theory Cap_Space
  imports Cap_Kernel Port_Transfer
begin

text \<open>
  The kernel's global capability space and everything that changes it: root grants with the hand-off
  to a new process, the delegation syscall with its rollback (\<open>kernel/src/capability/delegation.rs\<close>,
  \<open>object.rs\<close>), the revocations, fork, and the capabilities that travel with port requests. The space
  is the table together with the transferred children that no server has received yet. Its invariant
  says that the provenance of the live records is a forest and that an undelivered child is a leaf of
  it, which is why the kernel may take such a child back without walking its subtree.
\<close>

section \<open>Hand-off and rollback\<close>

definition rollback_installed_child :: "cap_table \<Rightarrow> cap_handle \<Rightarrow> cap_table" where
  "rollback_installed_child t child =
     (let slot = unat (h_slot child) in
      case revoke t child of
        (Inr _, t') \<Rightarrow> snd (release_slot t' slot)
      | (Inl _, t') \<Rightarrow> t')"

definition rollback_installed_capability :: "cap_table \<Rightarrow> cap_handle \<Rightarrow> cap_table" where
  "rollback_installed_capability t handle =
     (let slot = unat (h_slot handle) in
      case revoke t handle of
        (Inr _, t') \<Rightarrow> snd (release_slot t' slot)
      | (Inl _, t') \<Rightarrow> t')"

text \<open>
  The delegation syscall over the registers \<open>rsi\<close>, \<open>rdx\<close> and \<open>r10\<close>; the result is the value of \<open>rax\<close>.
  \<open>alive\<close> is the process registry's answer, \<open>current\<close> the trusted identity of the caller.
\<close>

definition is_live_userspace_process :: "(u64 \<Rightarrow> bool) \<Rightarrow> u64 \<Rightarrow> bool" where
  "is_live_userspace_process alive pid = (if pid = HOLDER_KERNEL then False else alive pid)"

definition handle_delegate ::
  "(u64 \<Rightarrow> bool) \<Rightarrow> holder_id option \<Rightarrow> u64 \<Rightarrow> u64 \<Rightarrow> u64 \<Rightarrow> bootstrap_table \<Rightarrow> cap_table
     \<Rightarrow> u64 \<times> bootstrap_table \<times> cap_table" where
  "handle_delegate alive current rsi rdx r10 grants t =
     (case current of
        None \<Rightarrow> (SYSCALL_EACCES, grants, t)
      | Some source \<Rightarrow>
     (case handle_decode rsi of
        Inl e \<Rightarrow> (syscall_status e, grants, t)
      | Inr parent \<Rightarrow>
          if \<not> is_live_userspace_process alive rdx then (SYSCALL_EINVAL, grants, t)
          else
     (case rights_from_bits (ucast r10) of
        None \<Rightarrow> (SYSCALL_EINVAL, grants, t)
      | Some rights \<Rightarrow>
     (case delegate t source parent rdx rights of
        (Inl e, t1) \<Rightarrow> (syscall_status e, grants, t1)
      | (Inr child, t1) \<Rightarrow>
     (case delegation_depth t1 child of
        Inl e \<Rightarrow> (syscall_status e, grants, rollback_installed_child t1 child)
      | Inr depth \<Rightarrow>
     (case bootstrap_register grants rdx child of
        (Inl _, grants') \<Rightarrow> (SYSCALL_ENOSPC, grants', rollback_installed_child t1 child)
      | (Inr _, grants') \<Rightarrow> (handle_encode child, grants', t1)))))))"

definition register_pending_bootstrap_grant ::
  "bootstrap_table \<Rightarrow> cap_table \<Rightarrow> holder_id \<Rightarrow> u64 \<Rightarrow> rights
     \<Rightarrow> (cap_error + unit) \<times> bootstrap_table \<times> cap_table" where
  "register_pending_bootstrap_grant grants t holder object_id rights =
     (case grant_root t holder (resource_object object_id) rights of
        (Inl e, t1) \<Rightarrow> (Inl e, grants, t1)
      | (Inr handle, t1) \<Rightarrow>
          (case bootstrap_register grants holder handle of
             (Inl _, grants') \<Rightarrow>
               (Inl CapacityExhausted, grants', rollback_installed_capability t1 handle)
           | (Inr _, grants') \<Rightarrow> (Inr (), grants', t1)))"

section \<open>The steps of the space\<close>

record cap_space =
  sp_table :: cap_table
  sp_undelivered :: "transferred_cap list"

definition space_new :: cap_space where
  "space_new = \<lparr>sp_table = table_new MAX_SLOTS, sp_undelivered = []\<rparr>"

text \<open>
  Every operation of the kernel that changes the global table. \<open>native\<close> is the execution personality
  of the processes, which the loader fixes when it creates one: only a Linux process can fork, and
  only a native process can serve a port. A forked child is a new process, so it is not its parent.
  What the hand-off table and the process registry hold is left open. The port engine keeps an
  undelivered child in the request that carries it: a SEND adds it, a receive hands it over, and
  closing the connection or tearing down the port takes it back.
\<close>

inductive cap_space_step :: "(holder_id \<Rightarrow> bool) \<Rightarrow> cap_space \<Rightarrow> cap_space \<Rightarrow> bool"
  for native :: "holder_id \<Rightarrow> bool" where
  space_grant: "cap_space_step native s
    (s\<lparr>sp_table := snd (grant_root (sp_table s) holder resource rights)\<rparr>)"
| space_register: "cap_space_step native s
    (s\<lparr>sp_table := snd (snd (register_pending_bootstrap_grant grants (sp_table s) holder i rights))\<rparr>)"
| space_delegate: "cap_space_step native s
    (s\<lparr>sp_table := snd (snd (handle_delegate alive current rsi rdx r10 grants (sp_table s)))\<rparr>)"
| space_revoke: "cap_space_step native s (s\<lparr>sp_table := snd (revoke_subtree (sp_table s) handle)\<rparr>)"
| space_holder: "cap_space_step native s
    (s\<lparr>sp_table := snd (revoke_holder_tree_visiting (sp_table s) holder)\<rparr>)"
| space_resource: "cap_space_step native s
    (s\<lparr>sp_table := snd (revoke_resource_tree (sp_table s) class i)\<rparr>)"
| space_fork: "\<not> native parent \<Longrightarrow> parent \<noteq> child \<Longrightarrow> cap_space_step native s
    (s\<lparr>sp_table := snd (inherit_capabilities_for_fork (sp_table s) parent child)\<rparr>)"
| space_send: "native server \<Longrightarrow> transfer_validate (sp_table s) sender tr = Inr v \<Longrightarrow>
    install_child (sp_table s) server v = (Inr c, t) \<Longrightarrow>
    cap_space_step native s \<lparr>sp_table = t, sp_undelivered = sp_undelivered s @ [c]\<rparr>"
| space_send_refused: "native server \<Longrightarrow> transfer_validate (sp_table s) sender tr = Inr v \<Longrightarrow>
    install_child (sp_table s) server v = (Inl e, t) \<Longrightarrow>
    cap_space_step native s (s\<lparr>sp_table := t\<rparr>)"
| space_receive: "cap_space_step native s (s\<lparr>sp_undelivered := remove1 c (sp_undelivered s)\<rparr>)"
| space_take_back: "c \<in> set (sp_undelivered s) \<Longrightarrow>
    cap_space_step native s
      \<lparr>sp_table = fst (release_child (sp_table s) c (e :: unit effects)),
       sp_undelivered = remove1 c (sp_undelivered s)\<rparr>"

section \<open>The invariant\<close>

text \<open>A parent in the forest that a native process holds carries the right to delegate.\<close>

definition leaves :: "(holder_id \<Rightarrow> bool) \<Rightarrow> cap_table \<Rightarrow> bool" where
  "leaves native t \<longleftrightarrow> (\<forall>i j. parent_rel t i j \<and> native (rec_holder (slots t ! i))
     \<longrightarrow> is_subset_of DELEGATE (rec_rights (slots t ! i)))"

text \<open>An undelivered child, as long as its handle resolves, is a native process's without that right.\<close>

definition in_flight :: "(holder_id \<Rightarrow> bool) \<Rightarrow> cap_table \<Rightarrow> transferred_cap \<Rightarrow> bool" where
  "in_flight native t c \<longleftrightarrow> (\<exists>h. handle_decode (tc_handle c) = Inr h
     \<and> unat (h_slot h) < capacity t \<and> h_generation h \<le> rec_generation (slots t ! unat (h_slot h))
     \<and> (\<forall>r. record_of t h = Inr r
          \<longrightarrow> native (rec_holder r) \<and> \<not> is_subset_of DELEGATE (rec_rights r)))"

definition table_inv :: "(holder_id \<Rightarrow> bool) \<Rightarrow> cap_table \<Rightarrow> bool" where
  "table_inv native t \<longleftrightarrow> table_wf t \<and> tree_wf t \<and> leaves native t"

definition space_inv :: "(holder_id \<Rightarrow> bool) \<Rightarrow> cap_space \<Rightarrow> bool" where
  "space_inv native s \<longleftrightarrow> table_inv native (sp_table s)
     \<and> (\<forall>c\<in>set (sp_undelivered s). in_flight native (sp_table s) c)"

lemma leavesD:
  "leaves native t \<Longrightarrow> parent_rel t i j \<Longrightarrow> native (rec_holder (slots t ! i))
     \<Longrightarrow> is_subset_of DELEGATE (rec_rights (slots t ! i))"
  unfolding leaves_def by blast

lemma in_flight_evolves:
  assumes "table_evolves t t'" and "in_flight native t c"
  shows "in_flight native t' c"
proof -
  from assms(2) obtain h where h: "handle_decode (tc_handle c) = Inr h" "unat (h_slot h) < capacity t"
    "h_generation h \<le> rec_generation (slots t ! unat (h_slot h))"
    "\<And>r. record_of t h = Inr r \<Longrightarrow> native (rec_holder r) \<and> \<not> is_subset_of DELEGATE (rec_rights r)"
    by (auto simp: in_flight_def)
  let ?r = "slots t ! unat (h_slot h)" and ?r' = "slots t' ! unat (h_slot h)"
  from assms(1) h(2) have ev: "capacity t' = capacity t" "slot_evolves ?r ?r'"
    by (auto simp: table_evolves_def)
  then have gen: "rec_generation ?r \<le> rec_generation ?r'" by (simp add: slot_evolves_def)
  have "native (rec_holder r') \<and> \<not> is_subset_of DELEGATE (rec_rights r')"
    if r': "record_of t' h = Inr r'" for r'
  proof -
    from r' have "r' = ?r'" "resolvable ?r'" "rec_generation ?r' = h_generation h"
      by (auto simp: record_of_Inr resolvable_def)
    moreover from this gen h(3) have "rec_generation ?r = h_generation h" by simp
    ultimately have "resolvable ?r" "same_capability ?r ?r'" "rec_generation ?r = h_generation h"
      using ev(2) by (auto simp: slot_evolves_def)
    moreover from this h(2) have "record_of t h = Inr ?r" by (auto simp: record_of_Inr resolvable_def)
    ultimately show ?thesis
      using h(4) [of ?r] \<open>r' = ?r'\<close> by (auto simp: same_capability_def intro: is_subset_of_trans)
  qed
  with h(1-3) ev(1) gen show ?thesis unfolding in_flight_def by (auto intro: order_trans)
qed

text \<open>A space whose table evolves into one that keeps the invariant keeps it as a whole.\<close>

lemma space_inv_evolves:
  assumes "space_inv native s" and "table_inv native t" and "table_evolves (sp_table s) t"
    and "set cs \<subseteq> set (sp_undelivered s)"
  shows "space_inv native \<lparr>sp_table = t, sp_undelivered = cs\<rparr>"
  using assms in_flight_evolves [OF assms(3)] by (auto simp: space_inv_def)

section \<open>Operations that only take away\<close>

definition shrinks :: "cap_table \<Rightarrow> cap_table \<Rightarrow> bool" where
  "shrinks t t' \<longleftrightarrow> table_evolves t t' \<and> (\<forall>i. live t' i \<longrightarrow> slots t' ! i = slots t ! i)"

lemma shrinks_refl: "shrinks t t"
  by (simp add: shrinks_def table_evolves_refl)

lemma shrinks_capacity: "shrinks t t' \<Longrightarrow> capacity t' = capacity t"
  by (simp add: shrinks_def table_evolves_def)

lemma shrinks_trans: "shrinks t t' \<Longrightarrow> shrinks t' t'' \<Longrightarrow> shrinks t t''"
  using shrinks_capacity [of t' t''] by (auto simp: shrinks_def intro: table_evolves_trans)

lemma shrinks_pruned:
  assumes "pruned t S t'"
  shows "shrinks t t'"
proof -
  have "slot_evolves (slots t ! i) (slots t' ! i)" if "i < capacity t" for i
    using pruned_nth [OF assms that] slot_evolves_revoked [of "slots t ! i"] by simp
  then show ?thesis
    using pruned_capacity [OF assms] pruned_kept [OF assms] by (auto simp: shrinks_def table_evolves_def)
qed

lemma shrinks_release_where: "shrinks t (release_where P t)"
  by (auto simp: shrinks_def table_evolves_def release_where_slots slot_evolves_released)

lemma shrinks_release_revoked: "shrinks t (snd (release_revoked t))"
  by (auto simp: shrinks_def table_evolves_def release_revoked_slots slot_evolves_released)

lemma shrinks_drop_slot: "table_wf t \<Longrightarrow> shrinks t (drop_slot t k)"
  using table_run_evolves [OF run_drop_slot] drop_slot_live drop_slot_other
  unfolding shrinks_def by blast

lemma leaves_shrinks:
  assumes "leaves native t" and "shrinks t t'" and "tree_wf t'"
  shows "leaves native t'"
  unfolding leaves_def
proof (intro allI impI, elim conjE)
  fix i j assume p: "parent_rel t' i j" and n: "native (rec_holder (slots t' ! i))"
  from p assms(3) have "live t' i" "live t' j" by (auto elim: parent_relE)
  with assms(2) have eq: "slots t' ! i = slots t ! i" "slots t' ! j = slots t ! j"
    by (simp_all add: shrinks_def)
  with p shrinks_capacity [OF assms(2)] have "parent_rel t i j" by (simp add: parent_rel_def)
  with assms(1) n show "is_subset_of DELEGATE (rec_rights (slots t' ! i))" by (auto simp: eq dest: leavesD)
qed

text \<open>\<open>keeps native t t'\<close>: from a table that satisfies the invariant, \<open>t'\<close> is a legal successor.\<close>

definition keeps :: "(holder_id \<Rightarrow> bool) \<Rightarrow> cap_table \<Rightarrow> cap_table \<Rightarrow> bool" where
  "keeps native t t' \<longleftrightarrow> (table_inv native t \<longrightarrow> table_inv native t' \<and> table_evolves t t')"

lemma keeps_refl: "keeps native t t"
  by (simp add: keeps_def table_evolves_refl)

lemma keeps_trans: "keeps native t t' \<Longrightarrow> keeps native t' t'' \<Longrightarrow> keeps native t t''"
  by (auto simp: keeps_def intro: table_evolves_trans)

lemma keeps_shrinks:
  assumes "table_wf t \<Longrightarrow> tree_wf t \<Longrightarrow> shrinks t t' \<and> table_wf t' \<and> tree_wf t'"
  shows "keeps native t t'"
  using assms leaves_shrinks [of native t t'] by (auto simp: keeps_def table_inv_def shrinks_def)

lemma keeps_release_revoked: "keeps native t (snd (release_revoked t))"
  by (rule keeps_shrinks)
     (simp add: shrinks_release_revoked table_wf_release_revoked tree_wf_release_revoked)

lemma keeps_revoke_subtree: "keeps native t (snd (revoke_subtree t h))"
proof (rule keeps_shrinks)
  assume wf: "table_wf t" and tree: "tree_wf t"
  have "shrinks t (snd (revoke_subtree t h))"
  proof (cases "record_of t h")
    case (Inl e)
    then show ?thesis by (simp add: revoke_subtree_def slot_for_handle_def shrinks_refl)
  next
    case (Inr r)
    from revoke_subtree_spec [OF wf tree this] show ?thesis by (metis shrinks_pruned snd_conv)
  qed
  with wf tree show "shrinks t (snd (revoke_subtree t h)) \<and> table_wf (snd (revoke_subtree t h))
      \<and> tree_wf (snd (revoke_subtree t h))"
    using table_run_wf [OF run_revoke_subtree] tree_wf_revoke_subtree by blast
qed

lemma shrinks_revoke_trees_where:
  assumes "table_wf t" and "tree_wf t" and "revoke_trees_where P t = (x, t')"
  shows "shrinks t (release_where Q t')"
proof -
  have "shrinks t t'" using revoke_trees_where_spec [OF assms(1,2), of P] assms(3) shrinks_pruned
    by (metis snd_conv)
  then show ?thesis using shrinks_release_where by (rule shrinks_trans)
qed

lemma keeps_revoke_holder_tree: "keeps native t (snd (revoke_holder_tree_visiting t ho))"
proof (rule keeps_shrinks)
  assume wf: "table_wf t" "tree_wf t"
  have "shrinks t (snd (revoke_holder_tree_visiting t ho))"
    by (auto simp: revoke_holder_tree_visiting_def split: prod.split intro: shrinks_revoke_trees_where [OF wf])
  with revoke_holder_tree_keeps [OF wf] show "shrinks t (snd (revoke_holder_tree_visiting t ho))
      \<and> table_wf (snd (revoke_holder_tree_visiting t ho)) \<and> tree_wf (snd (revoke_holder_tree_visiting t ho))"
    by blast
qed

lemma keeps_revoke_resource_tree: "keeps native t (snd (revoke_resource_tree t c i))"
proof (rule keeps_shrinks)
  assume wf: "table_wf t" "tree_wf t"
  have "shrinks t (snd (revoke_resource_tree t c i))"
    by (auto simp: revoke_resource_tree_def Let_def split: prod.split
        intro: shrinks_revoke_trees_where [OF wf])
  with revoke_resource_tree_keeps [OF wf] show "shrinks t (snd (revoke_resource_tree t c i))
      \<and> table_wf (snd (revoke_resource_tree t c i)) \<and> tree_wf (snd (revoke_resource_tree t c i))"
    by blast
qed

lemma keeps_drop_slot:
  assumes "\<And>j. \<not> parent_rel t k j"
  shows "keeps native t (drop_slot t k)"
  by (rule keeps_shrinks)
     (use assms table_run_wf [OF run_drop_slot] shrinks_drop_slot tree_wf_drop_slot in blast)

section \<open>Operations that install a record\<close>

lemma install_failed_shrinks:
  assumes "table_wf t" and "install t rc = (Inl e, t')"
  shows "shrinks t t'" and "tree_wf t \<Longrightarrow> tree_wf t'"
proof -
  note spec = install_Inl [OF assms(2) table_wfD(1) [OF assms(1)]]
  have live: "live t' i \<longleftrightarrow> live t i" "live t i \<Longrightarrow> slots t' ! i = slots t ! i" for i
    using slot_scanned_Live [OF spec(1) [of i]] slot_scanned_nonempty [OF spec(1) [of i]] spec(2) by auto
  show "shrinks t t'"
    using install_evolves [OF table_wfD(1) [OF assms(1)], of rc] assms(2) live by (auto simp: shrinks_def)
  show "tree_wf t'" if tree: "tree_wf t"
  proof (rule tree_wf_restrict [OF tree spec(2)])
    fix i j assume "parent_rel t i j"
    then have "live t i" using tree by (auto elim: parent_relE)
    then show "live t' i" using live(1) by blast
  qed (use live in blast)
qed

text \<open>
  A record may be installed below a parent if the parent is live, one level up, and is not held by a
  native process without the right to delegate.
\<close>

definition may_parent :: "(holder_id \<Rightarrow> bool) \<Rightarrow> cap_table \<Rightarrow> cap_record \<Rightarrow> bool" where
  "may_parent native t rc \<longleftrightarrow> linked t rc \<and> (\<forall>h p. prov_parent (rec_provenance rc) = Some h
     \<and> record_of t h = Inr p \<and> native (rec_holder p) \<longrightarrow> is_subset_of DELEGATE (rec_rights p))"

lemma may_parent_root: "may_parent native t \<lparr>rec_state = st, rec_holder = ho, rec_resource = re,
    rec_rights = ri, rec_provenance = provenance_root ho', rec_generation = g\<rparr>"
  by (simp add: may_parent_def provenance_root_def linked_def)

lemma keeps_install:
  assumes "may_parent native t rc"
  shows "keeps native t (snd (install t rc))"
  unfolding keeps_def
proof (intro impI conjI)
  assume inv: "table_inv native t"
  then have wf: "table_wf t" and tree: "tree_wf t" and lv: "leaves native t" by (simp_all add: table_inv_def)
  show "table_evolves t (snd (install t rc))" by (rule install_evolves [OF table_wfD(1) [OF wf]])
  have link: "linked t rc" using assms by (simp add: may_parent_def)
  have tree': "tree_wf (snd (install t rc))" by (rule tree_wf_install [OF wf tree link])
  obtain res t' where eq: "install t rc = (res, t')" by (cases "install t rc")
  have "leaves native t'"
  proof (cases res)
    case (Inl e)
    with eq wf tree lv install_failed_shrinks [of t rc e t'] show ?thesis by (auto intro: leaves_shrinks)
  next
    case (Inr ch)
    with eq have ins: "install t rc = (Inr ch, t')" by simp
    show ?thesis
      unfolding leaves_def
    proof (intro allI impI, elim conjE)
      fix i j assume p: "parent_rel t' i j" and n: "native (rec_holder (slots t' ! i))"
      from install_parent_rel [OF wf ins] p consider "parent_rel t i j"
        | h where "prov_parent (rec_provenance rc) = Some h" "unat (h_slot h) = i" by auto
      then show "is_subset_of DELEGATE (rec_rights (slots t' ! i))"
      proof cases
        case 1
        then have "live t i" using tree by (auto elim: parent_relE)
        then have "slots t' ! i = slots t ! i" using install_keeps(2) [OF wf, of i rc] ins by simp
        with 1 n lv show ?thesis by (simp add: leavesD)
      next
        case 2
        with link obtain q where q: "record_of t h = Inr q" "rec_state q = Live"
          by (auto simp: linked_def split: sum.splits)
        with 2 have "slots t ! i = q" by (auto simp: record_of_Inr)
        with q have "slots t' ! i = q" using install_keeps(2) [OF wf, of i rc] ins by simp
        with assms 2 q n show ?thesis by (auto simp: may_parent_def)
      qed
    qed
  qed
  with eq tree' table_wf_install [OF wf, of rc] show "table_inv native (snd (install t rc))"
    by (simp add: table_inv_def)
qed

lemma installed_childless:
  assumes "table_wf t" and "tree_wf t" and "linked t rc" and "install t rc = (Inr ch, t')"
  shows "record_of t' ch = Inr (installed_as rc (h_generation ch))"
    and "\<not> parent_rel t' (unat (h_slot ch)) j"
proof -
  show "record_of t' ch = Inr (installed_as rc (h_generation ch))"
    by (rule install_authority(1) [OF assms(1,4)])
  have "\<not> live t (unat (h_slot ch))"
    using install_Inr(2) [OF assms(4) table_wfD(1) [OF assms(1)]] by simp
  moreover have "live t i" if "parent_rel t i j" for i using that assms(2) by (auto elim: parent_relE)
  moreover have "live t (unat (h_slot h))" if "prov_parent (rec_provenance rc) = Some h" for h
    using assms(3) that by (auto simp: linked_def record_of_Inr split: sum.splits)
  ultimately show "\<not> parent_rel t' (unat (h_slot ch)) j"
    using install_parent_rel [OF assms(1,4)] by auto
qed

text \<open>Rolling back a record just installed is the same for both callers.\<close>

lemma rollback_resolving:
  assumes "record_of t h = Inr r"
  shows "rollback_installed_child t h = drop_slot t (unat (h_slot h))"
    and "rollback_installed_capability t h = drop_slot t (unat (h_slot h))"
proof -
  have "\<exists>b. revoke t h = (Inr b, snd (revoke_slot t (unat (h_slot h))))"
    using assms by (auto simp: revoke_def slot_index_def record_of_Inr Let_def split: prod.split)
  then show "rollback_installed_child t h = drop_slot t (unat (h_slot h))"
    and "rollback_installed_capability t h = drop_slot t (unat (h_slot h))"
    by (auto simp: rollback_installed_child_def rollback_installed_capability_def drop_slot_def Let_def)
qed

lemma keeps_rollback:
  assumes "install t rc = (Inr ch, t')" and "may_parent native t rc"
  shows "keeps native t (rollback_installed_child t' ch)"
    and "keeps native t (rollback_installed_capability t' ch)"
proof -
  have "keeps native t (rollback_installed_child t' ch) \<and> keeps native t (rollback_installed_capability t' ch)"
  proof (cases "table_inv native t")
    case True
    then have wf: "table_wf t" "tree_wf t" "linked t rc"
      using assms(2) by (simp_all add: table_inv_def may_parent_def)
    note new = installed_childless [OF wf assms(1)]
    have "keeps native t t'" using keeps_install [OF assms(2)] assms(1) by simp
    moreover have "keeps native t' (drop_slot t' (unat (h_slot ch)))" by (rule keeps_drop_slot [OF new(2)])
    ultimately show ?thesis
      unfolding rollback_resolving [OF new(1)] by (blast intro: keeps_trans)
  qed (simp add: keeps_def)
  then show "keeps native t (rollback_installed_child t' ch)"
    and "keeps native t (rollback_installed_capability t' ch)" by simp_all
qed

text \<open>A root grant installs into the table or, when it is full, into the reclaimed table.\<close>

lemma grant_root_installs:
  obtains t1 rc where "keeps native t t1" "may_parent native t1 rc"
    "grant_root t holder resource rights = install t1 rc"
proof -
  let ?rc = "\<lparr>rec_state = Live, rec_holder = holder, rec_resource = resource, rec_rights = rights,
              rec_provenance = provenance_root holder, rec_generation = 0\<rparr>"
  have eq: "grant s holder resource rights (provenance_root holder) = install s ?rc" for s
    by (rule grant_eq_install)
  obtain res t1 where ins: "install t ?rc = (res, t1)" by (cases "install t ?rc")
  show thesis
  proof (cases "res = Inl CapacityExhausted")
    case True
    have "keeps native t t1" using keeps_install [OF may_parent_root, of native t] ins by (metis snd_conv)
    then have "keeps native t (snd (release_revoked t1))" using keeps_release_revoked by (rule keeps_trans)
    moreover have "grant_root t holder resource rights = install (snd (release_revoked t1)) ?rc"
      using True ins by (simp add: grant_root_def eq)
    ultimately show thesis using may_parent_root that by blast
  next
    case False
    then have "grant_root t holder resource rights = install t ?rc"
      using ins by (cases res) (auto simp: grant_root_def eq)
    then show thesis using may_parent_root that keeps_refl by blast
  qed
qed

lemma keeps_grant_root: "keeps native t (snd (grant_root t holder resource rights))"
proof (rule grant_root_installs [of native t holder resource rights])
  fix t1 rc assume "keeps native t t1" and "may_parent native t1 rc"
    and eq: "grant_root t holder resource rights = install t1 rc"
  then have "keeps native t (snd (install t1 rc))" by (blast intro: keeps_trans keeps_install)
  then show ?thesis unfolding eq .
qed

lemma keeps_pending_grant:
  "keeps native t (snd (snd (register_pending_bootstrap_grant grants t holder i rights)))"
proof -
  let ?g = "grant_root t holder (resource_object i) rights"
  obtain t1 rc where g: "keeps native t t1" "may_parent native t1 rc" "?g = install t1 rc"
    by (rule grant_root_installs)
  obtain res t2 where i: "install t1 rc = (res, t2)" by (cases "install t1 rc")
  have ok: "keeps native t t2" using keeps_grant_root [of native t holder "resource_object i" rights] g(3) i
    by simp
  show ?thesis
  proof (cases res)
    case (Inl e)
    with ok g(3) i show ?thesis by (simp add: register_pending_bootstrap_grant_def)
  next
    case (Inr ch)
    have "keeps native t (rollback_installed_capability t2 ch)"
      using keeps_rollback(2) [of t1 rc ch t2 native] g(1,2) i Inr by (auto intro: keeps_trans)
    with ok g(3) i Inr show ?thesis
      by (simp add: register_pending_bootstrap_grant_def split: prod.split sum.split)
  qed
qed

lemma delegated_may_parent:
  assumes "record_of t p = Inr r" "validate_delegation r p src ri = Inr ri'"
    "child_of p (rec_provenance r) = Inr prov"
  shows "may_parent native t \<lparr>rec_state = Live, rec_holder = tgt, rec_resource = rec_resource r,
    rec_rights = ri', rec_provenance = prov, rec_generation = 0\<rparr>"
  using assms delegate_linked [OF assms] by (auto simp: may_parent_def child_of_Inr validate_delegation_Inr)

lemma keeps_delegate: "keeps native t (snd (delegate t src p tgt ri))"
  by (auto simp: delegate_def keeps_refl keeps_install delegated_may_parent split: sum.split)

lemma delegate_installs:
  assumes "delegate t src p tgt ri = (Inr ch, t')"
  obtains rc where "install t rc = (Inr ch, t')" "may_parent native t rc"
proof -
  from delegate_Inr [OF assms] obtain r prov where r: "record_of t p = Inr r"
    "validate_delegation r p src ri = Inr ri" "child_of p (rec_provenance r) = Inr prov"
    "install t \<lparr>rec_state = Live, rec_holder = tgt, rec_resource = rec_resource r, rec_rights = ri,
                rec_provenance = prov, rec_generation = 0\<rparr> = (Inr ch, t')" by blast
  from r(4) delegated_may_parent [OF r(1-3)] show thesis by (rule that)
qed

lemma keeps_handle_delegate:
  "keeps native t (snd (snd (handle_delegate alive current rsi rdx r10 grants t)))"
proof -
  have "keeps native t t1" if "delegate t src p tgt ri = (res, t1)" for src p tgt ri res t1
    using keeps_delegate [of native t src p tgt ri] that by simp
  moreover have "keeps native t (rollback_installed_child t1 ch)"
    if "delegate t src p tgt ri = (Inr ch, t1)" for src p tgt ri ch t1
    using delegate_installs [OF that, of native] keeps_rollback(1) by metis
  ultimately show ?thesis
    by (auto simp: handle_delegate_def keeps_refl split: option.split sum.split prod.split)
qed

lemma keeps_fork:
  assumes "fork_inv t child installed" and "parent \<noteq> child" and "\<not> native parent"
    and "inherit_from t parent child cursor installed = (res, t')"
  shows "keeps native t t'"
  using assms
proof (induction t parent child cursor installed rule: inherit_from.induct)
  case (1 t parent child cursor installed)
  have wf: "table_wf t" "tree_wf t" using "1.prems"(1) by (simp_all add: fork_inv_def)
  have undo: "keeps native s (rollback_fork_inherited s installed)" if "fork_inv s child installed" for s
    using fork_rollback [OF that] shrinks_pruned by (blast intro: keeps_shrinks)
  show ?case
  proof (cases rule: inherit_cases [of t parent cursor child installed])
    case (full n h r rc e t1)
    have "keeps native t t1"
      using install_failed_shrinks [OF wf(1) full(2)] table_wf_install [OF wf(1), of rc] full(2) wf(2)
      by (auto intro: keeps_shrinks)
    with undo [OF install_failed_keeps(1) [OF "1.prems"(1) full(2)]] full(3) "1.prems"(4)
    show ?thesis by (auto intro: keeps_trans)
  next
    case (more n h r prov ch t1)
    let ?rc = "\<lparr>rec_state = Live, rec_holder = child, rec_resource = rec_resource r,
                rec_rights = rec_rights r, rec_provenance = prov, rec_generation = 0\<rparr>"
    from list_holder_Some [OF table_wfD(1) [OF wf(1)] more(1)] obtain i where
      i: "held_by t parent i" "r = slots t ! i" "record_of t h = Inr r" by blast
    then have r: "rec_state r = Live" "rec_holder r = parent" by (auto simp: held_by_def)
    have "linked t ?rc"
      using child_of_depth [OF more(2)] more(2) i(3) r(1) by (auto simp: linked_def child_of_Inr)
    then have "may_parent native t ?rc"
      using more(2) i(3) r(2) "1.prems"(3) by (auto simp: may_parent_def child_of_Inr)
    from keeps_install [OF this] more(4) have "keeps native t t1" by simp
    moreover have "keeps native t1 t'"
      using "1.IH" [OF more(1) refl refl more(2) _ more(4) [symmetric] refl
          fork_step [OF "1.prems"(1,2) more(1,2,4)]] more(3,5) "1.prems" by simp
    ultimately show ?thesis by (rule keeps_trans)
  qed (use 1 undo in \<open>auto simp: keeps_refl\<close>)
qed

lemma keeps_inherit:
  assumes "parent \<noteq> child" and "\<not> native parent"
  shows "keeps native t (snd (inherit_capabilities_for_fork t parent child))"
proof (cases "table_inv native t")
  case True
  then have "fork_inv t child []" by (simp add: fork_inv_def table_inv_def)
  from keeps_fork [of t child "[]" parent native 0, OF this assms] show ?thesis
    by (cases "inherit_from t parent child 0 []") (simp add: inherit_capabilities_for_fork_def)
qed (simp add: keeps_def)

lemma transfer_may_parent:
  assumes "table_wf t" and "transfer_validate t sender tr = Inr v"
  shows "may_parent native (reclaimed t) (child_record server v)"
  using assms(2)
proof (rule transfer_validateE)
  assume p: "record_of t (tr_handle tr) = Inr (vt_parent v)" "rec_state (vt_parent v) = Live"
    "is_subset_of DELEGATE (rec_rights (vt_parent v))" "is_subset_of READ (rec_rights (vt_parent v))"
    and c: "child_of (tr_handle tr) (rec_provenance (vt_parent v)) = Inr (vt_provenance v)"
  from p(1,2) have "record_of (reclaimed t) (tr_handle tr) = Inr (vt_parent v)"
    using reclaimed_keeps(4) [of "unat (h_slot (tr_handle tr))" t]
    by (auto simp: record_of_Inr reclaimed_keeps(5))
  with p c child_of_depth [OF c] show ?thesis
    by (auto simp: may_parent_def linked_def child_of_Inr)
qed

lemma keeps_reclaimed: "keeps native t (reclaimed t)"
  by (simp add: reclaimed_def keeps_refl keeps_release_revoked)

lemma keeps_install_child:
  assumes "transfer_validate t sender tr = Inr v" and "install_child t server v = (res, t')"
  shows "keeps native t t'"
proof (cases "table_inv native t")
  case True
  then have wf: "table_wf t" by (simp add: table_inv_def)
  from wf assms(1) show ?thesis
  proof (cases rule: install_child_cases [where server = server])
    case full
    then show ?thesis using assms(2) keeps_release_revoked by simp
  next
    case (installed ch t1)
    have "keeps native (reclaimed t) t1"
      using keeps_install [OF transfer_may_parent [OF wf assms(1)], of native server] installed(1) by simp
    then have "keeps native t t1" using keeps_reclaimed keeps_trans by blast
    then show ?thesis using assms(2) installed(2) by simp
  qed
qed (simp add: keeps_def)

lemma not_delegate_read: "\<not> is_subset_of DELEGATE READ"
  by (simp add: is_subset_of_def rights_consts)

lemma sent_in_flight:
  assumes "table_wf t" and "transfer_validate t sender tr = Inr v" and "native server"
    and "install_child t server v = (Inr c, t')"
  shows "in_flight native t' c"
  using assms(1,2)
proof (cases rule: install_child_cases [where server = server])
  case (installed ch t1)
  note wf = reclaimed_keeps(1) [OF assms(1)]
  have "record_of t' ch = Inr (installed_as (child_record server v) (h_generation ch))"
    using install_authority(1) [OF wf installed(1)] installed(2) assms(4) by simp
  then have "unat (h_slot ch) < capacity t'"
    "slots t' ! unat (h_slot ch) = installed_as (child_record server v) (h_generation ch)"
    "\<And>r. record_of t' ch = Inr r \<Longrightarrow> native (rec_holder r) \<and> \<not> is_subset_of DELEGATE (rec_rights r)"
    using assms(3) not_delegate_read by (simp_all add: record_of_Inr [symmetric]) (simp_all add: record_of_Inr)
  moreover have "handle_decode (tc_handle c) = Inr ch"
    using installed_handle(2) [OF wf installed(1)] installed(2) assms(4) by auto
  ultimately show ?thesis by (simp add: in_flight_def)
qed (use assms(4) in simp)

text \<open>A child in flight has no children of its own.\<close>

lemma in_flight_childless:
  assumes "table_inv native t" and "in_flight native t c" and "handle_decode (tc_handle c) = Inr h"
    and "record_of t h = Inr r"
  shows "\<not> parent_rel t (unat (h_slot h)) j"
proof
  assume p: "parent_rel t (unat (h_slot h)) j"
  have "slots t ! unat (h_slot h) = r" using assms(4) by (simp add: record_of_Inr)
  moreover have "native (rec_holder r)" "\<not> is_subset_of DELEGATE (rec_rights r)"
    using assms(2-4) by (auto simp: in_flight_def)
  ultimately show False using assms(1) leavesD [OF _ p, of native] by (simp add: table_inv_def)
qed

lemma keeps_release_child:
  assumes "in_flight native t c"
  shows "keeps native t (fst (release_child t c e))"
proof (cases "table_inv native t")
  case True
  from assms obtain h where h: "handle_decode (tc_handle c) = Inr h" by (auto simp: in_flight_def)
  show ?thesis
  proof (cases "record_of t h")
    case (Inl err)
    with h show ?thesis by (simp add: release_child_def keeps_refl)
  next
    case (Inr r)
    from keeps_drop_slot [OF in_flight_childless [OF True assms h Inr]] show ?thesis
      by (simp add: release_child_resolving [OF h Inr])
  qed
qed (simp add: keeps_def)

section \<open>Reachable spaces\<close>

lemma space_inv_keeps:
  assumes "space_inv native s" and "keeps native (sp_table s) t" and "set cs \<subseteq> set (sp_undelivered s)"
  shows "space_inv native \<lparr>sp_table = t, sp_undelivered = cs\<rparr>"
  using assms space_inv_evolves [OF assms(1) _ _ assms(3)] by (simp add: space_inv_def keeps_def)

lemma space_inv_table:
  "space_inv native s \<Longrightarrow> keeps native (sp_table s) t \<Longrightarrow> space_inv native (s\<lparr>sp_table := t\<rparr>)"
  using space_inv_keeps [of native s t "sp_undelivered s"] by (cases s) simp

interpretation space: transition_system "\<lambda>s. s = space_new" "cap_space_step native" "space_inv native"
  for native
proof
  fix s assume "s = space_new"
  moreover have "leaves native (table_new MAX_SLOTS)"
    by (auto simp: leaves_def parent_rel_def table_new_def RECORD_EMPTY_def capacity_def)
  ultimately show "space_inv native s"
    by (simp add: space_inv_def space_new_def table_inv_def table_wf_new tree_wf_new MAX_SLOTS_def)
next
  fix s t assume "space_inv native s" and "cap_space_step native s t"
  from this(2,1) show "space_inv native t"
  proof (induction rule: cap_space_step.induct)
    case (space_send server s sender tr v c t)
    then have wf: "table_wf (sp_table s)" by (simp add: space_inv_def table_inv_def)
    from space_send have "space_inv native \<lparr>sp_table = t, sp_undelivered = sp_undelivered s\<rparr>"
      by (intro space_inv_keeps keeps_install_child) auto
    with sent_in_flight [where native = native, OF wf space_send(2,1,3)] show ?case by (simp add: space_inv_def)
  next
    case (space_receive s c)
    then show ?case using set_remove1_subset [of c] by (auto simp: space_inv_def)
  next
    case (space_take_back c s e)
    then have "in_flight native (sp_table s) c" by (simp add: space_inv_def)
    from space_inv_keeps [OF space_take_back(2) keeps_release_child [OF this] set_remove1_subset]
    show ?case .
  qed (auto intro!: space_inv_table keeps_grant_root keeps_pending_grant keeps_handle_delegate
        keeps_revoke_subtree keeps_revoke_holder_tree keeps_revoke_resource_tree keeps_inherit
        intro: keeps_install_child)
qed

text \<open>
  A run of the kernel: it grants process 10 a shared buffer, which process 10 then sends to the
  server 20.
\<close>

definition granted_table :: cap_table where
  "granted_table = \<lparr>slots = buffer_record # replicate 63 RECORD_EMPTY, live_count = 1\<rparr>"

lemma granted_table_grant:
  "snd (grant_root (table_new MAX_SLOTS) 10 (resource_shared_buffer 65537) (READ OR DELEGATE)) = granted_table"
proof -
  have "table_new MAX_SLOTS = \<lparr>slots = RECORD_EMPTY # replicate 63 RECORD_EMPTY, live_count = 0\<rparr>"
    by (simp add: table_new_def MAX_SLOTS_def eval_nat_numeral)
  then show ?thesis
    by (simp add: grant_root_def grant_def granted_table_def buffer_record_def table_eval upt_conv_Cons
        resource_shared_buffer_def)
qed

lemma granted_wf: "table_wf granted_table"
proof -
  have "keeps (\<lambda>_. True) (table_new MAX_SLOTS) granted_table"
    using keeps_grant_root [of _ "table_new MAX_SLOTS" 10 "resource_shared_buffer 65537" "READ OR DELEGATE"]
    by (simp add: granted_table_grant)
  then show ?thesis
    using space.inv_init [of space_new] by (simp add: keeps_def table_inv_def space_inv_def space_new_def)
qed

lemma granted_validate: "transfer_validate granted_table 10 buffer_transfer = Inr buffer_validated"
  by (simp add: transfer_validate_def buffer_transfer_def buffer_validated_def granted_table_def
      buffer_record_def record_of_def resource_shared_buffer_def table_eval validate_delegation_def
      authorize_def rights_intersects_def TRANSFER_CHILD_RIGHTS_def buffer_id_decode_def child_of_def
      checked_add_def ok_or_def MAX_DELEGATION_DEPTH_def)

lemma granted_installable: "has_installable_slot granted_table"
  unfolding has_installable_slot_def list_ex_iff
  by (rule bexI [of _ 1]) (simp_all add: granted_table_def state_at_def record_at_def capacity_make RECORD_EMPTY_def)

lemma sent_space:
  obtains ch c t where "install granted_table (child_record 20 buffer_validated) = (Inr ch, t)"
    and "tc_handle c = handle_encode ch"
    and "(cap_space_step (\<lambda>_. True))\<^sup>*\<^sup>* space_new \<lparr>sp_table = t, sp_undelivered = [c]\<rparr>"
proof -
  let ?s1 = "space_new\<lparr>sp_table := granted_table\<rparr>"
  have 1: "cap_space_step (\<lambda>_. True) space_new ?s1"
    using space_grant [of "\<lambda>_. True" space_new 10 "resource_shared_buffer 65537" "READ OR DELEGATE"]
    by (simp add: granted_table_grant space_new_def)
  show thesis
    using granted_wf granted_validate
  proof (cases rule: install_child_cases [where server = 20])
    case full
    then show thesis using granted_installable by simp
  next
    case (installed ch t)
    let ?c = "\<lparr>tc_handle = handle_encode ch, tc_buffer_id = vt_buffer buffer_validated,
        tc_byte_len = vt_byte_len buffer_validated, tc_rights = READ, tc_class = class_as_u8 SharedBuffer\<rparr>"
    have "cap_space_step (\<lambda>_. True) ?s1 \<lparr>sp_table = t, sp_undelivered = [?c]\<rparr>"
      using space_send [of "\<lambda>_. True" 20 ?s1 10 buffer_transfer buffer_validated ?c t]
        granted_validate installed(2) by (simp add: space_new_def)
    with 1 have "(cap_space_step (\<lambda>_. True))\<^sup>*\<^sup>* space_new \<lparr>sp_table = t, sp_undelivered = [?c]\<rparr>"
      by (meson r_into_rtranclp rtranclp.rtrancl_into_rtrancl)
    with installed(1) that [of ch t ?c] granted_installable show thesis by (simp add: reclaimed_def)
  qed
qed

text \<open>
  C1 (safety). Authority is never amplified: in every capability space the kernel can reach from the
  empty one, whatever grants, delegations, revocations, forks, port transfers and rollbacks have run,
  each live capability is backed by a live root grant of the kernel on the same resource, through a
  chain of at most four live ancestors, and along that chain rights only shrink; its rights are valid
  for its resource class.
\<close>

theorem reachable_authority_rooted:
  assumes "(cap_space_step native)\<^sup>*\<^sup>* space_new s" and "live (sp_table s) j"
  shows "\<exists>i n. live (sp_table s) i \<and> prov_parent (rec_provenance (slots (sp_table s) ! i)) = None
    \<and> (parent_rel (sp_table s) ^^ n) i j \<and> n \<le> 4
    \<and> rec_resource (slots (sp_table s) ! j) = rec_resource (slots (sp_table s) ! i)
    \<and> is_subset_of (rec_rights (slots (sp_table s) ! j)) (rec_rights (slots (sp_table s) ! i))
    \<and> is_subset_of (rec_rights (slots (sp_table s) ! i))
        (valid_for (res_class (rec_resource (slots (sp_table s) ! i))))"
proof -
  let ?t = "sp_table s"
  have inv: "space_inv native s" by (rule space.reachable_inv [OF refl assms(1)])
  then have tree: "tree_wf ?t" and wf: "table_wf ?t" by (simp_all add: space_inv_def table_inv_def)
  from descends_from_root [OF tree assms(2)] obtain i where i: "descends ?t i j" "live ?t i"
    "prov_parent (rec_provenance (slots ?t ! i)) = None" by blast
  from i(1) obtain n where n: "(parent_rel ?t ^^ n) i j" by (auto dest: rtranclp_imp_relpowp)
  have "is_subset_of (rec_rights (slots ?t ! i)) (valid_for (res_class (rec_resource (slots ?t ! i))))"
    using table_wfD(2) [OF wf, of i] i(2) by (simp add: record_wf_def)
  with i n descends_bound [OF n tree] descends_inherits [OF i(1) tree] show ?thesis by blast
qed

theorem reachable_authority_rooted_witness:
  "\<exists>s j i n. (cap_space_step (\<lambda>_. True))\<^sup>*\<^sup>* space_new s \<and> live (sp_table s) j
     \<and> rec_holder (slots (sp_table s) ! j) = 20 \<and> live (sp_table s) i
     \<and> prov_parent (rec_provenance (slots (sp_table s) ! i)) = None \<and> (parent_rel (sp_table s) ^^ n) i j"
proof -
  obtain ch c t where i: "install granted_table (child_record 20 buffer_validated) = (Inr ch, t)"
    and run: "(cap_space_step (\<lambda>_. True))\<^sup>*\<^sup>* space_new \<lparr>sp_table = t, sp_undelivered = [c]\<rparr>"
    by (rule sent_space)
  let ?s = "\<lparr>sp_table = t, sp_undelivered = [c]\<rparr>" and ?j = "unat (h_slot ch)"
  have j: "live t ?j" "rec_holder (slots t ! ?j) = 20"
    using install_Inr(1,4,6) [OF i table_wfD(1) [OF granted_wf]] by simp_all
  with reachable_authority_rooted [OF run, of ?j] obtain k n where "live t k"
    "prov_parent (rec_provenance (slots t ! k)) = None" "(parent_rel t ^^ n) k ?j" by auto
  with j run show ?thesis
    by (intro exI [of _ ?s] exI [of _ ?j] exI [of _ k] exI [of _ n]) simp
qed

text \<open>
  C40 (safety). Taking back an undelivered transfer ends that one authority: in every space the kernel
  can reach, releasing a child that its server has not received makes its handle useless and leaves
  every other authorization as it was, and no live capability loses its chain to a root grant,
  although the kernel does not walk the child's subtree.
\<close>

theorem take_back_exact:
  assumes "(cap_space_step native)\<^sup>*\<^sup>* space_new s" and "c \<in> set (sp_undelivered s)"
    and "release_child (sp_table s) c e = (t', e')"
  shows "(table_authorize t' a h re ri = Inr r
      \<longleftrightarrow> table_authorize (sp_table s) a h re ri = Inr r \<and> handle_encode h \<noteq> tc_handle c)
    \<and> tree_wf t'"
proof -
  let ?t = "sp_table s"
  have inv: "space_inv native s" by (rule space.reachable_inv [OF refl assms(1)])
  then have ti: "table_inv native ?t" and fl: "in_flight native ?t c"
    using assms(2) by (simp_all add: space_inv_def)
  then have tree: "tree_wf t'"
    using keeps_release_child [OF fl, of e] assms(3) by (simp add: keeps_def table_inv_def)
  from fl obtain g where g: "handle_decode (tc_handle c) = Inr g" by (auto simp: in_flight_def)
  have same: "handle_encode h = tc_handle c \<longleftrightarrow> h = g" if "table_authorize ?t a h re ri = Inr r"
  proof -
    have "h_generation h \<noteq> 0"
      using that ti table_wfD(2) [of ?t "unat (h_slot h)"]
      by (auto simp: table_authorize_Inr table_inv_def record_wf_def)
    then show ?thesis
      using g handle_decode_encode [of "tc_handle c" h] handle_decode_encode [of "tc_handle c" g] by auto
  qed
  show ?thesis
  proof (cases "record_of ?t g")
    case (Inl err)
    then have "table_authorize ?t a g re ri \<noteq> Inr r" by (simp add: table_authorize_def)
    moreover have "t' = ?t" using assms(3) g Inl by (simp add: release_child_def)
    ultimately show ?thesis using same tree by auto
  next
    case (Inr q)
    have "t' = drop_slot ?t (unat (h_slot g))" using assms(3) release_child_resolving [OF g Inr, of e] by simp
    with drop_slot_authorize [OF Inr, of a h re ri r] same tree show ?thesis by auto
  qed
qed

theorem take_back_exact_witness:
  "\<exists>s c h. (cap_space_step (\<lambda>_. True))\<^sup>*\<^sup>* space_new s \<and> c \<in> set (sp_undelivered s)
     \<and> is_ok (table_authorize (sp_table s) 20 h (resource_shared_buffer 65537) READ)
     \<and> \<not> is_ok (table_authorize (fst (release_child (sp_table s) c (effects_new :: unit effects))) 20 h
                  (resource_shared_buffer 65537) READ)"
proof -
  obtain ch c t where i: "install granted_table (child_record 20 buffer_validated) = (Inr ch, t)"
    and c: "tc_handle c = handle_encode ch"
    and run: "(cap_space_step (\<lambda>_. True))\<^sup>*\<^sup>* space_new \<lparr>sp_table = t, sp_undelivered = [c]\<rparr>"
    by (rule sent_space)
  have "is_ok (table_authorize t 20 ch (resource_shared_buffer 65537) READ)"
    using install_Inr(1,4,6) [OF i table_wfD(1) [OF granted_wf]]
    by (auto simp: is_ok_iff table_authorize_Inr buffer_validated_def buffer_record_def)
  moreover have "\<not> is_ok (table_authorize (fst (release_child t c (effects_new :: unit effects))) 20 ch
      (resource_shared_buffer 65537) READ)"
    using take_back_exact [OF run, of c "effects_new :: unit effects" _ _ 20 ch "resource_shared_buffer 65537" READ] c
    by (auto simp: is_ok_iff prod_eq_iff)
  ultimately show ?thesis using run by (intro exI [of _ "\<lparr>sp_table = t, sp_undelivered = [c]\<rparr>"]) auto
qed

end
