(* ===== verification/Slots.thy ===== *)
theory Slots
  imports Prelude
begin

text \<open>
  The interface of the fixed arrays of optional records keyed by a service identifier, which the
  lifecycle tracker, the health tracker and the dependency graph share: a search for the key, and an
  enrolment that refuses a key already present and otherwise fills the first free position. The
  client lemmas are proved once from these laws: keys stay unique, lookup behaves as a finite map,
  and a registry is full exactly when it holds as many records as it has positions.
\<close>

section \<open>Arrays of optional records\<close>

definition holds_key :: "('r \<Rightarrow> 'k) \<Rightarrow> 'k \<Rightarrow> 'r option \<Rightarrow> bool" where
  "holds_key key k entry = (case entry of Some r \<Rightarrow> key r = k | None \<Rightarrow> False)"

definition keys_unique :: "('r \<Rightarrow> 'k) \<Rightarrow> 'r option list \<Rightarrow> bool" where
  "keys_unique key xs \<longleftrightarrow>
     (\<forall>i<length xs. \<forall>j<length xs. \<forall>r q. xs ! i = Some r \<longrightarrow> xs ! j = Some q \<longrightarrow> key r = key q \<longrightarrow> i = j)"

lemma holds_key_simps [simp]:
  "holds_key key k (Some r) \<longleftrightarrow> key r = k"
  "\<not> holds_key key k None"
  by (simp_all add: holds_key_def)

lemma holds_keyE:
  assumes "holds_key key k e"
  obtains r where "e = Some r" and "key r = k"
  using assms by (cases e) auto

lemma keys_unique_replicate [simp]: "keys_unique key (replicate n None)"
  by (simp add: keys_unique_def)

lemma keys_unique_update:
  assumes "keys_unique key xs"
    and "\<And>j q. j < length xs \<Longrightarrow> j \<noteq> i \<Longrightarrow> xs ! j = Some q \<Longrightarrow> key q \<noteq> key r"
  shows "keys_unique key (xs[i := Some r])"
  unfolding keys_unique_def
proof (intro allI impI)
  fix a b p q
  assume "a < length (xs[i := Some r])" "b < length (xs[i := Some r])"
    and "xs[i := Some r] ! a = Some p" "xs[i := Some r] ! b = Some q" "key p = key q"
  then show "a = b"
    using assms(2) [of a p] assms(2) [of b q] assms(1) unfolding keys_unique_def
    by (cases "a = i"; cases "b = i") auto
qed

lemma keys_unique_same:
  assumes u: "keys_unique key xs" and i: "i < length xs" and r: "xs ! i = Some r" and k: "key q = key r"
  shows "keys_unique key (xs[i := Some q])"
proof (rule keys_unique_update [OF u])
  show "key p \<noteq> key q" if "j < length xs" "j \<noteq> i" "xs ! j = Some p" for j p
    using u i r k that unfolding keys_unique_def by auto
qed

lemma option_eqI: "(\<And>r. a = Some r \<longleftrightarrow> b = Some r) \<Longrightarrow> a = b"
  by (cases a; cases b) auto

lemma slot_mem_update:
  assumes "i < length xs"
  shows "(\<exists>j<length (xs[i := y]). xs[i := y] ! j = z) \<longleftrightarrow> z = y \<or> (\<exists>j<length xs. j \<noteq> i \<and> xs ! j = z)"
proof
  assume "\<exists>j<length (xs[i := y]). xs[i := y] ! j = z"
  then obtain j where "j < length xs" "xs[i := y] ! j = z" by auto
  then show "z = y \<or> (\<exists>j<length xs. j \<noteq> i \<and> xs ! j = z)" by (cases "j = i") auto
next
  assume "z = y \<or> (\<exists>j<length xs. j \<noteq> i \<and> xs ! j = z)"
  then show "\<exists>j<length (xs[i := y]). xs[i := y] ! j = z"
  proof
    assume "\<exists>j<length xs. j \<noteq> i \<and> xs ! j = z"
    then obtain j where "j < length xs" "j \<noteq> i" "xs ! j = z" by blast
    then have "j < length (xs[i := y])" "xs[i := y] ! j = z" by simp_all
    then show ?thesis by blast
  qed (use assms in auto)
qed

lemma find_position: "List.find P xs = map_option (nth xs) (position P xs)"
  by (induction xs) (auto simp: option.map_comp comp_def)

section \<open>The registry interface\<close>

locale slot_search =
  fixes key :: "'r \<Rightarrow> 'k"
    and locate :: "'k \<Rightarrow> 'r option list \<Rightarrow> nat option"
  assumes locate_hit: "locate k xs = Some i \<Longrightarrow> i < length xs \<and> holds_key key k (xs ! i)"
    and locate_miss: "locate k xs = None \<Longrightarrow> i < length xs \<Longrightarrow> \<not> holds_key key k (xs ! i)"
begin

definition lookup :: "'k \<Rightarrow> 'r option list \<Rightarrow> 'r option" where
  "lookup k xs = (case locate k xs of Some i \<Rightarrow> xs ! i | None \<Rightarrow> None)"

lemma lookup_key: "lookup k xs = Some r \<Longrightarrow> key r = k"
  using locate_hit [of k xs] by (cases "locate k xs") (auto simp: lookup_def)

lemma lookup_None_iff: "lookup k xs = None \<longleftrightarrow> locate k xs = None"
proof (cases "locate k xs")
  case (Some i)
  then have "holds_key key k (xs ! i)" using locate_hit by blast
  with Some show ?thesis by (auto simp: lookup_def elim: holds_keyE)
qed (simp add: lookup_def)

lemma lookup_eq:
  assumes u: "keys_unique key xs"
  shows "lookup k xs = Some r \<longleftrightarrow> key r = k \<and> (\<exists>i<length xs. xs ! i = Some r)"
proof
  assume l: "lookup k xs = Some r"
  then obtain i where i: "locate k xs = Some i" "xs ! i = Some r"
    by (auto simp: lookup_def split: option.splits)
  then have "i < length xs" using locate_hit by blast
  with i lookup_key [OF l] show "key r = k \<and> (\<exists>i<length xs. xs ! i = Some r)" by blast
next
  assume "key r = k \<and> (\<exists>i<length xs. xs ! i = Some r)"
  then obtain i where k: "key r = k" and i: "i < length xs" "xs ! i = Some r" by blast
  then have "locate k xs \<noteq> None" using locate_miss [of k xs i] by auto
  then obtain j where j: "locate k xs = Some j" by blast
  then have "j < length xs" and "holds_key key k (xs ! j)" using locate_hit by blast+
  then obtain q where "xs ! j = Some q" "key q = k" by (auto elim: holds_keyE)
  with u i k \<open>j < length xs\<close> have "j = i" unfolding keys_unique_def by blast
  with j i show "lookup k xs = Some r" by (simp add: lookup_def)
qed

lemma locate_unique:
  assumes "keys_unique key xs" and "locate k xs = Some i" and "j < length xs" and "holds_key key k (xs ! j)"
  shows "j = i"
proof -
  from assms(2) have i: "i < length xs" and "holds_key key k (xs ! i)" using locate_hit by blast+
  then obtain r where "xs ! i = Some r" "key r = k" by (auto elim: holds_keyE)
  moreover from assms(4) obtain q where "xs ! j = Some q" "key q = k" by (rule holds_keyE)
  ultimately show ?thesis using assms(1,3) i unfolding keys_unique_def by blast
qed

lemma update_lookup:
  assumes u: "keys_unique key xs" and l: "locate k xs = Some i" and q: "key q = k"
  shows "keys_unique key (xs[i := Some q])"
    and "lookup k' (xs[i := Some q]) = (if k' = k then Some q else lookup k' xs)"
proof -
  from l have i: "i < length xs" and "holds_key key k (xs ! i)" using locate_hit by blast+
  then obtain r where r: "xs ! i = Some r" "key r = k" by (auto elim: holds_keyE)
  show u': "keys_unique key (xs[i := Some q])"
    using keys_unique_same [OF u i r(1)] q r(2) by simp
  let ?ys = "xs[i := Some q]"
  have ne: "j \<noteq> i \<longleftrightarrow> key p \<noteq> k" if "j < length xs" "xs ! j = Some p" for j p
  proof
    assume "j \<noteq> i"
    with locate_unique [OF u l, of j] that show "key p \<noteq> k" by auto
  next
    assume k: "key p \<noteq> k"
    show "j \<noteq> i"
    proof
      assume "j = i"
      with that(2) r(1) have "p = r" by simp
      with k r(2) show False by simp
    qed
  qed
  have mem: "(\<exists>j<length ?ys. ?ys ! j = Some p) \<longleftrightarrow> p = q \<or> key p \<noteq> k \<and> (\<exists>j<length xs. xs ! j = Some p)" for p
  proof -
    have "(\<exists>j<length xs. j \<noteq> i \<and> xs ! j = Some p) \<longleftrightarrow> key p \<noteq> k \<and> (\<exists>j<length xs. xs ! j = Some p)"
      using ne [of _ p] by blast
    then show ?thesis unfolding slot_mem_update [OF i] by simp
  qed
  have "lookup k' ?ys = Some p \<longleftrightarrow> (if k' = k then Some q else lookup k' xs) = Some p" for p
  proof (cases "k' = k")
    case True
    have "lookup k ?ys = Some p \<longleftrightarrow> p = q"
      unfolding lookup_eq [OF u'] mem using q by blast
    with True show ?thesis by auto
  next
    case False
    have "lookup k' ?ys = Some p \<longleftrightarrow> lookup k' xs = Some p"
      unfolding lookup_eq [OF u'] lookup_eq [OF u] mem using q False by blast
    with False show ?thesis by simp
  qed
  then show "lookup k' ?ys = (if k' = k then Some q else lookup k' xs)" by (rule option_eqI)
qed

end

locale slot_registry = slot_search key locate
  for key :: "'r \<Rightarrow> 'k"
    and locate :: "'k \<Rightarrow> 'r option list \<Rightarrow> nat option" +
  fixes fresh :: "'k \<Rightarrow> 'r"
    and enrol :: "'k \<Rightarrow> 'r option list \<Rightarrow> ('e + unit) \<times> 'r option list"
    and dup full :: 'e
  assumes key_fresh: "key (fresh k) = k"
    and enrol_dup: "locate k xs = Some i \<Longrightarrow> enrol k xs = (Inl dup, xs)"
    and enrol_full: "locate k xs = None \<Longrightarrow> None \<notin> set xs \<Longrightarrow> enrol k xs = (Inl full, xs)"
    and enrol_free: "locate k xs = None \<Longrightarrow> None \<in> set xs \<Longrightarrow>
      \<exists>i<length xs. xs ! i = None \<and> enrol k xs = (Inr (), xs[i := Some (fresh k)])"
begin

lemma enrol_cases:
  obtains (dup) i where "locate k xs = Some i" and "enrol k xs = (Inl dup, xs)"
  | (full) "locate k xs = None" and "None \<notin> set xs" and "enrol k xs = (Inl full, xs)"
  | (free) i where "locate k xs = None" and "None \<in> set xs" and "i < length xs" and "xs ! i = None"
      and "enrol k xs = (Inr (), xs[i := Some (fresh k)])"
  using enrol_dup enrol_full enrol_free by (cases "locate k xs"; cases "None \<in> set xs") blast+

lemma enrol_unique:
  assumes "keys_unique key xs"
  shows "keys_unique key (snd (enrol k xs))"
proof (cases rule: enrol_cases [of k xs])
  case (free i)
  then have "key q \<noteq> key (fresh k)" if "j < length xs" "xs ! j = Some q" for j q
    using locate_miss [of k xs j] that by (auto simp: key_fresh)
  with free show ?thesis by (auto intro!: keys_unique_update assms)
qed (simp_all add: assms)

lemma enrol_length: "length (snd (enrol k xs)) = length xs"
  by (cases rule: enrol_cases [of k xs]) simp_all

lemma enrol_ok_iff: "fst (enrol k xs) = Inr () \<longleftrightarrow> lookup k xs = None \<and> None \<in> set xs"
  by (cases rule: enrol_cases [of k xs]) (simp_all add: lookup_None_iff)

lemma enrol_error: "fst (enrol k xs) = Inl e \<Longrightarrow> snd (enrol k xs) = xs"
  by (cases rule: enrol_cases [of k xs]) simp_all

lemma enrol_lookup:
  assumes u: "keys_unique key xs" and ok: "fst (enrol k xs) = Inr ()"
  shows "lookup k' (snd (enrol k xs)) = (if k' = k then Some (fresh k) else lookup k' xs)"
proof -
  from ok obtain i where miss: "locate k xs = None"
    and i: "i < length xs" "xs ! i = None" and e: "enrol k xs = (Inr (), xs[i := Some (fresh k)])"
    by (cases rule: enrol_cases [of k xs]) auto
  let ?ys = "xs[i := Some (fresh k)]"
  have u': "keys_unique key ?ys" using enrol_unique [OF u, of k] e by simp
  have mem: "(\<exists>j<length ?ys. ?ys ! j = Some r) \<longleftrightarrow> r = fresh k \<or> (\<exists>j<length xs. xs ! j = Some r)" for r
  proof -
    have "j \<noteq> i" if "xs ! j = Some r" for j using i(2) that by auto
    then show ?thesis unfolding slot_mem_update [OF i(1)] by auto
  qed
  have other: "key r \<noteq> k" if "j < length xs" "xs ! j = Some r" for j r
    using locate_miss [OF miss, of j] that by auto
  have "lookup k' ?ys = Some r \<longleftrightarrow> (if k' = k then Some (fresh k) else lookup k' xs) = Some r" for r
  proof (cases "k' = k")
    case True
    with other [of _ r] show ?thesis
      unfolding lookup_eq [OF u'] mem using key_fresh [of k] by auto
  next
    case False
    then show ?thesis
      unfolding lookup_eq [OF u'] mem using key_fresh [of k] by (auto simp: lookup_eq [OF u])
  qed
  then show ?thesis unfolding e snd_conv by (rule option_eqI)
qed

end

text \<open>The laws hold of every search and enrolment written with \<open>Iterator::position\<close>.\<close>

lemma slot_searchI:
  assumes loc: "\<And>k xs. locate k xs = position (\<lambda>e. case e of Some r \<Rightarrow> key r = k | None \<Rightarrow> False) xs"
  shows "slot_search key locate"
proof
  have loc': "locate k xs = position (holds_key key k) xs" for k xs
    unfolding loc by (rule arg_cong [where f = "\<lambda>P. position P xs"]) (simp add: holds_key_def fun_eq_iff)
  show "i < length xs \<and> holds_key key k (xs ! i)" if "locate k xs = Some i" for k xs i
    using position_SomeD that unfolding loc' by blast
  show "\<not> holds_key key k (xs ! i)" if "locate k xs = None" "i < length xs" for k xs i
    using that unfolding loc' by (simp add: position_None)
qed

lemma slot_registryI:
  assumes key: "\<And>k. key (fresh k) = k"
    and loc: "\<And>k xs. locate k xs = position (\<lambda>e. case e of Some r \<Rightarrow> key r = k | None \<Rightarrow> False) xs"
    and enr: "\<And>k xs. enrol k xs =
      (if locate k xs \<noteq> None then (Inl dup, xs)
       else case position (\<lambda>e. e = None) xs of
           None \<Rightarrow> (Inl full, xs)
         | Some slot \<Rightarrow> (Inr (), xs[slot := Some (fresh k)]))"
  shows "slot_registry key locate fresh enrol dup full"
proof (intro slot_registry.intro slot_registry_axioms.intro slot_searchI)
  show "locate k xs = position (\<lambda>e. case e of Some r \<Rightarrow> key r = k | None \<Rightarrow> False) xs" for k xs by (rule loc)
  show "key (fresh k) = k" for k by (rule key)
  show "enrol k xs = (Inl dup, xs)" if "locate k xs = Some i" for k xs i
    using that by (simp add: enr)
  show "enrol k xs = (Inl full, xs)" if "locate k xs = None" "None \<notin> set xs" for k xs
  proof -
    from that(2) have "position (\<lambda>e. e = None) xs = None" unfolding position_None by metis
    with that(1) show ?thesis by (simp add: enr)
  qed
  show "\<exists>i<length xs. xs ! i = None \<and> enrol k xs = (Inr (), xs[i := Some (fresh k)])"
    if "locate k xs = None" "None \<in> set xs" for k xs
  proof -
    from that(2) have "position (\<lambda>e. e = None) xs \<noteq> None" unfolding position_None by blast
    then obtain i where i: "position (\<lambda>e. e = None) xs = Some i" by blast
    with position_SomeD [OF i] that(1) show ?thesis by (auto simp: enr)
  qed
qed

end
