(* ===== verification/Svc_Lifecycle.thy ===== *)
theory Svc_Lifecycle
  imports Slots
begin

text \<open>
  The service lifecycle protocol (\<open>service-lifecycle/src\<close>): identities, control requests, the state
  machine of \<open>state.rs\<close>, the per-service record and the fixed-capacity tracker of \<open>tracker.rs\<close>. The
  tracker is shown to be an instance of the slot registry. The results are about runs of a record:
  its invariant, the growth of the generation, and that an instance that has been replaced can never
  again change the state of its service.
\<close>

section \<open>Identities, requests and events\<close>

type_synonym service_id = u32
type_synonym instance_generation = u32
type_synonym process_id = u64
type_synonym domain_id = u64

record service_instance_id =
  si_service :: service_id
  si_generation :: instance_generation
  si_pid :: process_id
  si_domain :: domain_id

definition instance_new :: "service_id \<Rightarrow> instance_generation \<Rightarrow> process_id \<Rightarrow> domain_id \<Rightarrow> service_instance_id" where
  "instance_new service generation pid domain =
     \<lparr>si_service = service, si_generation = generation, si_pid = pid, si_domain = domain\<rparr>"

definition logical_service :: "service_instance_id \<Rightarrow> service_id" where
  "logical_service i = si_service i"

datatype control_kind = Start | Stop | Terminate | Restart

fun control_kind_repr :: "control_kind \<Rightarrow> u8" where
  "control_kind_repr Start = 1"
| "control_kind_repr Stop = 2"
| "control_kind_repr Terminate = 3"
| "control_kind_repr Restart = 4"

definition control_kind_from_repr :: "u8 \<Rightarrow> control_kind option" where
  "control_kind_from_repr raw =
    (if raw = 1 then Some Start
     else if raw = 2 then Some Stop
     else if raw = 3 then Some Terminate
     else if raw = 4 then Some Restart
     else None)"

record control_request =
  cr_service :: service_id
  cr_kind :: control_kind

definition control_request_new :: "service_id \<Rightarrow> control_kind \<Rightarrow> control_request" where
  "control_request_new service kind = \<lparr>cr_service = service, cr_kind = kind\<rparr>"

datatype lifecycle_state =
  Declared | Starting | Running | Stopping | Exited | Faulted | RestartPending

fun lifecycle_state_repr :: "lifecycle_state \<Rightarrow> u8" where
  "lifecycle_state_repr Declared = 0"
| "lifecycle_state_repr Starting = 1"
| "lifecycle_state_repr Running = 2"
| "lifecycle_state_repr Stopping = 3"
| "lifecycle_state_repr Exited = 4"
| "lifecycle_state_repr Faulted = 5"
| "lifecycle_state_repr RestartPending = 6"

definition lifecycle_state_from_repr :: "u8 \<Rightarrow> lifecycle_state option" where
  "lifecycle_state_from_repr raw =
    (if raw = 0 then Some Declared
     else if raw = 1 then Some Starting
     else if raw = 2 then Some Running
     else if raw = 3 then Some Stopping
     else if raw = 4 then Some Exited
     else if raw = 5 then Some Faulted
     else if raw = 6 then Some RestartPending
     else None)"

datatype event_kind =
  InstanceSpawned | Started | Ready | StopAcknowledged | EventExited | EventFaulted

fun event_kind_repr :: "event_kind \<Rightarrow> u8" where
  "event_kind_repr InstanceSpawned = 1"
| "event_kind_repr Started = 2"
| "event_kind_repr Ready = 3"
| "event_kind_repr StopAcknowledged = 4"
| "event_kind_repr EventExited = 5"
| "event_kind_repr EventFaulted = 6"

definition event_kind_from_repr :: "u8 \<Rightarrow> event_kind option" where
  "event_kind_from_repr raw =
    (if raw = 1 then Some InstanceSpawned
     else if raw = 2 then Some Started
     else if raw = 3 then Some Ready
     else if raw = 4 then Some StopAcknowledged
     else if raw = 5 then Some EventExited
     else if raw = 6 then Some EventFaulted
     else None)"

record lifecycle_event =
  le_instance :: service_instance_id
  le_kind :: event_kind
  le_status_code :: u32

definition lifecycle_event_new :: "service_instance_id \<Rightarrow> event_kind \<Rightarrow> lifecycle_event" where
  "lifecycle_event_new inst kind = \<lparr>le_instance = inst, le_kind = kind, le_status_code = 0\<rparr>"

section \<open>The state machine\<close>

datatype transition_input = Control control_kind | Event event_kind

datatype transition_error =
    InvalidTransition lifecycle_state transition_input
  | StaleInstance instance_generation instance_generation
  | ActiveInstanceMismatch service_instance_id service_instance_id
  | GenerationExhausted instance_generation
  | InstanceMismatch

definition bump_generation :: "instance_generation \<Rightarrow> transition_error + instance_generation" where
  "bump_generation generation =
    (if generation = - 1 then Inl (GenerationExhausted generation) else Inr (generation + 1))"

fun apply_control :: "lifecycle_state \<Rightarrow> instance_generation \<Rightarrow> control_kind
    \<Rightarrow> transition_error + lifecycle_state \<times> instance_generation" where
  "apply_control Declared generation Start = rbind (bump_generation generation) (\<lambda>g. Inr (Starting, g))"
| "apply_control Exited generation Start = rbind (bump_generation generation) (\<lambda>g. Inr (Starting, g))"
| "apply_control Faulted generation Start = rbind (bump_generation generation) (\<lambda>g. Inr (Starting, g))"
| "apply_control RestartPending generation Start = rbind (bump_generation generation) (\<lambda>g. Inr (Starting, g))"
| "apply_control Running generation Stop = Inr (Stopping, generation)"
| "apply_control Running generation Terminate = Inr (Stopping, generation)"
| "apply_control Starting generation Terminate = Inr (Stopping, generation)"
| "apply_control Faulted generation Restart = Inr (RestartPending, generation)"
| "apply_control Exited generation Restart = Inr (RestartPending, generation)"
| "apply_control Running generation Restart = Inr (RestartPending, generation)"
| "apply_control state generation kind = Inl (InvalidTransition state (Control kind))"

fun event_next :: "lifecycle_state \<Rightarrow> event_kind \<Rightarrow> lifecycle_state option" where
  "event_next Starting InstanceSpawned = Some Starting"
| "event_next Starting Started = Some Starting"
| "event_next Starting Ready = Some Running"
| "event_next Running EventFaulted = Some Faulted"
| "event_next Running EventExited = Some Exited"
| "event_next Stopping StopAcknowledged = Some Stopping"
| "event_next Stopping EventExited = Some Exited"
| "event_next Starting EventFaulted = Some Faulted"
| "event_next Starting EventExited = Some Exited"
| "event_next _ _ = None"

definition apply_event :: "lifecycle_state \<Rightarrow> instance_generation \<Rightarrow> service_instance_id \<Rightarrow> event_kind
    \<Rightarrow> transition_error + lifecycle_state \<times> instance_generation" where
  "apply_event state generation inst kind =
    (if si_generation inst < generation then Inl (StaleInstance (si_generation inst) generation)
     else if si_generation inst > generation then Inl (StaleInstance (si_generation inst) generation)
     else case event_next state kind of
         Some s \<Rightarrow> Inr (s, generation)
       | None \<Rightarrow> Inl (InvalidTransition state (Event kind)))"

fun apply_transition :: "lifecycle_state \<Rightarrow> instance_generation \<Rightarrow> transition_input \<Rightarrow> service_instance_id option
    \<Rightarrow> transition_error + lifecycle_state \<times> instance_generation" where
  "apply_transition state generation (Control kind) inst = apply_control state generation kind"
| "apply_transition state generation (Event kind) inst =
     rbind (ok_or InstanceMismatch inst) (\<lambda>i. apply_event state generation i kind)"

section \<open>The record of a service\<close>

record lifecycle_record =
  lr_service :: service_id
  lr_state :: lifecycle_state
  lr_generation :: instance_generation
  lr_active :: "service_instance_id option"

definition record_declared :: "service_id \<Rightarrow> lifecycle_record" where
  "record_declared service =
     \<lparr>lr_service = service, lr_state = Declared, lr_generation = 0, lr_active = None\<rparr>"

definition record_apply_control ::
    "control_request \<Rightarrow> lifecycle_record \<Rightarrow> (transition_error + unit) \<times> lifecycle_record" where
  "record_apply_control request r =
    (if cr_service request \<noteq> lr_service r then (Inl InstanceMismatch, r)
     else case apply_transition (lr_state r) (lr_generation r) (Control (cr_kind request)) None of
         Inl e \<Rightarrow> (Inl e, r)
       | Inr (s, generation) \<Rightarrow>
           (Inr (), r\<lparr>lr_state := s, lr_generation := generation,
             lr_active := (if cr_kind request = Start \<or> cr_kind request = Restart then None else lr_active r)\<rparr>))"

definition record_apply_event ::
    "lifecycle_event \<Rightarrow> lifecycle_record \<Rightarrow> (transition_error + unit) \<times> lifecycle_record" where
  "record_apply_event event r =
    (if si_service (le_instance event) \<noteq> lr_service r then (Inl InstanceMismatch, r)
     else if case lr_active r of Some active \<Rightarrow> active \<noteq> le_instance event | None \<Rightarrow> False
     then (Inl (ActiveInstanceMismatch (the (lr_active r)) (le_instance event)), r)
     else case apply_transition (lr_state r) (lr_generation r) (Event (le_kind event)) (Some (le_instance event)) of
         Inl e \<Rightarrow> (Inl e, r)
       | Inr (s, generation) \<Rightarrow>
           (Inr (), r\<lparr>lr_state := s, lr_generation := generation,
             lr_active :=
               (if le_kind event = EventExited \<or> le_kind event = EventFaulted then None
                else if le_kind event = InstanceSpawned then Some (le_instance event)
                else lr_active r)\<rparr>))"

section \<open>The tracker\<close>

datatype tracker_error = DuplicateService | UnknownService | CapacityExceeded

type_synonym lifecycle_tracker = "lifecycle_record option list"

definition tracker_new :: "nat \<Rightarrow> lifecycle_tracker" where
  "tracker_new n = replicate n None"

definition tracker_find :: "service_id \<Rightarrow> lifecycle_tracker \<Rightarrow> nat option" where
  "tracker_find service records =
     position (\<lambda>entry. case entry of Some r \<Rightarrow> lr_service r = service | None \<Rightarrow> False) records"

definition tracker_declare :: "service_id \<Rightarrow> lifecycle_tracker \<Rightarrow> (tracker_error + unit) \<times> lifecycle_tracker" where
  "tracker_declare service records =
    (if tracker_find service records \<noteq> None then (Inl DuplicateService, records)
     else case position (\<lambda>entry. entry = None) records of
         None \<Rightarrow> (Inl CapacityExceeded, records)
       | Some slot \<Rightarrow> (Inr (), records[slot := Some (record_declared service)]))"

definition tracker_record :: "service_id \<Rightarrow> lifecycle_tracker \<Rightarrow> tracker_error + lifecycle_record" where
  "tracker_record service records =
     rbind (ok_or UnknownService (tracker_find service records))
       (\<lambda>index. ok_or UnknownService (records ! index))"

text \<open>
  \<open>record_mut\<close> hands out a mutable reference: here it runs the update on the record and writes it
  back to the position found.
\<close>

definition tracker_record_mut ::
    "service_id \<Rightarrow> (lifecycle_record \<Rightarrow> 'a \<times> lifecycle_record) \<Rightarrow> lifecycle_tracker
     \<Rightarrow> (tracker_error + 'a) \<times> lifecycle_tracker" where
  "tracker_record_mut service update records =
    (case tracker_find service records of
       None \<Rightarrow> (Inl UnknownService, records)
     | Some index \<Rightarrow>
         (case records ! index of
            None \<Rightarrow> (Inl UnknownService, records)
          | Some r \<Rightarrow> (let (a, r') = update r in (Inr a, records[index := Some r']))))"

section \<open>Runs of a record\<close>

datatype record_input = Request control_request | Report lifecycle_event

fun record_apply :: "record_input \<Rightarrow> lifecycle_record \<Rightarrow> (transition_error + unit) \<times> lifecycle_record" where
  "record_apply (Request q) r = record_apply_control q r"
| "record_apply (Report e) r = record_apply_event e r"

definition record_step :: "lifecycle_record \<Rightarrow> lifecycle_record \<Rightarrow> bool" where
  "record_step r t \<longleftrightarrow> (\<exists>x. t = snd (record_apply x r))"

definition record_inv :: "lifecycle_record \<Rightarrow> bool" where
  "record_inv r \<longleftrightarrow>
     (lr_state r = Declared \<longleftrightarrow> lr_generation r = 0) \<and>
     (\<forall>i. lr_active r = Some i \<longrightarrow>
        si_service i = lr_service r \<and> si_generation i = lr_generation r \<and>
        lr_state r \<in> {Starting, Running, Stopping})"

lemma bump_generation_Inr:
  "bump_generation g = Inr h \<longleftrightarrow> g \<noteq> - 1 \<and> h = g + 1"
  by (auto simp: bump_generation_def)

lemma apply_control_Inr:
  assumes "apply_control s g k = Inr (s', g')"
  shows "s' \<noteq> Declared"
    and "k = Start \<Longrightarrow> s' = Starting \<and> g \<noteq> - 1 \<and> g' = g + 1"
    and "k \<noteq> Start \<Longrightarrow> g' = g \<and> s \<noteq> Declared"
    and "k \<noteq> Start \<Longrightarrow> k \<noteq> Restart \<Longrightarrow> s' = Stopping"
  using assms by (cases s; cases k; auto simp: bump_generation_Inr rbind_Inr)+

lemma apply_event_Inr:
  assumes "apply_event s g i k = Inr (s', g')"
  shows "g' = g" and "si_generation i = g" and "event_next s k = Some s'"
  using assms by (auto simp: apply_event_def split: if_splits option.splits)

lemma event_next_Some:
  assumes "event_next s k = Some s'"
  shows "s \<in> {Starting, Running, Stopping}" and "s' \<noteq> Declared"
    and "k \<noteq> EventExited \<Longrightarrow> k \<noteq> EventFaulted \<Longrightarrow> s' \<in> {Starting, Running, Stopping}"
  using assms by (cases s; cases k; auto)+

lemma generation_nonzero: "g \<noteq> - 1 \<Longrightarrow> g + 1 \<noteq> (0 :: u32)"
  by (metis add_eq_0_iff add.commute)

lemma record_apply_service [simp]: "lr_service (snd (record_apply x r)) = lr_service r"
  by (cases x) (auto simp: record_apply_control_def record_apply_event_def Let_def
      split: sum.splits prod.splits)

lemma record_apply_error: "record_apply x r = (Inl e, t) \<Longrightarrow> t = r"
  by (cases x) (auto simp: record_apply_control_def record_apply_event_def
      split: if_splits sum.splits prod.splits)

lemma record_inv_declared: "record_inv (record_declared s)"
  by (simp add: record_inv_def record_declared_def)

lemma record_inv_control:
  assumes "record_inv r"
  shows "record_inv (snd (record_apply_control q r))"
proof (cases "apply_control (lr_state r) (lr_generation r) (cr_kind q)")
  case (Inr sg)
  obtain s g where "sg = (s, g)" by force
  note c = apply_control_Inr [OF Inr [unfolded this]]
  show ?thesis
  proof (cases "cr_kind q = Start")
    case True
    with c(1,2) assms show ?thesis
      using Inr \<open>sg = (s, g)\<close> generation_nonzero [of "lr_generation r"]
      by (simp add: record_apply_control_def record_inv_def)
  next
    case False
    with c assms show ?thesis
      using Inr \<open>sg = (s, g)\<close> by (auto simp: record_apply_control_def record_inv_def)
  qed
qed (use assms in \<open>auto simp: record_apply_control_def\<close>)

lemma record_inv_event:
  assumes "record_inv r"
  shows "record_inv (snd (record_apply_event e r))"
proof (cases "apply_event (lr_state r) (lr_generation r) (le_instance e) (le_kind e)")
  case (Inr sg)
  obtain s g where "sg = (s, g)" by force
  note v = apply_event_Inr [OF Inr [unfolded this]]
  note n = event_next_Some [OF v(3)]
  show ?thesis
    using assms v(1,2) n Inr \<open>sg = (s, g)\<close>
    by (auto simp: record_apply_event_def record_inv_def ok_or_def split: option.splits)
qed (use assms in \<open>auto simp: record_apply_event_def ok_or_def split: option.splits\<close>)

interpretation lifecycle: transition_system "\<lambda>r. \<exists>s. r = record_declared s" record_step record_inv
proof
  show "record_inv t" if "record_inv r" and "record_step r t" for r t
  proof -
    from that(2) obtain x where "t = snd (record_apply x r)" by (auto simp: record_step_def)
    with that(1) show ?thesis by (cases x) (simp_all add: record_inv_control record_inv_event)
  qed
qed (auto simp: record_inv_declared)

section \<open>Generations\<close>

text \<open>How many control requests of a run are accepted starts.\<close>

fun run_record :: "record_input list \<Rightarrow> lifecycle_record \<Rightarrow> lifecycle_record" where
  "run_record [] r = r"
| "run_record (x # xs) r = run_record xs (snd (record_apply x r))"

fun accepted_start :: "record_input \<Rightarrow> lifecycle_record \<Rightarrow> bool" where
  "accepted_start (Request q) r \<longleftrightarrow> cr_kind q = Start \<and> is_ok (fst (record_apply_control q r))"
| "accepted_start (Report e) r \<longleftrightarrow> False"

fun accepted_starts :: "record_input list \<Rightarrow> lifecycle_record \<Rightarrow> nat" where
  "accepted_starts [] r = 0"
| "accepted_starts (x # xs) r =
     (if accepted_start x r then 1 else 0) + accepted_starts xs (snd (record_apply x r))"

lemma record_apply_generation:
  "unat (lr_generation (snd (record_apply x r))) =
   unat (lr_generation r) + (if accepted_start x r then 1 else 0)"
proof (cases x)
  case (Request q)
  show ?thesis
  proof (cases "cr_service q = lr_service r")
    case True
    show ?thesis
    proof (cases "apply_control (lr_state r) (lr_generation r) (cr_kind q)")
      case (Inl e)
      with True Request show ?thesis by (simp add: record_apply_control_def)
    next
      case (Inr sg)
      obtain s g where sg: "sg = (s, g)" by force
      note c = apply_control_Inr [OF Inr [unfolded sg]]
      from True Request Inr sg have "lr_generation (snd (record_apply x r)) = g"
        and "accepted_start x r \<longleftrightarrow> cr_kind q = Start"
        by (simp_all add: record_apply_control_def)
      with c(2,3) show ?thesis by (cases "cr_kind q = Start") (simp_all add: unat_succ)
    qed
  qed (simp add: Request record_apply_control_def)
next
  case (Report e)
  then show ?thesis
    using apply_event_Inr(1)
    by (fastforce simp: record_apply_event_def ok_or_def split: sum.splits option.splits)
qed

lemma record_apply_generation_mono: "lr_generation r \<le> lr_generation (snd (record_apply x r))"
  by (simp add: word_le_nat_alt record_apply_generation)

lemma run_generation_mono: "record_step\<^sup>*\<^sup>* r t \<Longrightarrow> lr_generation r \<le> lr_generation t"
proof (induction rule: rtranclp_induct)
  case (step t u)
  then obtain x where "u = snd (record_apply x t)" by (auto simp: record_step_def)
  with record_apply_generation_mono [of t x] step.IH show ?case by simp
qed simp

lemma record_step_run: "record_step\<^sup>*\<^sup>* r (run_record xs r)"
proof (induction xs arbitrary: r)
  case (Cons x xs)
  have "record_step r (snd (record_apply x r))" by (auto simp: record_step_def)
  with Cons.IH show ?case by (metis converse_rtranclp_into_rtranclp run_record.simps(2))
qed simp

lemma record_apply_event_stale:
  assumes "si_generation (le_instance e) \<noteq> lr_generation r"
  shows "\<exists>x. record_apply_event e r = (Inl x, r)"
proof -
  have "\<exists>x. apply_event (lr_state r) (lr_generation r) (le_instance e) (le_kind e) = Inl x"
    using assms by (auto simp: apply_event_def)
  then show ?thesis by (auto simp: record_apply_event_def ok_or_def)
qed

text \<open>A run that starts service 7 and brings its first instance up.\<close>

definition sample_instance :: service_instance_id where
  "sample_instance = instance_new 7 1 40 3"

definition sample_run :: "record_input list" where
  "sample_run = [Request (control_request_new 7 Start), Report (lifecycle_event_new sample_instance InstanceSpawned),
     Report (lifecycle_event_new sample_instance Ready)]"

definition sample_restarted :: "u32 \<Rightarrow> lifecycle_record" where
  "sample_restarted g = \<lparr>lr_service = 7, lr_state = Starting, lr_generation = g, lr_active = None\<rparr>"

lemmas record_eval =
  record_apply_control_def record_apply_event_def apply_event_def bump_generation_def record_declared_def
  control_request_new_def lifecycle_event_new_def instance_new_def ok_or_def

lemma sample_run_result:
  "run_record sample_run (record_declared 7) =
     \<lparr>lr_service = 7, lr_state = Running, lr_generation = 1, lr_active = Some sample_instance\<rparr>"
  by (simp add: sample_run_def sample_instance_def record_eval)

text \<open>C20 (invariant). In every state that a service record reaches from its declaration through any
  sequence of control requests and lifecycle events, accepted or refused, generation zero is exactly the
  declared state, and an active instance is one of this service, of the authoritative generation, while
  the service is starting, running or stopping. So no record in the exited, faulted, restart-pending or
  declared state names a live process.\<close>

theorem lifecycle_record_invariant:
  assumes "record_step\<^sup>*\<^sup>* (record_declared s) r"
  shows "(lr_state r = Declared \<longleftrightarrow> lr_generation r = 0) \<and>
    (\<forall>i. lr_active r = Some i \<longrightarrow>
      si_service i = lr_service r \<and> si_generation i = lr_generation r \<and>
      lr_state r \<in> {Starting, Running, Stopping})"
  using lifecycle.reachable_inv [OF _ assms] by (auto simp: record_inv_def)

theorem lifecycle_record_invariant_witness:
  "\<exists>r. record_step\<^sup>*\<^sup>* (record_declared 7) r \<and> lr_state r = Running \<and> lr_generation r \<noteq> 0 \<and>
     lr_active r = Some sample_instance \<and> si_generation sample_instance = lr_generation r"
proof -
  let ?r = "run_record sample_run (record_declared 7)"
  have "record_step\<^sup>*\<^sup>* (record_declared 7) ?r" by (rule record_step_run)
  with lifecycle_record_invariant [OF this] show ?thesis
    by (intro exI [of _ ?r]) (simp add: sample_run_result)
qed

text \<open>C21 (safety). Once a start request has been accepted, nothing that an instance of an earlier
  generation reports can change the record of its service any more: whatever requests and events follow,
  its event is refused and the record is left as it was.\<close>

theorem replaced_instance_is_powerless:
  assumes "record_apply_control q r = (Inr (), t)" and "cr_kind q = Start"
    and "record_step\<^sup>*\<^sup>* t u"
    and "si_generation (le_instance e) \<le> lr_generation r"
  shows "\<exists>x. record_apply_event e u = (Inl x, u)"
proof (rule record_apply_event_stale)
  have "unat (lr_generation t) = unat (lr_generation r) + 1"
    using record_apply_generation [of "Request q" r] assms(1,2) by simp
  then have "lr_generation r < lr_generation t" by (simp add: word_less_nat_alt)
  also have "\<dots> \<le> lr_generation u" by (rule run_generation_mono [OF assms(3)])
  finally show "si_generation (le_instance e) \<noteq> lr_generation u" using assms(4) by auto
qed

theorem replaced_instance_is_powerless_witness:
  "\<exists>x. record_apply_event (lifecycle_event_new sample_instance Ready) (sample_restarted 2) = (Inl x, sample_restarted 2)"
proof (rule replaced_instance_is_powerless)
  show "record_apply_control (control_request_new 7 Start) ((sample_restarted 1)\<lparr>lr_state := Faulted\<rparr>)
      = (Inr (), sample_restarted 2)"
    by (simp add: record_eval sample_restarted_def)
qed (simp_all add: record_eval sample_restarted_def sample_instance_def)

lemma run_record_generation:
  "unat (lr_generation (run_record xs r)) = unat (lr_generation r) + accepted_starts xs r"
  by (induction xs arbitrary: r) (auto simp: record_apply_generation)

text \<open>C22 (bounds). The generation of a record counts the starts that were accepted since its
  declaration: the 32-bit counter never wraps, so at most \<open>u32::MAX\<close> starts are ever accepted, and two
  instances started at different points of a run have different generations.\<close>

theorem generation_counts_starts:
  "unat (lr_generation (run_record xs (record_declared s))) = accepted_starts xs (record_declared s) \<and>
   accepted_starts xs (record_declared s) < 2 ^ 32"
  using run_record_generation [of xs "record_declared s"]
    unat_bound [of "lr_generation (run_record xs (record_declared s))"]
  by (simp add: record_declared_def)

section \<open>The tracker as a registry\<close>

interpretation tracker: slot_registry lr_service tracker_find record_declared tracker_declare
    DuplicateService CapacityExceeded
  by (rule slot_registryI) (simp_all add: tracker_find_def tracker_declare_def record_declared_def)

lemma tracker_record_lookup:
  "tracker_record k xs = ok_or UnknownService (tracker.lookup k xs)"
  by (auto simp: tracker_record_def tracker.lookup_def ok_or_def split: option.splits)

lemma tracker_record_mut_eq:
  "tracker_record_mut k f xs =
    (case tracker.lookup k xs of
       None \<Rightarrow> (Inl UnknownService, xs)
     | Some r \<Rightarrow> (Inr (fst (f r)), xs[the (tracker_find k xs) := Some (snd (f r))]))"
  by (auto simp: tracker_record_mut_def tracker.lookup_def Let_def split: option.splits prod.splits)
end
