(* ===== verification/Svc_Dependency.thy ===== *)
theory Svc_Dependency
  imports Svc_Lifecycle
begin

text \<open>
  Dependency metadata and the dependency graph (\<open>service-lifecycle/src/dependency.rs\<close> and
  \<open>dependency_graph.rs\<close>) with the health snapshot it consults. The graph is an instance of the slot
  registry. The depth-bounded search is characterised by the length of dependency paths; from that
  follows that a graph of at most 33 services stays acyclic, and that bring-up cannot deadlock.
\<close>

section \<open>Health status and dependency metadata\<close>

datatype health_status = Unknown | Ok | Degraded | Unhealthy

fun health_status_repr :: "health_status \<Rightarrow> u8" where
  "health_status_repr Unknown = 0"
| "health_status_repr Ok = 1"
| "health_status_repr Degraded = 2"
| "health_status_repr Unhealthy = 3"

definition health_status_from_repr :: "u8 \<Rightarrow> health_status option" where
  "health_status_from_repr raw =
    (if raw = 0 then Some Unknown
     else if raw = 1 then Some Ok
     else if raw = 2 then Some Degraded
     else if raw = 3 then Some Unhealthy
     else None)"

definition MAX_INLINE_DEPENDENCIES :: nat where
  "MAX_INLINE_DEPENDENCIES = 4"

record dependency_edge =
  depends_on :: service_id
  required_state :: lifecycle_state

record dependency_metadata =
  dm_service :: service_id
  dm_edges :: "dependency_edge list"
  dm_edge_count :: u8

definition metadata_empty :: "service_id \<Rightarrow> dependency_metadata" where
  "metadata_empty service =
     \<lparr>dm_service = service,
      dm_edges = replicate MAX_INLINE_DEPENDENCIES \<lparr>depends_on = 0, required_state = Declared\<rparr>,
      dm_edge_count = 0\<rparr>"

definition push_edge :: "dependency_edge \<Rightarrow> dependency_metadata \<Rightarrow> bool \<times> dependency_metadata" where
  "push_edge edge m =
    (if unat (dm_edge_count m) \<ge> MAX_INLINE_DEPENDENCIES then (False, m)
     else (True, m\<lparr>dm_edges := (dm_edges m)[unat (dm_edge_count m) := edge],
                   dm_edge_count := dm_edge_count m + 1\<rparr>))"

definition single_dependency :: "service_id \<Rightarrow> service_id \<Rightarrow> lifecycle_state \<Rightarrow> dependency_metadata" where
  "single_dependency service dependency required =
     snd (push_edge \<lparr>depends_on = dependency, required_state = required\<rparr> (metadata_empty service))"

definition metadata_edges :: "dependency_metadata \<Rightarrow> dependency_edge list" where
  "metadata_edges m = take (unat (dm_edge_count m)) (dm_edges m)"

section \<open>The health snapshot\<close>

datatype start_block_reason =
    DependencyNotReady service_id lifecycle_state lifecycle_state
  | DependencyFailed service_id lifecycle_state
  | DependencyUnhealthy service_id health_status

datatype start_readiness = Ready_to_start | Blocked start_block_reason

datatype graph_error =
    GraphUnknownService
  | GraphDuplicateService
  | GraphCapacityExceeded
  | UnknownDependency service_id service_id
  | SelfDependency service_id
  | DuplicateDependencyEdge service_id service_id
  | CycleDetected service_id
  | EdgeCapacityExceeded service_id

record health_snapshot =
  hs_entries :: "(service_id \<times> health_status) list"
  hs_count :: nat

definition snapshot_empty :: "nat \<Rightarrow> health_snapshot" where
  "snapshot_empty n = \<lparr>hs_entries = replicate n (0, Unknown), hs_count = 0\<rparr>"

definition snapshot_set :: "service_id \<Rightarrow> health_status \<Rightarrow> health_snapshot \<Rightarrow> (graph_error + unit) \<times> health_snapshot" where
  "snapshot_set service status h =
    (case position (\<lambda>(id, _). id = service) (hs_entries h) of
       Some index \<Rightarrow> (Inr (), h\<lparr>hs_entries := (hs_entries h)[index := (fst (hs_entries h ! index), status)]\<rparr>)
     | None \<Rightarrow>
         if hs_count h \<ge> length (hs_entries h) then (Inl GraphCapacityExceeded, h)
         else (Inr (), h\<lparr>hs_entries := (hs_entries h)[hs_count h := (service, status)],
                         hs_count := hs_count h + 1\<rparr>))"

definition snapshot_status :: "service_id \<Rightarrow> health_snapshot \<Rightarrow> health_status option" where
  "snapshot_status service h =
     map_option snd (List.find (\<lambda>(id, _). id = service) (take (hs_count h) (hs_entries h)))"

section \<open>The graph\<close>

type_synonym dependency_graph = "dependency_metadata option list"

definition graph_new :: "nat \<Rightarrow> dependency_graph" where
  "graph_new n = replicate n None"

definition graph_find_index :: "service_id \<Rightarrow> dependency_graph \<Rightarrow> nat option" where
  "graph_find_index service g =
     position (\<lambda>entry. case entry of Some m \<Rightarrow> dm_service m = service | None \<Rightarrow> False) g"

definition graph_declare :: "service_id \<Rightarrow> dependency_graph \<Rightarrow> (graph_error + unit) \<times> dependency_graph" where
  "graph_declare service g =
    (if graph_find_index service g \<noteq> None then (Inl GraphDuplicateService, g)
     else case position (\<lambda>entry. entry = None) g of
         None \<Rightarrow> (Inl GraphCapacityExceeded, g)
       | Some slot \<Rightarrow> (Inr (), g[slot := Some (metadata_empty service)]))"

text \<open>The scan of the edges with the prefix of the \<open>seen\<close> array that is filled so far.\<close>

fun duplicate_edge :: "service_id list \<Rightarrow> dependency_edge list \<Rightarrow> service_id option" where
  "duplicate_edge seen [] = None"
| "duplicate_edge seen (edge # edges) =
     (if depends_on edge \<in> set seen then Some (depends_on edge)
      else duplicate_edge (seen @ [depends_on edge]) edges)"

definition validate_metadata_shape :: "dependency_metadata \<Rightarrow> graph_error + unit" where
  "validate_metadata_shape m =
    (if unat (dm_edge_count m) > MAX_INLINE_DEPENDENCIES then Inl (EdgeCapacityExceeded (dm_service m))
     else if list_ex (\<lambda>edge. depends_on edge = dm_service m) (metadata_edges m)
     then Inl (SelfDependency (dm_service m))
     else case duplicate_edge [] (metadata_edges m) of
         Some d \<Rightarrow> Inl (DuplicateDependencyEdge (dm_service m) d)
       | None \<Rightarrow> Inr ())"

definition find_metadata :: "service_id \<Rightarrow> dependency_graph \<Rightarrow> dependency_metadata option" where
  "find_metadata service g =
     (case List.find (\<lambda>entry. case entry of Some m \<Rightarrow> dm_service m = service | None \<Rightarrow> False) g of
        Some entry \<Rightarrow> entry
      | None \<Rightarrow> None)"

definition MAX_DEPENDENCY_WALK_DEPTH :: nat where
  "MAX_DEPENDENCY_WALK_DEPTH = 32"

function dependency_path_reaches :: "service_id \<Rightarrow> service_id \<Rightarrow> dependency_graph \<Rightarrow> nat \<Rightarrow> bool" where
  "dependency_path_reaches current target g depth =
    (if current = target then True
     else if depth \<ge> MAX_DEPENDENCY_WALK_DEPTH then False
     else case find_metadata current g of
         None \<Rightarrow> False
       | Some m \<Rightarrow> list_ex (\<lambda>edge. dependency_path_reaches (depends_on edge) target g (depth + 1)) (metadata_edges m))"
  by pat_completeness auto
termination
  by (relation "measure (\<lambda>(_, _, _, depth). MAX_DEPENDENCY_WALK_DEPTH - depth)") auto

declare dependency_path_reaches.simps [simp del]

definition detect_cycle_involving :: "service_id \<Rightarrow> dependency_graph \<Rightarrow> bool" where
  "detect_cycle_involving service g =
    (case find_metadata service g of
       None \<Rightarrow> False
     | Some m \<Rightarrow> list_ex (\<lambda>edge. dependency_path_reaches (depends_on edge) service g 0) (metadata_edges m))"

definition graph_set_dependencies :: "dependency_metadata \<Rightarrow> dependency_graph \<Rightarrow> (graph_error + unit) \<times> dependency_graph" where
  "graph_set_dependencies m g =
    (case graph_find_index (dm_service m) g of
       None \<Rightarrow> (Inl GraphUnknownService, g)
     | Some index \<Rightarrow>
         (case validate_metadata_shape m of
            Inl e \<Rightarrow> (Inl e, g)
          | Inr _ \<Rightarrow>
              (case List.find (\<lambda>edge. graph_find_index (depends_on edge) g = None) (metadata_edges m) of
                 Some edge \<Rightarrow> (Inl (UnknownDependency (dm_service m) (depends_on edge)), g)
               | None \<Rightarrow>
                   (let previous = g ! index; g' = g[index := Some m] in
                    if detect_cycle_involving (dm_service m) g'
                    then (Inl (CycleDetected (dm_service m)), g'[index := previous])
                    else (Inr (), g')))))"

definition graph_metadata :: "service_id \<Rightarrow> dependency_graph \<Rightarrow> dependency_metadata option" where
  "graph_metadata service g =
     (case graph_find_index service g of Some index \<Rightarrow> g ! index | None \<Rightarrow> None)"

definition has_dependencies :: "service_id \<Rightarrow> dependency_graph \<Rightarrow> bool" where
  "has_dependencies service g =
     (case graph_metadata service g of Some m \<Rightarrow> dm_edge_count m > 0 | None \<Rightarrow> False)"

fun lifecycle_state_satisfies :: "lifecycle_state \<Rightarrow> lifecycle_state \<Rightarrow> bool" where
  "lifecycle_state_satisfies actual Declared \<longleftrightarrow> True"
| "lifecycle_state_satisfies actual Starting \<longleftrightarrow> actual = Starting \<or> actual = Running \<or> actual = Stopping"
| "lifecycle_state_satisfies actual Running \<longleftrightarrow> actual = Running"
| "lifecycle_state_satisfies actual Stopping \<longleftrightarrow> actual = Stopping \<or> actual = Running"
| "lifecycle_state_satisfies actual Exited \<longleftrightarrow> False"
| "lifecycle_state_satisfies actual Faulted \<longleftrightarrow> False"
| "lifecycle_state_satisfies actual RestartPending \<longleftrightarrow> actual = RestartPending \<or> actual = Starting \<or> actual = Running"

definition edge_blocks_start :: "dependency_edge \<Rightarrow> lifecycle_record \<Rightarrow> health_snapshot option \<Rightarrow> start_block_reason option" where
  "edge_blocks_start edge r health =
    (if lr_state r = Exited \<or> lr_state r = Faulted then Some (DependencyFailed (depends_on edge) (lr_state r))
     else if \<not> lifecycle_state_satisfies (lr_state r) (required_state edge)
     then Some (DependencyNotReady (depends_on edge) (lr_state r) (required_state edge))
     else case health of
         Some snapshot \<Rightarrow>
           if snapshot_status (depends_on edge) snapshot = Some Unhealthy
           then Some (DependencyUnhealthy (depends_on edge) Unhealthy) else None
       | None \<Rightarrow> None)"

fun readiness_of_edges :: "service_id \<Rightarrow> dependency_edge list \<Rightarrow> lifecycle_tracker \<Rightarrow> health_snapshot option
    \<Rightarrow> graph_error + start_readiness" where
  "readiness_of_edges service [] t health = Inr Ready_to_start"
| "readiness_of_edges service (edge # edges) t health =
     (case tracker_record (depends_on edge) t of
        Inl _ \<Rightarrow> Inl (UnknownDependency service (depends_on edge))
      | Inr r \<Rightarrow>
          (case edge_blocks_start edge r health of
             Some reason \<Rightarrow> Inr (Blocked reason)
           | None \<Rightarrow> readiness_of_edges service edges t health))"

definition evaluate_start_readiness :: "service_id \<Rightarrow> dependency_graph \<Rightarrow> lifecycle_tracker \<Rightarrow> health_snapshot option
    \<Rightarrow> graph_error + start_readiness" where
  "evaluate_start_readiness service g t health =
     rbind (ok_or GraphUnknownService (graph_metadata service g))
       (\<lambda>m. readiness_of_edges service (metadata_edges m) t health)"

interpretation graph: slot_registry dm_service graph_find_index metadata_empty graph_declare
    GraphDuplicateService GraphCapacityExceeded
  by (rule slot_registryI) (simp_all add: graph_find_index_def graph_declare_def metadata_empty_def)

section \<open>Paths in the graph\<close>

definition dep_edge :: "dependency_graph \<Rightarrow> service_id \<Rightarrow> service_id \<Rightarrow> bool" where
  "dep_edge g a b \<longleftrightarrow> (\<exists>m. find_metadata a g = Some m \<and> b \<in> depends_on ` set (metadata_edges m))"

definition graph_keys :: "dependency_graph \<Rightarrow> service_id set" where
  "graph_keys g = {dm_service m |m. Some m \<in> set g}"

definition graph_wf :: "dependency_graph \<Rightarrow> bool" where
  "graph_wf g \<longleftrightarrow> keys_unique dm_service g \<and> (\<forall>a b. dep_edge g a b \<longrightarrow> b \<in> graph_keys g) \<and> (\<forall>x. \<not> (dep_edge g)\<^sup>+\<^sup>+ x x)"

lemma find_metadata_lookup: "find_metadata k g = graph.lookup k g"
  unfolding find_metadata_def graph.lookup_def graph_find_index_def find_position
  by (auto split: option.splits)

lemma graph_metadata_lookup: "graph_metadata k g = graph.lookup k g"
  by (simp add: graph_metadata_def graph.lookup_def)

lemma find_metadata_key: "find_metadata a g = Some m \<Longrightarrow> a \<in> graph_keys g"
proof -
  assume f: "find_metadata a g = Some m"
  then obtain i where "graph_find_index a g = Some i" "g ! i = Some m"
    by (auto simp: find_metadata_lookup graph.lookup_def split: option.splits)
  moreover from this have "i < length g" using graph.locate_hit by blast
  ultimately have "Some m \<in> set g" by (metis nth_mem)
  moreover have "dm_service m = a" using f graph.lookup_key by (simp add: find_metadata_lookup)
  ultimately show ?thesis by (auto simp: graph_keys_def)
qed

lemma graph_keys_find: "a \<in> graph_keys g \<longleftrightarrow> graph_find_index a g \<noteq> None"
proof
  assume "a \<in> graph_keys g"
  then obtain m i where "dm_service m = a" "i < length g" "g ! i = Some m"
    by (auto simp: graph_keys_def in_set_conv_nth)
  then show "graph_find_index a g \<noteq> None" using graph.locate_miss [of a g i] by auto
next
  assume "graph_find_index a g \<noteq> None"
  then obtain i where i: "graph_find_index a g = Some i" by blast
  from graph.locate_hit [OF i] obtain m where "i < length g" "g ! i = Some m" "dm_service m = a"
    by (auto elim: holds_keyE)
  then show "a \<in> graph_keys g" unfolding graph_keys_def by (metis (mono_tags, lifting) mem_Collect_eq nth_mem)
qed

lemma card_graph_keys: "finite (graph_keys g)" "card (graph_keys g) \<le> length g"
proof -
  have eq: "graph_keys g = (dm_service \<circ> the) ` (set g - {None})"
    by (force simp: graph_keys_def image_iff)
  show "finite (graph_keys g)" unfolding eq by simp
  have "card (graph_keys g) \<le> card (set g)"
    unfolding eq by (meson card_image_le card_mono finite_Diff finite_set le_trans Diff_subset)
  then show "card (graph_keys g) \<le> length g" using card_length le_trans by blast
qed

lemma path_reaches_iff:
  "dependency_path_reaches current target g depth \<longleftrightarrow>
     (\<exists>n\<le>MAX_DEPENDENCY_WALK_DEPTH - depth. (dep_edge g ^^ n) current target)"
proof (induction current target g depth rule: dependency_path_reaches.induct)
  case (1 current target g depth)
  let ?K = "MAX_DEPENDENCY_WALK_DEPTH"
  show ?case
  proof (cases "current = target \<or> ?K \<le> depth")
    case True
    then show ?thesis
      by (subst dependency_path_reaches.simps) (auto intro: exI [of _ 0])
  next
    case False
    have IH: "dependency_path_reaches b target g (depth + 1) \<longleftrightarrow>
        (\<exists>n\<le>?K - (depth + 1). (dep_edge g ^^ n) b target)" if e: "dep_edge g current b" for b
    proof -
      from e obtain m x where "find_metadata current g = Some m" "x \<in> set (metadata_edges m)" "b = depends_on x"
        by (auto simp: dep_edge_def)
      with False 1 show ?thesis by auto
    qed
    have "dependency_path_reaches current target g depth \<longleftrightarrow>
        (\<exists>b. dep_edge g current b \<and> dependency_path_reaches b target g (depth + 1))"
      using False by (subst dependency_path_reaches.simps)
        (auto simp: dep_edge_def list_ex_iff split: option.splits)
    also have "\<dots> \<longleftrightarrow> (\<exists>b. dep_edge g current b \<and> (\<exists>n\<le>?K - (depth + 1). (dep_edge g ^^ n) b target))"
      using IH by blast
    also have "\<dots> \<longleftrightarrow> (\<exists>n\<le>?K - (depth + 1). (dep_edge g ^^ Suc n) current target)"
      by (blast dest: relpowp_Suc_D2 intro: relpowp_Suc_I2)
    also have "\<dots> \<longleftrightarrow> (\<exists>n\<le>?K - depth. (dep_edge g ^^ n) current target)" (is "?L \<longleftrightarrow> ?R")
    proof
      assume ?L
      then obtain n where "n \<le> ?K - (depth + 1)" "(dep_edge g ^^ Suc n) current target" by blast
      with False show ?R by (intro exI [of _ "Suc n"]) auto
    next
      assume ?R
      then obtain n where n: "n \<le> ?K - depth" "(dep_edge g ^^ n) current target" by blast
      with False obtain k where "n = Suc k" by (cases n) auto
      with n show ?L by (intro exI [of _ k]) auto
    qed
    finally show ?thesis .
  qed
qed

lemma short_cycle:
  assumes "finite K" and src: "\<And>a b. R a b \<Longrightarrow> a \<in> K" and cyc: "R\<^sup>+\<^sup>+ s s"
  obtains n where "n < card K" and "(R ^^ Suc n) s s"
proof -
  from cyc obtain n0 where "(R ^^ Suc n0) s s"
    by (auto simp: tranclp_power gr0_conv_Suc)
  define n where "n = (LEAST n. (R ^^ Suc n) s s)"
  have n: "(R ^^ Suc n) s s" unfolding n_def by (rule LeastI) fact
  have least: "n \<le> m" if "(R ^^ Suc m) s s" for m unfolding n_def by (rule Least_le) fact
  from n obtain f where f: "f 0 = s" "f (Suc n) = s" "\<And>i. i < Suc n \<Longrightarrow> R (f i) (f (Suc i))"
    unfolding relpowp_fun_conv by blast
  have path: "(R ^^ (j - i)) (f i) (f j)" if "i \<le> j" "j \<le> Suc n" for i j
    unfolding relpowp_fun_conv using that f(3)
    by (intro exI [of _ "\<lambda>k. f (i + k)"]) auto
  have "inj_on f {..n}"
  proof (rule linorder_inj_onI')
    fix i j assume ij: "i \<in> {..n}" "j \<in> {..n}" "i < j"
    show "f i \<noteq> f j"
    proof
      assume eq: "f i = f j"
      have "(R ^^ (i + (Suc n - j))) s s"
        using relpowp_trans [OF path [of 0 i] path [of j "Suc n", folded eq]] ij f by (simp add: eq)
      moreover have "i + (Suc n - j) = Suc (i + (n - j))" using ij by auto
      ultimately have "n \<le> i + (n - j)" using least by metis
      with ij show False by auto
    qed
  qed
  then have "card (f ` {..n}) = Suc n" by (simp add: card_image)
  moreover have "f ` {..n} \<subseteq> K" using f(3) by (auto intro: src simp: less_Suc_eq_le)
  ultimately have "Suc n \<le> card K" using card_mono [OF assms(1)] by metis
  then have "n < card K" by simp
  from that [OF this n] show thesis .
qed

lemma dep_edge_source: "dep_edge g a b \<Longrightarrow> a \<in> graph_keys g"
  by (auto simp: dep_edge_def dest: find_metadata_key)

lemma detect_cycle_complete:
  assumes "length g \<le> 33" and "(dep_edge g)\<^sup>+\<^sup>+ s s"
  shows "detect_cycle_involving s g"
proof -
  from assms(2) obtain n where n: "n < card (graph_keys g)" and c: "(dep_edge g ^^ Suc n) s s"
    using short_cycle [of "graph_keys g" "dep_edge g" s] dep_edge_source card_graph_keys(1) by metis
  from relpowp_Suc_D2 [OF c] obtain d where d: "dep_edge g s d" and p: "(dep_edge g ^^ n) d s" by blast
  have "n \<le> MAX_DEPENDENCY_WALK_DEPTH"
    using n card_graph_keys(2) [of g] assms(1) by (simp add: MAX_DEPENDENCY_WALK_DEPTH_def)
  with p have "dependency_path_reaches d s g 0" by (auto simp: path_reaches_iff)
  with d show ?thesis by (auto simp: dep_edge_def detect_cycle_involving_def list_ex_iff)
qed

lemma detect_cycle_sound:
  assumes "detect_cycle_involving s g"
  shows "(dep_edge g)\<^sup>+\<^sup>+ s s"
proof -
  from assms obtain d n where "dep_edge g s d" and "(dep_edge g ^^ n) d s"
    by (auto simp: detect_cycle_involving_def dep_edge_def list_ex_iff path_reaches_iff split: option.splits)
  then have "(dep_edge g)\<^sup>*\<^sup>* d s" and "dep_edge g s d" by (auto simp: rtranclp_power)
  then show ?thesis by (metis rtranclp_into_tranclp2)
qed

text \<open>Changing the edges out of one node can only close a cycle through that node.\<close>

lemma acyclic_change:
  assumes acyc: "\<And>x. \<not> R\<^sup>+\<^sup>+ x x" and same: "\<And>a b. a \<noteq> s \<Longrightarrow> Q a b \<longleftrightarrow> R a b" and none: "\<not> Q\<^sup>+\<^sup>+ s s"
  shows "\<not> Q\<^sup>+\<^sup>+ x x"
proof -
  have "R\<^sup>+\<^sup>+ x y \<or> Q\<^sup>*\<^sup>* x s \<and> Q\<^sup>+\<^sup>+ s y" if "Q\<^sup>+\<^sup>+ x y" for x y
    using that
  proof (induction rule: tranclp_induct)
    case (base y)
    then show ?case using same by (cases "x = s") auto
  next
    case (step y z)
    show ?case
    proof (cases "y = s")
      case True
      with step.hyps have "Q\<^sup>*\<^sup>* x s" and "Q\<^sup>+\<^sup>+ s z" by auto
      then show ?thesis by blast
    next
      case False
      with step.hyps(2) same have "R y z" by blast
      with step.IH step.hyps(2) show ?thesis by (meson tranclp.trancl_into_trancl)
    qed
  qed
  with acyc none show ?thesis by (meson rtranclp_tranclp_tranclp tranclp_rtranclp_tranclp)
qed

section \<open>Well-formed graphs\<close>

inductive graph_step :: "dependency_graph \<Rightarrow> dependency_graph \<Rightarrow> bool" where
  step_declare: "graph_step g (snd (graph_declare s g))"
| step_set: "graph_step g (snd (graph_set_dependencies m g))"

inductive_cases graph_stepE: "graph_step g h"

lemma graph_keys_lookup: "a \<in> graph_keys g \<longleftrightarrow> graph.lookup a g \<noteq> None"
  by (simp add: graph_keys_find graph.lookup_None_iff)

lemma dep_edge_lookup:
  "dep_edge g a b \<longleftrightarrow> (\<exists>m. graph.lookup a g = Some m \<and> b \<in> depends_on ` set (metadata_edges m))"
  by (simp add: dep_edge_def find_metadata_lookup)

lemma metadata_edges_empty [simp]: "metadata_edges (metadata_empty s) = []"
  by (simp add: metadata_edges_def metadata_empty_def)

lemma graph_wf_new: "graph_wf (graph_new n)"
proof -
  have "\<not> dep_edge (graph_new n) a b" for a b
    using dep_edge_source [of "graph_new n" a b] by (auto simp: graph_keys_def graph_new_def)
  then have "\<not> (dep_edge (graph_new n))\<^sup>+\<^sup>+ a b" for a b by (metis tranclpD)
  with \<open>\<And>a b. \<not> dep_edge (graph_new n) a b\<close> show ?thesis by (simp add: graph_wf_def) (simp add: graph_new_def)
qed

lemma graph_declare_wf:
  assumes "graph_wf g"
  shows "graph_wf (snd (graph_declare s g))"
proof (cases "fst (graph_declare s g)")
  case (Inl e)
  with graph.enrol_error assms show ?thesis by metis
next
  case (Inr u)
  let ?h = "snd (graph_declare s g)"
  from assms have u: "keys_unique dm_service g" by (simp add: graph_wf_def)
  from Inr have ok: "fst (graph_declare s g) = Inr ()" by simp
  then have new: "graph.lookup s g = None" by (simp add: graph.enrol_ok_iff)
  note l = graph.enrol_lookup [OF u ok]
  have "dep_edge ?h = dep_edge g"
    by (rule ext)+ (auto simp: dep_edge_lookup l new)
  moreover have "graph_keys g \<subseteq> graph_keys ?h"
    by (auto simp: graph_keys_lookup l)
  moreover have "keys_unique dm_service ?h" by (rule graph.enrol_unique [OF u])
  ultimately show ?thesis using assms by (auto simp: graph_wf_def)
qed

lemma graph_set_dependencies_error:
  "fst (graph_set_dependencies m g) = Inl e \<Longrightarrow> snd (graph_set_dependencies m g) = g"
  by (auto simp: graph_set_dependencies_def Let_def split: option.splits sum.splits if_splits)

lemma graph_set_dependencies_ok:
  assumes "fst (graph_set_dependencies m g) = Inr ()"
  obtains i where "graph_find_index (dm_service m) g = Some i"
    and "snd (graph_set_dependencies m g) = g[i := Some m]"
    and "validate_metadata_shape m = Inr ()"
    and "\<forall>e\<in>set (metadata_edges m). depends_on e \<in> graph_keys g"
    and "\<not> detect_cycle_involving (dm_service m) (g[i := Some m])"
  using assms
  by (auto simp: graph_set_dependencies_def Let_def find_None_iff graph_keys_find
      split: option.splits sum.splits if_splits)

lemma graph_set_dependencies_wf:
  assumes wf: "graph_wf g" and len: "length g \<le> 33"
  shows "graph_wf (snd (graph_set_dependencies m g))"
proof (cases "fst (graph_set_dependencies m g)")
  case (Inl e)
  with graph_set_dependencies_error wf show ?thesis by metis
next
  case (Inr u)
  then have "fst (graph_set_dependencies m g) = Inr ()" by simp
  then obtain i where i: "graph_find_index (dm_service m) g = Some i"
    and h: "snd (graph_set_dependencies m g) = g[i := Some m]"
    and deps: "\<forall>e\<in>set (metadata_edges m). depends_on e \<in> graph_keys g"
    and nc: "\<not> detect_cycle_involving (dm_service m) (g[i := Some m])"
    by (rule graph_set_dependencies_ok)
  let ?h = "g[i := Some m]" and ?s = "dm_service m"
  from wf have u: "keys_unique dm_service g" by (simp add: graph_wf_def)
  note l = graph.update_lookup [OF u i refl]
  have keys: "graph_keys ?h = graph_keys g"
  proof (rule set_eqI)
    show "x \<in> graph_keys ?h \<longleftrightarrow> x \<in> graph_keys g" for x
      using i graph.lookup_None_iff [of ?s g] by (cases "x = ?s") (simp_all add: graph_keys_lookup l(2))
  qed
  have other: "dep_edge ?h a b \<longleftrightarrow> dep_edge g a b" if "a \<noteq> ?s" for a b
    using that by (simp add: dep_edge_lookup l(2))
  have acyc: "\<not> (dep_edge ?h)\<^sup>+\<^sup>+ x x" for x
  proof (rule acyclic_change [of "dep_edge g" ?s])
    show "\<not> (dep_edge g)\<^sup>+\<^sup>+ x x" for x using wf by (simp add: graph_wf_def)
    show "\<not> (dep_edge ?h)\<^sup>+\<^sup>+ ?s ?s" using detect_cycle_complete [of ?h ?s] len nc by auto
  qed (rule other)
  have "b \<in> graph_keys ?h" if "dep_edge ?h a b" for a b
  proof (cases "a = ?s")
    case True
    with that deps show ?thesis unfolding keys by (auto simp: dep_edge_lookup l(2))
  next
    case False
    with that wf show ?thesis unfolding keys by (auto simp: other graph_wf_def)
  qed
  with acyc l(1) show ?thesis unfolding h by (simp add: graph_wf_def)
qed

lemma graph_step_length: "graph_step g h \<Longrightarrow> length h = length g"
  by (erule graph_stepE)
    (auto simp: graph.enrol_length graph_set_dependencies_def Let_def split: option.splits sum.splits)

interpretation graphs: transition_system "\<lambda>g. \<exists>n\<le>33. g = graph_new n" graph_step
    "\<lambda>g. graph_wf g \<and> length g \<le> 33"
proof
  show "graph_wf h \<and> length h \<le> 33" if "graph_wf g \<and> length g \<le> 33" "graph_step g h" for g h
    using that(2,1) graph_step_length [OF that(2)]
    by cases (simp_all add: graph_declare_wf graph_set_dependencies_wf)
qed (auto simp: graph_wf_new, simp add: graph_new_def)

section \<open>Readiness\<close>

definition edge_satisfied :: "lifecycle_tracker \<Rightarrow> health_snapshot option \<Rightarrow> dependency_edge \<Rightarrow> bool" where
  "edge_satisfied t health e \<longleftrightarrow> (\<exists>r. tracker_record (depends_on e) t = Inr r \<and>
     lr_state r \<noteq> Exited \<and> lr_state r \<noteq> Faulted \<and>
     lifecycle_state_satisfies (lr_state r) (required_state e) \<and>
     (\<forall>h. health = Some h \<longrightarrow> snapshot_status (depends_on e) h \<noteq> Some Unhealthy))"

lemma edge_blocks_start_None:
  "edge_blocks_start e r health = None \<longleftrightarrow>
     lr_state r \<noteq> Exited \<and> lr_state r \<noteq> Faulted \<and>
     lifecycle_state_satisfies (lr_state r) (required_state e) \<and>
     (\<forall>h. health = Some h \<longrightarrow> snapshot_status (depends_on e) h \<noteq> Some Unhealthy)"
  by (auto simp: edge_blocks_start_def split: option.splits)

lemma readiness_of_edges_ready:
  "readiness_of_edges s es t health = Inr Ready_to_start \<longleftrightarrow> (\<forall>e\<in>set es. edge_satisfied t health e)"
proof (induction es)
  case (Cons e es)
  show ?case
  proof (cases "tracker_record (depends_on e) t")
    case (Inr r)
    with Cons show ?thesis
      by (cases "edge_blocks_start e r health")
        (auto simp: edge_satisfied_def edge_blocks_start_None [symmetric])
  qed (simp add: edge_satisfied_def)
qed simp

text \<open>Two services, the second waiting for the first.\<close>

definition sample_pair :: dependency_graph where
  "sample_pair = [Some (metadata_empty 1), Some (metadata_empty 2)]"

definition sample_graph :: dependency_graph where
  "sample_graph = [Some (metadata_empty 1), Some (single_dependency 2 1 Running)]"

definition sample_services :: lifecycle_tracker where
  "sample_services = [Some (record_declared 1), Some (record_declared 2)]"

lemma replicate_4: "replicate 4 x = [x, x, x, x]"
  by (simp add: eval_nat_numeral)

lemma single_dependency_eval:
  "dm_service (single_dependency s d q) = s"
  "metadata_edges (single_dependency s d q) = [\<lparr>depends_on = d, required_state = q\<rparr>]"
  "validate_metadata_shape (single_dependency s d q) = (if d = s then Inl (SelfDependency s) else Inr ())"
  by (simp_all add: single_dependency_def push_edge_def metadata_empty_def metadata_edges_def
      MAX_INLINE_DEPENDENCIES_def validate_metadata_shape_def replicate_4)

lemma metadata_empty_service [simp]: "dm_service (metadata_empty s) = s"
  by (simp add: metadata_empty_def)

lemmas graph_eval = graph_find_index_def graph_metadata_def find_metadata_def single_dependency_eval
  sample_pair_def sample_graph_def

lemma sample_pair_reached: "graph_step\<^sup>*\<^sup>* (graph_new 2) sample_pair"
proof -
  have "sample_pair = snd (graph_declare 2 (snd (graph_declare 1 (graph_new 2))))"
    by (simp add: graph_eval graph_declare_def graph_new_def numeral_2_eq_2)
  then show ?thesis by (metis converse_rtranclp_into_rtranclp rtranclp.rtrancl_refl step_declare)
qed

lemma sample_graph_reached: "graph_step\<^sup>*\<^sup>* (graph_new 2) sample_graph"
proof -
  have "dependency_path_reaches 1 2 sample_graph 0 = False"
    by (subst dependency_path_reaches.simps) (simp add: graph_eval)
  then have "sample_graph = snd (graph_set_dependencies (single_dependency 2 1 Running) sample_pair)"
    by (simp add: graph_set_dependencies_def detect_cycle_involving_def graph_eval)
  then have "graph_step sample_pair sample_graph" by (metis step_set)
  with sample_pair_reached show ?thesis by simp
qed

lemma sample_graph_edge: "dep_edge sample_graph a b \<longleftrightarrow> a = 2 \<and> b = 1"
  by (auto simp: dep_edge_def graph_eval)

lemma sample_graph_keys: "graph_keys sample_graph = {1, 2}"
proof (rule set_eqI)
  show "k \<in> graph_keys sample_graph \<longleftrightarrow> k \<in> {1, 2}" for k
    by (simp add: graph_keys_find graph_eval)
qed

text \<open>C17 (safety). A dependency graph with at most 33 positions, filled by any sequence of declarations
  and dependency updates, never contains a dependency cycle and never names a service that is not
  declared, although the cycle search gives up after 32 steps: a shortest cycle through the updated
  service has at most as many edges as there are services.\<close>

theorem dependency_graph_acyclic:
  assumes "n \<le> 33" and "graph_step\<^sup>*\<^sup>* (graph_new n) g"
  shows "\<not> (dep_edge g)\<^sup>+\<^sup>+ s s \<and> (dep_edge g a b \<longrightarrow> b \<in> graph_keys g)"
  using graphs.reachable_inv [OF _ assms(2)] assms(1) by (auto simp: graph_wf_def)

theorem dependency_graph_acyclic_witness:
  "\<not> (dep_edge sample_graph)\<^sup>+\<^sup>+ 2 2 \<and> (1::service_id) \<in> graph_keys sample_graph"
  using dependency_graph_acyclic [OF _ sample_graph_reached, of 2 2 1]
  by (simp add: sample_graph_edge)

text \<open>C18 (functional). In a graph with at most 33 positions, which the 32 steps of the cycle search cover, a
  dependency update of a declared service with at most four distinct declared dependencies, none of them
  itself, is refused with \<open>CycleDetected\<close> exactly when it would close a dependency cycle, and then the graph is
  as it was; otherwise it takes effect.\<close>

theorem set_dependencies_refuses_cycles:
  assumes "length g \<le> 33" and "graph_find_index (dm_service m) g = Some i"
    and "validate_metadata_shape m = Inr ()"
    and "\<forall>e\<in>set (metadata_edges m). graph_find_index (depends_on e) g \<noteq> None"
  shows "graph_set_dependencies m g =
    (if (dep_edge (g[i := Some m]))\<^sup>+\<^sup>+ (dm_service m) (dm_service m)
     then (Inl (CycleDetected (dm_service m)), g) else (Inr (), g[i := Some m]))"
proof -
  have "List.find (\<lambda>e. graph_find_index (depends_on e) g = None) (metadata_edges m) = None"
    using assms(4) by (auto simp: find_None_iff)
  moreover have "detect_cycle_involving (dm_service m) (g[i := Some m]) \<longleftrightarrow>
      (dep_edge (g[i := Some m]))\<^sup>+\<^sup>+ (dm_service m) (dm_service m)"
    using detect_cycle_sound detect_cycle_complete [of "g[i := Some m]"] assms(1) by auto
  ultimately show ?thesis by (simp add: graph_set_dependencies_def assms(2,3) Let_def)
qed

theorem set_dependencies_refuses_cycles_witness:
  "graph_set_dependencies (single_dependency 1 2 Running) sample_graph = (Inl (CycleDetected 1), sample_graph)"
proof -
  let ?m = "single_dependency 1 2 Running"
  have "dep_edge (sample_graph[0 := Some ?m]) 1 2" "dep_edge (sample_graph[0 := Some ?m]) 2 1"
    by (simp_all add: dep_edge_def graph_eval)
  then have "(dep_edge (sample_graph[0 := Some ?m]))\<^sup>+\<^sup>+ 1 1"
    by (meson tranclp.r_into_trancl tranclp.trancl_into_trancl)
  then show ?thesis
    using set_dependencies_refuses_cycles [of sample_graph ?m 0]
    by (simp add: graph_eval)
qed

lemma running_dependency_satisfied:
  assumes "tracker_record d t = Inr r" and "lr_state r = Running" and "depends_on e = d"
    and "required_state e \<notin> {Exited, Faulted}"
    and "\<And>h k. health = Some h \<Longrightarrow> snapshot_status k h \<noteq> Some Unhealthy"
  shows "edge_satisfied t health e"
  using assms by (cases "required_state e") (auto simp: edge_satisfied_def)

text \<open>C19 (liveness). The dependencies alone never block bring-up for good. Let the graph have at most 33
  positions and be filled by declarations and dependency updates, let the tracker know every declared service,
  let no edge ask for the states exited or faulted, and let the health view report nobody unhealthy. Then, as
  long as some declared service is not running, the start of one that is not running is evaluated as ready.
  That service may already be starting or stopping: readiness looks only at the dependencies.\<close>

theorem bring_up_progress:
  assumes reach: "n \<le> 33" "graph_step\<^sup>*\<^sup>* (graph_new n) g"
    and known: "\<forall>k\<in>graph_keys g. \<exists>r. tracker_record k t = Inr r"
    and req: "\<forall>k m e. graph_metadata k g = Some m \<longrightarrow> e \<in> set (metadata_edges m) \<longrightarrow> required_state e \<notin> {Exited, Faulted}"
    and health: "\<forall>h k. health = Some h \<longrightarrow> snapshot_status k h \<noteq> Some Unhealthy"
    and down: "k0 \<in> graph_keys g" "tracker_record k0 t = Inr r0" "lr_state r0 \<noteq> Running"
  shows "\<exists>k\<in>graph_keys g. (\<exists>r. tracker_record k t = Inr r \<and> lr_state r \<noteq> Running) \<and>
      evaluate_start_readiness k g t health = Inr Ready_to_start"
proof -
  let ?up = "\<lambda>k. \<exists>r. tracker_record k t = Inr r \<and> lr_state r = Running"
  let ?D = "{k \<in> graph_keys g. \<not> ?up k}"
  have wf: "graph_wf g" using graphs.reachable_inv [OF _ reach(2)] reach(1) by auto
  have fin: "finite {(b, a). dep_edge g a b}"
  proof (rule finite_subset)
    show "{(b, a). dep_edge g a b} \<subseteq> graph_keys g \<times> graph_keys g"
      using wf dep_edge_source by (auto simp: graph_wf_def)
  qed (simp add: card_graph_keys(1))
  have "wfP (\<lambda>b a. dep_edge g a b)"
  proof -
    have "acyclic {(a, b). dep_edge g a b}"
      using wf by (auto simp: graph_wf_def acyclic_def tranclp_unfold)
    then have "acyclic ({(a, b). dep_edge g a b}\<inverse>)" by simp
    moreover have "{(a, b). dep_edge g a b}\<inverse> = {(b, a). dep_edge g a b}" by auto
    ultimately show ?thesis using finite_acyclic_wf [OF fin] by (simp add: wfp_def)
  qed
  moreover have "k0 \<in> ?D" using down by auto
  ultimately obtain k where k: "k \<in> ?D" and min: "\<And>d. dep_edge g k d \<Longrightarrow> d \<notin> ?D"
    by (metis (no_types, lifting) wfp_eq_minimal)
  from k obtain m where m: "graph_metadata k g = Some m"
    by (auto simp: graph_keys_lookup graph_metadata_lookup)
  have "edge_satisfied t health e" if e: "e \<in> set (metadata_edges m)" for e
  proof -
    have "dep_edge g k (depends_on e)" using m e by (auto simp: dep_edge_lookup graph_metadata_lookup)
    with min wf have "?up (depends_on e)" by (auto simp: graph_wf_def)
    with req m e health show ?thesis by (blast intro: running_dependency_satisfied)
  qed
  then have "evaluate_start_readiness k g t health = Inr Ready_to_start"
    by (simp add: evaluate_start_readiness_def m ok_or_def readiness_of_edges_ready)
  moreover from k known obtain r where "tracker_record k t = Inr r" "lr_state r \<noteq> Running" by blast
  ultimately show ?thesis using k by blast
qed

theorem bring_up_progress_witness:
  "\<exists>k\<in>graph_keys sample_graph.
     (\<exists>r. tracker_record k sample_services = Inr r \<and> lr_state r \<noteq> Running) \<and>
     evaluate_start_readiness k sample_graph sample_services None = Inr Ready_to_start"
proof (rule bring_up_progress [OF _ sample_graph_reached])
  show "tracker_record 1 sample_services = Inr (record_declared 1)"
    by (simp add: sample_services_def tracker_record_def tracker_find_def record_declared_def ok_or_def)
  show "\<forall>k\<in>graph_keys sample_graph. \<exists>r. tracker_record k sample_services = Inr r"
    by (simp add: sample_graph_keys sample_services_def tracker_record_def tracker_find_def
        record_declared_def ok_or_def)
  show "\<forall>k m e. graph_metadata k sample_graph = Some m \<longrightarrow> e \<in> set (metadata_edges m) \<longrightarrow>
      required_state e \<notin> {Exited, Faulted}"
    by (auto simp: graph_eval split: if_splits)
qed (simp_all add: sample_graph_keys record_declared_def)
end
