(* ===== verification/Svc_Health.thy ===== *)
theory Svc_Health
  imports Svc_Dependency
begin

text \<open>
  Health reports and the liveness watchdog (\<open>service-lifecycle/src/health.rs\<close>, \<open>time.rs\<close> and
  \<open>health_tracker.rs\<close>). The tracker is the third instance of the slot registry. The results: the
  conversion of a report period to ticks never shortens it, a silent instance is reported exactly
  once and not before its deadline, and a stale report changes nothing.
\<close>

section \<open>Monotonic ticks\<close>

type_synonym ticks = u64

record liveness_config =
  report_period_ticks :: u64

definition liveness_new :: "u64 \<Rightarrow> liveness_config" where
  "liveness_new period = \<lparr>report_period_ticks = period\<rparr>"

definition div_ceil :: "nat \<Rightarrow> nat \<Rightarrow> nat" where
  "div_ceil a b = (a + b - 1) div b"

definition from_millis :: "u64 \<Rightarrow> u64 \<Rightarrow> liveness_config" where
  "from_millis report_period_ms tick_period_ns =
    (if report_period_ms = 0 then liveness_new 1
     else if tick_period_ns = 0 then liveness_new (max report_period_ms 1)
     else let ticks = max (div_ceil (unat report_period_ms * 1000000) (unat tick_period_ns)) 1
          in liveness_new (if ticks < 2 ^ 64 then word_of_nat ticks else - 1))"

definition ticks_add :: "ticks \<Rightarrow> u64 \<Rightarrow> ticks" where
  "ticks_add base delta = (case checked_add base delta of Some v \<Rightarrow> v | None \<Rightarrow> - 1)"

definition ticks_reached :: "ticks \<Rightarrow> ticks \<Rightarrow> bool" where
  "ticks_reached now deadline \<longleftrightarrow> now \<ge> deadline"

section \<open>Reports and outcomes\<close>

record health_report =
  hr_service :: service_id
  hr_generation :: instance_generation
  hr_status :: health_status
  hr_detail_reserved :: u32

definition health_report_new :: "service_id \<Rightarrow> instance_generation \<Rightarrow> health_status \<Rightarrow> health_report" where
  "health_report_new service generation status =
     \<lparr>hr_service = service, hr_generation = generation, hr_status = status, hr_detail_reserved = 0\<rparr>"

datatype failure_reason = LivenessTimeout | ProcessExited u32 | ProcessFaulted u32 | SelfReportedUnhealthy

fun failure_token :: "failure_reason \<Rightarrow> string" where
  "failure_token LivenessTimeout = ''timeout''"
| "failure_token (ProcessExited _) = ''exit''"
| "failure_token (ProcessFaulted _) = ''fault''"
| "failure_token SelfReportedUnhealthy = ''self_reported''"

record failure_event =
  fe_service :: service_id
  fe_generation :: instance_generation
  fe_reason :: failure_reason
  fe_observed_at :: ticks

datatype report_outcome =
    AcceptedHealthy instance_generation
  | AcceptedDegraded instance_generation
  | MarkedUnhealthy instance_generation failure_reason
  | IgnoredStale instance_generation instance_generation
  | IgnoredNoActiveInstance
  | IgnoredUnknownService

datatype failure_outcome =
    FailureMarkedUnhealthy failure_event
  | FailureIgnoredStale instance_generation instance_generation
  | FailureIgnoredNoActiveInstance
  | FailureIgnoredUnknownService

section \<open>The record of a watched service\<close>

datatype watch_state = Healthy | WatchDegraded | Failed failure_reason

record health_record =
  hl_service :: service_id
  hl_active :: "instance_generation option"
  hl_watch :: "watch_state option"
  hl_last_report :: "ticks option"
  hl_deadline :: "ticks option"

definition health_record_new :: "service_id \<Rightarrow> health_record" where
  "health_record_new service =
     \<lparr>hl_service = service, hl_active = None, hl_watch = None, hl_last_report = None, hl_deadline = None\<rparr>"

definition is_healthy :: "health_record \<Rightarrow> bool" where
  "is_healthy r \<longleftrightarrow> hl_watch r = Some Healthy \<or> hl_watch r = Some WatchDegraded"

definition failure_reason_of :: "health_record \<Rightarrow> failure_reason option" where
  "failure_reason_of r = (case hl_watch r of Some (Failed reason) \<Rightarrow> Some reason | _ \<Rightarrow> None)"

definition begin_instance :: "instance_generation \<Rightarrow> ticks \<Rightarrow> liveness_config \<Rightarrow> health_record \<Rightarrow> health_record" where
  "begin_instance generation now config r =
     r\<lparr>hl_active := Some generation, hl_watch := None, hl_last_report := None,
       hl_deadline := Some (ticks_add now (report_period_ticks config))\<rparr>"

definition clear_active_instance :: "health_record \<Rightarrow> health_record" where
  "clear_active_instance r =
     r\<lparr>hl_active := None, hl_watch := None, hl_last_report := None, hl_deadline := None\<rparr>"

definition report_counts_for_liveness :: "health_status \<Rightarrow> bool" where
  "report_counts_for_liveness status \<longleftrightarrow> status = Ok \<or> status = Degraded \<or> status = Unknown"

text \<open>The last arm of the match is unreachable: unhealthy reports have returned before it.\<close>

definition apply_report :: "health_report \<Rightarrow> ticks \<Rightarrow> liveness_config \<Rightarrow> health_record \<Rightarrow> report_outcome \<times> health_record" where
  "apply_report report now config r =
    (if hr_service report \<noteq> hl_service r then (IgnoredUnknownService, r)
     else case hl_active r of
       None \<Rightarrow> (IgnoredNoActiveInstance, r)
     | Some active \<Rightarrow>
        if hr_generation report \<noteq> active then (IgnoredStale (hr_generation report) active, r)
        else let r = r\<lparr>hl_last_report := Some now\<rparr> in
        if hr_status report = Unhealthy
        then (MarkedUnhealthy active SelfReportedUnhealthy,
              r\<lparr>hl_watch := Some (Failed SelfReportedUnhealthy), hl_deadline := None\<rparr>)
        else if \<not> report_counts_for_liveness (hr_status report) then (IgnoredNoActiveInstance, r)
        else let r = r\<lparr>hl_deadline := Some (ticks_add now (report_period_ticks config))\<rparr> in
        case hr_status report of
          Ok \<Rightarrow> (AcceptedHealthy active, r\<lparr>hl_watch := Some Healthy\<rparr>)
        | Degraded \<Rightarrow> (AcceptedDegraded active, r\<lparr>hl_watch := Some WatchDegraded\<rparr>)
        | Unknown \<Rightarrow>
            (AcceptedHealthy active, if hl_watch r = None then r\<lparr>hl_watch := Some Healthy\<rparr> else r)
        | Unhealthy \<Rightarrow> (IgnoredNoActiveInstance, r))"

definition notify_lifecycle_failure ::
    "instance_generation \<Rightarrow> event_kind \<Rightarrow> u32 \<Rightarrow> ticks \<Rightarrow> health_record \<Rightarrow> failure_outcome \<times> health_record" where
  "notify_lifecycle_failure generation kind status_code now r =
    (case hl_active r of
       None \<Rightarrow> (FailureIgnoredNoActiveInstance, r)
     | Some active \<Rightarrow>
        if generation \<noteq> active then (FailureIgnoredStale generation active, r)
        else case (if kind = EventExited then Some (ProcessExited status_code)
                   else if kind = EventFaulted then Some (ProcessFaulted status_code) else None) of
            None \<Rightarrow> (FailureIgnoredNoActiveInstance, r)
          | Some reason \<Rightarrow>
              (FailureMarkedUnhealthy
                 \<lparr>fe_service = hl_service r, fe_generation = active, fe_reason = reason, fe_observed_at = now\<rparr>,
               r\<lparr>hl_watch := Some (Failed reason), hl_deadline := None\<rparr>))"

definition poll_timeout :: "ticks \<Rightarrow> health_record \<Rightarrow> failure_event option \<times> health_record" where
  "poll_timeout now r =
    (if failure_reason_of r \<noteq> None then (None, r)
     else case hl_deadline r of
       None \<Rightarrow> (None, r)
     | Some deadline \<Rightarrow>
        if \<not> ticks_reached now deadline then (None, r)
        else case hl_active r of
          None \<Rightarrow> (None, r)
        | Some generation \<Rightarrow>
            (Some \<lparr>fe_service = hl_service r, fe_generation = generation, fe_reason = LivenessTimeout, fe_observed_at = now\<rparr>,
             r\<lparr>hl_watch := Some (Failed LivenessTimeout), hl_deadline := None\<rparr>))"

section \<open>The health tracker\<close>

datatype health_tracker_error = HealthDuplicateService | HealthUnknownService | HealthCapacityExceeded

type_synonym health_tracker = "health_record option list"

definition health_tracker_new :: "nat \<Rightarrow> health_tracker" where
  "health_tracker_new n = replicate n None"

definition health_find :: "service_id \<Rightarrow> health_tracker \<Rightarrow> nat option" where
  "health_find service records =
     position (\<lambda>entry. case entry of Some r \<Rightarrow> hl_service r = service | None \<Rightarrow> False) records"

definition health_register :: "service_id \<Rightarrow> health_tracker \<Rightarrow> (health_tracker_error + unit) \<times> health_tracker" where
  "health_register service records =
    (if health_find service records \<noteq> None then (Inl HealthDuplicateService, records)
     else case position (\<lambda>entry. entry = None) records of
         None \<Rightarrow> (Inl HealthCapacityExceeded, records)
       | Some slot \<Rightarrow> (Inr (), records[slot := Some (health_record_new service)]))"

definition health_record_mut ::
    "service_id \<Rightarrow> (health_record \<Rightarrow> 'a \<times> health_record) \<Rightarrow> health_tracker
     \<Rightarrow> (health_tracker_error + 'a) \<times> health_tracker" where
  "health_record_mut service update records =
    (case health_find service records of
       None \<Rightarrow> (Inl HealthUnknownService, records)
     | Some index \<Rightarrow>
         (case records ! index of
            None \<Rightarrow> (Inl HealthUnknownService, records)
          | Some r \<Rightarrow> (let (a, r') = update r in (Inr a, records[index := Some r']))))"

fun poll_timeouts :: "ticks \<Rightarrow> health_tracker \<Rightarrow> failure_event list \<times> health_tracker" where
  "poll_timeouts now [] = ([], [])"
| "poll_timeouts now (None # records) =
     (let (events, rest) = poll_timeouts now records in (events, None # rest))"
| "poll_timeouts now (Some r # records) =
     (let (event, r') = poll_timeout now r; (events, rest) = poll_timeouts now records
      in ((case event of Some e \<Rightarrow> e # events | None \<Rightarrow> events), Some r' # rest))"

interpretation health: slot_registry hl_service health_find health_record_new health_register
    HealthDuplicateService HealthCapacityExceeded
  by (rule slot_registryI) (simp_all add: health_find_def health_register_def health_record_new_def)

section \<open>The watchdog\<close>

text \<open>What can happen to the record of a service.\<close>

inductive health_step :: "health_record \<Rightarrow> health_record \<Rightarrow> bool" where
  step_begin: "health_step r (begin_instance g now config r)"
| step_clear: "health_step r (clear_active_instance r)"
| step_report: "health_step r (snd (apply_report report now config r))"
| step_failure: "health_step r (snd (notify_lifecycle_failure g kind code now r))"
| step_poll: "health_step r (snd (poll_timeout now r))"

inductive_cases health_stepE: "health_step r t"

definition health_inv :: "health_record \<Rightarrow> bool" where
  "health_inv r \<longleftrightarrow>
     (hl_active r = None \<longrightarrow> hl_watch r = None \<and> hl_deadline r = None \<and> hl_last_report r = None) \<and>
     (hl_active r \<noteq> None \<longrightarrow> failure_reason_of r = None \<longrightarrow> hl_deadline r \<noteq> None)"

lemma apply_report_cases:
  assumes "hl_service r = hr_service report" and "hl_active r = Some (hr_generation report)"
  shows "apply_report report now config r =
    (let r' = r\<lparr>hl_last_report := Some now, hl_deadline := Some (ticks_add now (report_period_ticks config))\<rparr> in
     case hr_status report of
       Unhealthy \<Rightarrow> (MarkedUnhealthy (hr_generation report) SelfReportedUnhealthy,
         r\<lparr>hl_last_report := Some now, hl_watch := Some (Failed SelfReportedUnhealthy), hl_deadline := None\<rparr>)
     | Ok \<Rightarrow> (AcceptedHealthy (hr_generation report), r'\<lparr>hl_watch := Some Healthy\<rparr>)
     | Degraded \<Rightarrow> (AcceptedDegraded (hr_generation report), r'\<lparr>hl_watch := Some WatchDegraded\<rparr>)
     | Unknown \<Rightarrow> (AcceptedHealthy (hr_generation report),
         r'\<lparr>hl_watch := Some (case hl_watch r of None \<Rightarrow> Healthy | Some w \<Rightarrow> w)\<rparr>))"
  using assms
  by (cases "hr_status report"; cases "hl_watch r")
    (simp_all add: apply_report_def report_counts_for_liveness_def Let_def)

lemma apply_report_other:
  assumes "hl_service r \<noteq> hr_service report \<or> hl_active r \<noteq> Some (hr_generation report)"
  shows "snd (apply_report report now config r) = r"
  using assms by (auto simp: apply_report_def split: option.splits)

lemma health_step_service: "health_step r t \<Longrightarrow> hl_service t = hl_service r"
  by (erule health_stepE)
    (auto simp: begin_instance_def clear_active_instance_def apply_report_def Let_def
      notify_lifecycle_failure_def poll_timeout_def split: option.splits if_splits health_status.splits)

lemma health_inv_report: "health_inv r \<Longrightarrow> health_inv (snd (apply_report report now config r))"
proof (cases "hl_service r = hr_service report \<and> hl_active r = Some (hr_generation report)")
  case True
  then show ?thesis
    by (cases "hr_status report")
      (simp_all add: apply_report_cases health_inv_def failure_reason_of_def Let_def)
qed (metis apply_report_other)

interpretation healths: transition_system "\<lambda>r. \<exists>s. r = health_record_new s" health_step health_inv
proof
  show "health_inv t" if "health_inv r" "health_step r t" for r t
    using that(2,1)
  proof cases
    case (step_report report now config)
    with that(1) health_inv_report show ?thesis by simp
  next
    case (step_failure g kind code now)
    with that(1) show ?thesis
      by (auto simp: health_inv_def failure_reason_of_def notify_lifecycle_failure_def split: option.splits if_splits)
  next
    case (step_poll now)
    with that(1) show ?thesis
      by (auto simp: health_inv_def failure_reason_of_def poll_timeout_def split: option.splits if_splits watch_state.splits)
  qed (simp_all add: health_inv_def begin_instance_def clear_active_instance_def)
qed (auto simp: health_inv_def health_record_new_def)

lemma div_ceil_bounds:
  assumes "0 < b" and "0 < a"
  shows "a \<le> div_ceil a b * b" and "(div_ceil a b - 1) * b < a" and "0 < div_ceil a b"
proof -
  let ?q = "(a + b - 1) div b"
  have e: "?q * b + (a + b - 1) mod b = a + b - 1" by (rule div_mult_mod_eq)
  have m: "(a + b - 1) mod b < b" using assms(1) by simp
  from e m assms show "a \<le> div_ceil a b * b" unfolding div_ceil_def by linarith
  have "b \<le> a + b - 1" using assms by linarith
  then show p: "0 < div_ceil a b" using assms(1) by (simp add: div_ceil_def div_greater_zero_iff)
  have "?q * b \<le> a + b - 1" using e by linarith
  then show "(div_ceil a b - 1) * b < a"
    using assms p unfolding div_ceil_def diff_mult_distrib by linarith
qed

text \<open>The conversion of a report period in milliseconds to ticks of a non-zero length
  never shortens the period and overshoots it by less than one tick, unless the result does not fit
  64 bits, in which case it saturates; it is never zero.\<close>

theorem from_millis_rounds_up:
  assumes "ms \<noteq> 0" and "ns \<noteq> 0"
  shows "report_period_ticks (from_millis ms ns) \<noteq> 0 \<and>
    (report_period_ticks (from_millis ms ns) \<noteq> - 1 \<longrightarrow>
      unat ms * 1000000 \<le> unat (report_period_ticks (from_millis ms ns)) * unat ns \<and>
      (unat (report_period_ticks (from_millis ms ns)) - 1) * unat ns < unat ms * 1000000)"
proof -
  let ?a = "unat ms * 1000000" and ?b = "unat ns"
  let ?t = "div_ceil ?a ?b"
  have pos: "0 < ?b" "0 < ?a" using assms by (simp_all add: unat_gt_0)
  note d = div_ceil_bounds [OF pos]
  then have "max ?t 1 = ?t" by simp
  with assms have r: "report_period_ticks (from_millis ms ns) = (if ?t < 2 ^ 64 then word_of_nat ?t else - 1)"
    by (simp add: from_millis_def liveness_new_def)
  have u: "unat (word_of_nat ?t :: u64) = ?t" if "?t < 2 ^ 64"
    using that by (simp add: unsigned_of_nat take_bit_nat_eq_self)
  have "report_period_ticks (from_millis ms ns) \<noteq> 0"
  proof (cases "?t < 2 ^ 64")
    case True
    with u d(3) have "unat (word_of_nat ?t :: u64) \<noteq> 0" by simp
    with True show ?thesis unfolding r by (metis unsigned_0)
  qed (simp add: r)
  moreover have "unat (report_period_ticks (from_millis ms ns)) = ?t"
    if "report_period_ticks (from_millis ms ns) \<noteq> - 1"
    using that r u by (simp split: if_splits)
  ultimately show ?thesis using d by simp
qed

theorem from_millis_rounds_up_witness:
  "report_period_ticks (from_millis 25 10000000) \<noteq> 0 \<and>
   25 * 1000000 \<le> unat (report_period_ticks (from_millis 25 10000000)) * 10000000"
proof -
  have "report_period_ticks (from_millis 25 10000000) = 3"
    by (simp add: from_millis_def liveness_new_def div_ceil_def)
  then show ?thesis
    using from_millis_rounds_up [of 25 10000000] by simp
qed

lemma ticks_add_unat: "unat (ticks_add base delta) = min (unat base + unat delta) (2 ^ 64 - 1)"
  using unat_saturating_add [of base delta] by (simp add: ticks_add_def saturating_add_def)

text \<open>C33 (liveness). An instance that is watched and has not failed always has a deadline. Polls
  before it report nothing and change nothing; the first poll at or after it reports exactly one
  liveness timeout for this service and generation and marks the record failed, after which no poll
  reports again. This holds in every state that a record can reach.\<close>

theorem silent_instance_times_out:
  assumes "health_step\<^sup>*\<^sup>* (health_record_new s) r"
    and "hl_active r = Some g" and "failure_reason_of r = None"
  shows "\<exists>d. hl_deadline r = Some d \<and>
    (\<forall>now. now < d \<longrightarrow> poll_timeout now r = (None, r)) \<and>
    (\<forall>now. d \<le> now \<longrightarrow> (\<exists>r'.
       poll_timeout now r = (Some \<lparr>fe_service = s, fe_generation = g, fe_reason = LivenessTimeout, fe_observed_at = now\<rparr>, r') \<and>
       failure_reason_of r' = Some LivenessTimeout \<and>
       (\<forall>later. poll_timeout later r' = (None, r'))))"
proof -
  from assms(1) have "health_inv r" by (intro healths.reachable_inv) auto
  with assms obtain d where d: "hl_deadline r = Some d" by (auto simp: health_inv_def)
  have s: "hl_service r = s"
    using assms(1) by (induction rule: rtranclp_induct) (auto simp: health_record_new_def health_step_service)
  let ?r = "r\<lparr>hl_watch := Some (Failed LivenessTimeout), hl_deadline := None\<rparr>"
  have "poll_timeout now r = (None, r)" if "now < d" for now
    using that assms(3) d by (auto simp: poll_timeout_def ticks_reached_def)
  moreover have "poll_timeout now r =
      (Some \<lparr>fe_service = s, fe_generation = g, fe_reason = LivenessTimeout, fe_observed_at = now\<rparr>, ?r)"
    if "d \<le> now" for now
    using that assms d s by (simp add: poll_timeout_def ticks_reached_def)
  moreover have "failure_reason_of ?r = Some LivenessTimeout" by (simp add: failure_reason_of_def)
  moreover have "poll_timeout later ?r = (None, ?r)" for later
    by (simp add: poll_timeout_def failure_reason_of_def)
  ultimately show ?thesis using d by blast
qed

theorem silent_instance_times_out_witness:
  "\<exists>d. hl_deadline (begin_instance 3 100 (liveness_new 50) (health_record_new 7)) = Some d \<and>
    (\<forall>now. now < d \<longrightarrow> poll_timeout now (begin_instance 3 100 (liveness_new 50) (health_record_new 7)) =
       (None, begin_instance 3 100 (liveness_new 50) (health_record_new 7)))"
proof -
  let ?r = "begin_instance 3 100 (liveness_new 50) (health_record_new 7)"
  have "health_step\<^sup>*\<^sup>* (health_record_new 7) ?r" by (intro r_into_rtranclp step_begin)
  from silent_instance_times_out [OF this, of 3] show ?thesis
    by (auto simp: begin_instance_def health_record_new_def failure_reason_of_def)
qed

lemma poll_timeouts_spec:
  "snd (poll_timeouts now records) = map (map_option (\<lambda>r. snd (poll_timeout now r))) records"
  "fst (poll_timeouts now records) =
     List.map_filter (\<lambda>e. Option.bind e (\<lambda>r. fst (poll_timeout now r))) records"
proof (induction records)
  case (Cons e records)
  { case 1 with Cons show ?case by (cases e) (auto simp: split_beta) }
  { case 2 with Cons show ?case
      by (cases e) (auto simp: List.map_filter_simps split_beta split: option.splits) }
qed (simp_all add: List.map_filter_simps)

text \<open>C34 (error). A report of status unknown for an instance that has already failed is answered as
  accepted healthy and starts a new report period, although the record stays failed: it is not healthy
  and no poll will report it.\<close>

theorem unknown_report_of_failed_instance:
  assumes "hl_service r = s" and "hl_active r = Some g" and "hl_watch r = Some (Failed reason)"
  shows "\<exists>r'. apply_report (health_report_new s g Unknown) now config r = (AcceptedHealthy g, r') \<and>
    failure_reason_of r' = Some reason \<and> \<not> is_healthy r' \<and>
    hl_deadline r' = Some (ticks_add now (report_period_ticks config)) \<and>
    (\<forall>later. poll_timeout later r' = (None, r'))"
  using assms
  by (simp add: apply_report_cases health_report_new_def Let_def failure_reason_of_def is_healthy_def poll_timeout_def)

theorem unknown_report_of_failed_instance_witness:
  "fst (apply_report (health_report_new 7 3 Unknown) 90 (liveness_new 50)
     ((begin_instance 3 0 (liveness_new 50) (health_record_new 7))\<lparr>hl_watch := Some (Failed LivenessTimeout)\<rparr>))
   = AcceptedHealthy 3"
  using unknown_report_of_failed_instance [of
      "(begin_instance 3 0 (liveness_new 50) (health_record_new 7))\<lparr>hl_watch := Some (Failed LivenessTimeout)\<rparr>" 7 3
      LivenessTimeout 90 "liveness_new 50"]
  by (auto simp: begin_instance_def health_record_new_def)
end
