(* ===== verification/Bytes.thy ===== *)
theory Bytes
  imports Prelude
begin

text \<open>
  Byte buffers: the little-endian and big-endian encodings of machine integers that the wire formats
  and on-disk structures share (\<open>to_le_bytes\<close>, \<open>from_le_bytes\<close> and their hand-written variants), slices
  \<open>buf[a..b]\<close>, and writes into a slice. The codecs are inverse to each other; a read that does not
  overlap a write does not see it.
\<close>

type_synonym bytes = "u8 list"

section \<open>Integers as bytes\<close>

fun to_le :: "nat \<Rightarrow> 'a::len word \<Rightarrow> bytes" where
  "to_le 0 v = []"
| "to_le (Suc n) v = ucast v # to_le n (drop_bit 8 v)"

fun from_le :: "bytes \<Rightarrow> 'a::len word" where
  "from_le [] = 0"
| "from_le (b # bs) = ucast b OR push_bit 8 (from_le bs)"

definition to_be :: "nat \<Rightarrow> 'a::len word \<Rightarrow> bytes" where
  "to_be n v = rev (to_le n v)"

definition from_be :: "bytes \<Rightarrow> 'a::len word" where
  "from_be bs = from_le (rev bs)"

lemma length_to_le [simp]: "length (to_le n v) = n"
  by (induction n arbitrary: v) simp_all

lemma length_to_be [simp]: "length (to_be n v) = n"
  by (simp add: to_be_def)

lemma from_le_to_le: "from_le (to_le n v) = take_bit (8 * n) v"
  for v :: "'a::len word"
proof (induction n arbitrary: v)
  case (Suc n)
  show ?case
  proof (rule bit_word_eqI)
    fix i assume "i < LENGTH('a)"
    then show "bit (from_le (to_le (Suc n) v) :: 'a word) i = bit (take_bit (8 * Suc n) v) i"
      by (auto simp: Suc bit_simps not_less)
  qed
qed simp

lemma from_le_to_le_id [simp]: "LENGTH('a) \<le> 8 * n \<Longrightarrow> from_le (to_le n v) = v"
  for v :: "'a::len word"
  by (simp add: from_le_to_le take_bit_word_eq_self)

lemma from_be_to_be_id [simp]: "LENGTH('a) \<le> 8 * n \<Longrightarrow> from_be (to_be n v) = v"
  for v :: "'a::len word"
  by (simp add: from_be_def to_be_def)

lemma to_le_take_bit: "8 * n \<le> m \<Longrightarrow> to_le n (take_bit m x) = to_le n x"
  for x :: "'a::len word"
proof (induction n arbitrary: m x)
  case (Suc n)
  have "ucast (take_bit m x) = (ucast x :: u8)"
    by (rule bit_word_eqI) (use Suc.prems in \<open>auto simp: bit_simps\<close>)
  moreover have "drop_bit 8 (take_bit m x) = take_bit (m - 8) (drop_bit 8 x)"
    by (simp add: drop_bit_take_bit)
  ultimately show ?case using Suc by simp
qed simp

lemma to_le_from_le [simp]:
  "8 * length bs \<le> LENGTH('a) \<Longrightarrow> to_le (length bs) (from_le bs :: 'a::len word) = bs"
proof (induction bs)
  case (Cons b bs)
  have len: "8 \<le> LENGTH('a)" "8 * length bs \<le> LENGTH('a) - 8" using Cons.prems by auto
  have "ucast (ucast b OR push_bit 8 (from_le bs) :: 'a word) = b"
    by (rule bit_word_eqI) (use len in \<open>auto simp: bit_simps\<close>)
  moreover have "to_le (length bs) (drop_bit 8 (ucast b OR push_bit 8 (from_le bs) :: 'a word)) = bs"
  proof -
    have "drop_bit 8 (ucast b OR push_bit 8 (from_le bs) :: 'a word) = take_bit (LENGTH('a) - 8) (from_le bs)"
      by (rule bit_word_eqI) (use len in \<open>auto simp: bit_simps dest: bit_imp_le_length\<close>)
    with Cons len show ?thesis by (simp add: to_le_take_bit)
  qed
  ultimately show ?case by simp
qed simp

lemma to_be_from_be [simp]:
  "8 * length bs \<le> LENGTH('a) \<Longrightarrow> to_be (length bs) (from_be bs :: 'a::len word) = bs"
  using to_le_from_le [where 'a = 'a, of "rev bs"] by (simp add: to_be_def from_be_def)

section \<open>Slices\<close>

text \<open>\<open>slice buf a b\<close> is \<open>buf[a..b]\<close>, and \<open>write_at buf a bs\<close> the buffer after \<open>buf[a..a + bs.len()]\<close> has
  been overwritten by \<open>bs\<close>.\<close>

definition slice :: "'a list \<Rightarrow> nat \<Rightarrow> nat \<Rightarrow> 'a list" where
  "slice buf a b = take (b - a) (drop a buf)"

definition write_at :: "'a list \<Rightarrow> nat \<Rightarrow> 'a list \<Rightarrow> 'a list" where
  "write_at buf a bs = take a buf @ bs @ drop (a + length bs) buf"

lemma length_write_at [simp]: "a + length bs \<le> length buf \<Longrightarrow> length (write_at buf a bs) = length buf"
  by (simp add: write_at_def)

lemma length_slice [simp]: "length (slice buf a b) = min (b - a) (length buf - a)"
  by (simp add: slice_def min.commute)

lemma slice_write_at_same [simp]:
  "a + length bs \<le> length buf \<Longrightarrow> b = a + length bs \<Longrightarrow> slice (write_at buf a bs) a b = bs"
  by (simp add: slice_def write_at_def)

lemma nth_write_at:
  assumes "a + length bs \<le> length buf" and "i < length buf"
  shows "write_at buf a bs ! i = (if a \<le> i \<and> i < a + length bs then bs ! (i - a) else buf ! i)"
  using assms by (auto simp: write_at_def nth_append min_def)

lemma slice_write_at_other:
  assumes "a + length bs \<le> length buf" and "d \<le> a \<or> a + length bs \<le> c"
  shows "slice (write_at buf a bs) c d = slice buf c d"
proof (rule nth_equalityI)
  show "length (slice (write_at buf a bs) c d) = length (slice buf c d)" using assms(1) by simp
  fix i assume "i < length (slice (write_at buf a bs) c d)"
  with assms show "slice (write_at buf a bs) c d ! i = slice buf c d ! i"
    by (auto simp: slice_def nth_write_at less_diff_conv add.commute)
qed

lemma drop_write_at: "a + length bs \<le> n \<Longrightarrow> a + length bs \<le> length buf \<Longrightarrow> drop n (write_at buf a bs) = drop n buf"
  by (simp add: write_at_def drop_append min_def)

lemma slice_nth: "i < b - a \<Longrightarrow> b \<le> length buf \<Longrightarrow> slice buf a b ! i = buf ! (a + i)"
  by (simp add: slice_def)

lemma slice_prefix: "d \<le> n \<Longrightarrow> slice (take n buf) c d = slice buf c d"
  by (simp add: slice_def drop_take min_def)

lemma write_at_slice_id: "b \<le> length buf \<Longrightarrow> a \<le> b \<Longrightarrow> write_at buf a (slice buf a b) = buf"
  by (simp add: write_at_def slice_def min_def) (metis append_take_drop_id drop_drop le_add_diff_inverse2)

lemma write_at_not_Nil [simp]: "bs \<noteq> [] \<Longrightarrow> write_at buf a bs \<noteq> []"
  by (simp add: write_at_def)

lemma slice_update: "i < c \<or> d \<le> i \<Longrightarrow> slice (buf[i := x]) c d = slice buf c d"
proof (cases "d \<le> c")
  case False
  moreover assume "i < c \<or> d \<le> i"
  ultimately show ?thesis
    by (cases "i < c") (simp_all add: slice_def drop_update_cancel drop_update_swap take_update_cancel diff_le_mono)
qed (simp add: slice_def)
end
