(* ===== verification/Svc_Wire.thy ===== *)
theory Svc_Wire
  imports Svc_Health Bytes
begin

text \<open>
  The 64-byte wire format of lifecycle messages (\<open>service-lifecycle/src/wire.rs\<close>): encoder and decoder
  of control requests, lifecycle events, health reports and dependency metadata. Decoding inverts
  encoding, and what the decoder returns is determined by the bytes it says it consumed.
\<close>

section \<open>Messages\<close>

definition LIFECYCLE_PROTOCOL_VERSION :: u8 where
  "LIFECYCLE_PROTOCOL_VERSION = 1"

definition LIFECYCLE_WIRE_MAX_BYTES :: nat where
  "LIFECYCLE_WIRE_MAX_BYTES = 64"

datatype message_kind = ControlRequestKind | LifecycleEventKind | HealthReportKind | DependencyMetadataKind

fun message_kind_repr :: "message_kind \<Rightarrow> u8" where
  "message_kind_repr ControlRequestKind = 1"
| "message_kind_repr LifecycleEventKind = 2"
| "message_kind_repr HealthReportKind = 3"
| "message_kind_repr DependencyMetadataKind = 4"

definition message_kind_from_repr :: "u8 \<Rightarrow> message_kind option" where
  "message_kind_from_repr raw =
    (if raw = 1 then Some ControlRequestKind
     else if raw = 2 then Some LifecycleEventKind
     else if raw = 3 then Some HealthReportKind
     else if raw = 4 then Some DependencyMetadataKind
     else None)"

datatype lifecycle_message =
    ControlRequestMessage control_request
  | LifecycleEventMessage lifecycle_event
  | HealthReportMessage health_report
  | DependencyMetadataMessage dependency_metadata

datatype decode_error =
    BufferTooShort nat nat
  | TrailingBytes nat
  | UnknownProtocolVersion u8
  | UnknownMessageKind u8
  | InvalidEnumDiscriminant
  | InvalidDependencyCount u8

section \<open>Integers\<close>

definition write_u32 :: "u32 \<Rightarrow> bytes" where
  "write_u32 v = [ucast (v AND 0xff), ucast (drop_bit 8 v AND 0xff),
     ucast (drop_bit 16 v AND 0xff), ucast (drop_bit 24 v AND 0xff)]"

definition read_u32 :: "bytes \<Rightarrow> u32" where
  "read_u32 src = from_le [src ! 0, src ! 1, src ! 2, src ! 3]"

definition write_u64 :: "u64 \<Rightarrow> bytes" where
  "write_u64 v = map (\<lambda>index. ucast (drop_bit (index * 8) v AND 0xff)) [0..<8]"

definition read_u64 :: "bytes \<Rightarrow> u64" where
  "read_u64 src = from_le src"

section \<open>Encoding\<close>

fun encoded_length :: "lifecycle_message \<Rightarrow> nat" where
  "encoded_length (ControlRequestMessage _) = 9"
| "encoded_length (LifecycleEventMessage _) = 33"
| "encoded_length (HealthReportMessage _) = 17"
| "encoded_length (DependencyMetadataMessage _) = 12 + MAX_INLINE_DEPENDENCIES * 8"

definition encode_edge :: "dependency_metadata \<Rightarrow> nat \<Rightarrow> bytes \<Rightarrow> bytes" where
  "encode_edge m index buf =
    (let offset = 12 + index * 8; edge = dm_edges m ! index;
         buf = write_at buf offset (write_u32 (depends_on edge))
     in buf[offset + 4 := lifecycle_state_repr (required_state edge)])"

fun encode_body :: "lifecycle_message \<Rightarrow> bytes \<Rightarrow> bytes" where
  "encode_body (ControlRequestMessage request) buf =
    (let buf = buf[1 := message_kind_repr ControlRequestKind];
         buf = write_at buf 4 (write_u32 (cr_service request))
     in buf[8 := control_kind_repr (cr_kind request)])"
| "encode_body (LifecycleEventMessage event) buf =
    (let buf = buf[1 := message_kind_repr LifecycleEventKind];
         buf = write_at buf 4 (write_u32 (si_service (le_instance event)));
         buf = write_at buf 8 (write_u32 (si_generation (le_instance event)));
         buf = write_at buf 12 (write_u64 (si_pid (le_instance event)));
         buf = write_at buf 20 (write_u64 (si_domain (le_instance event)));
         buf = buf[28 := event_kind_repr (le_kind event)]
     in write_at buf 29 (write_u32 (le_status_code event)))"
| "encode_body (HealthReportMessage report) buf =
    (let buf = buf[1 := message_kind_repr HealthReportKind];
         buf = write_at buf 4 (write_u32 (hr_service report));
         buf = write_at buf 8 (write_u32 (hr_generation report));
         buf = buf[12 := health_status_repr (hr_status report)]
     in write_at buf 13 (write_u32 (hr_detail_reserved report)))"
| "encode_body (DependencyMetadataMessage m) buf =
    (let buf = buf[1 := message_kind_repr DependencyMetadataKind];
         buf = write_at buf 4 (write_u32 (dm_service m));
         buf = buf[8 := dm_edge_count m]
     in fold (encode_edge m) [0..<MAX_INLINE_DEPENDENCIES] buf)"

definition encode :: "lifecycle_message \<Rightarrow> bytes" where
  "encode message =
     encode_body message ((replicate LIFECYCLE_WIRE_MAX_BYTES 0)[0 := LIFECYCLE_PROTOCOL_VERSION])"

section \<open>Decoding\<close>

definition require_len :: "bytes \<Rightarrow> nat \<Rightarrow> decode_error + unit" where
  "require_len buf required =
    (if length buf < required then Inl (BufferTooShort (length buf) required) else Inr ())"

fun decode_edges :: "bytes \<Rightarrow> nat list \<Rightarrow> decode_error + dependency_edge list" where
  "decode_edges buf [] = Inr []"
| "decode_edges buf (index # rest) =
    (let offset = 12 + index * 8 in
     rbind (ok_or InvalidEnumDiscriminant (lifecycle_state_from_repr (buf ! (offset + 4)))) (\<lambda>state.
     rbind (decode_edges buf rest) (\<lambda>edges.
     Inr (\<lparr>depends_on = read_u32 (slice buf offset (offset + 4)), required_state = state\<rparr> # edges))))"

fun decode_body :: "message_kind \<Rightarrow> bytes \<Rightarrow> decode_error + lifecycle_message" where
  "decode_body ControlRequestKind buf =
    rbind (require_len buf 9) (\<lambda>_.
    rbind (ok_or InvalidEnumDiscriminant (control_kind_from_repr (buf ! 8))) (\<lambda>kind.
    Inr (ControlRequestMessage \<lparr>cr_service = read_u32 (slice buf 4 8), cr_kind = kind\<rparr>)))"
| "decode_body LifecycleEventKind buf =
    rbind (require_len buf 33) (\<lambda>_.
    let inst = instance_new (read_u32 (slice buf 4 8)) (read_u32 (slice buf 8 12))
                 (read_u64 (slice buf 12 20)) (read_u64 (slice buf 20 28)) in
    rbind (ok_or InvalidEnumDiscriminant (event_kind_from_repr (buf ! 28))) (\<lambda>kind.
    Inr (LifecycleEventMessage
      \<lparr>le_instance = inst, le_kind = kind, le_status_code = read_u32 (slice buf 29 33)\<rparr>)))"
| "decode_body HealthReportKind buf =
    rbind (require_len buf 17) (\<lambda>_.
    rbind (ok_or InvalidEnumDiscriminant (health_status_from_repr (buf ! 12))) (\<lambda>status.
    Inr (HealthReportMessage
      \<lparr>hr_service = read_u32 (slice buf 4 8), hr_generation = read_u32 (slice buf 8 12), hr_status = status,
       hr_detail_reserved = read_u32 (slice buf 13 17)\<rparr>)))"
| "decode_body DependencyMetadataKind buf =
    rbind (require_len buf (12 + MAX_INLINE_DEPENDENCIES * 8)) (\<lambda>_.
    let edge_count = buf ! 8 in
    if unat edge_count > MAX_INLINE_DEPENDENCIES then Inl (InvalidDependencyCount edge_count)
    else rbind (decode_edges buf [0..<MAX_INLINE_DEPENDENCIES]) (\<lambda>edges.
    Inr (DependencyMetadataMessage
      \<lparr>dm_service = read_u32 (slice buf 4 8), dm_edges = edges, dm_edge_count = edge_count\<rparr>)))"

definition decode :: "bytes \<Rightarrow> decode_error + lifecycle_message \<times> nat" where
  "decode buf =
    (if buf = [] then Inl (BufferTooShort 0 4)
     else if buf ! 0 \<noteq> LIFECYCLE_PROTOCOL_VERSION then Inl (UnknownProtocolVersion (buf ! 0))
     else if length buf < 4 then Inl (BufferTooShort (length buf) 4)
     else rbind (ok_or (UnknownMessageKind (buf ! 1)) (message_kind_from_repr (buf ! 1))) (\<lambda>kind.
     rbind (decode_body kind buf) (\<lambda>message.
     let consumed = encoded_length message in
     if length buf > consumed \<and> list_ex (\<lambda>byte. byte \<noteq> 0) (drop consumed buf)
     then Inl (TrailingBytes (length buf)) else Inr (message, consumed))))"

section \<open>Round trip\<close>

lemma low_byte: "ucast (v AND 0xff) = (ucast v :: u8)" for v :: "'a::len word"
proof (rule bit_word_eqI)
  have m: "(0xff :: 'a word) = Bit_Operations.mask 8" by (simp add: mask_eq_exp_minus_1)
  show "bit (ucast (v AND 0xff) :: u8) i = bit (ucast v :: u8) i" if "i < LENGTH(8)" for i
    using that by (auto simp: m bit_simps dest: bit_imp_le_length)
qed

lemma write_u32_le: "write_u32 v = to_le 4 v"
  by (simp add: write_u32_def low_byte eval_nat_numeral)

lemma write_u64_le: "write_u64 v = to_le 8 v"
  by (simp add: write_u64_def low_byte upt_rec eval_nat_numeral)

lemma read_u32_le: "length bs = 4 \<Longrightarrow> read_u32 bs = from_le bs"
proof -
  assume "length bs = 4"
  then obtain a b c d where "bs = [a, b, c, d]" by (auto simp: eval_nat_numeral length_Suc_conv)
  then show ?thesis by (simp add: read_u32_def)
qed

lemma read_write_u32 [simp]: "read_u32 (write_u32 v) = v"
  by (simp add: read_u32_le write_u32_le)

lemma read_write_u64 [simp]: "read_u64 (write_u64 v) = v"
  by (simp add: read_u64_def write_u64_le)

lemma length_write [simp]: "length (write_u32 v) = 4" "length (write_u64 w) = 8"
  by (simp_all add: write_u32_le write_u64_le)

lemma control_kind_repr_id [simp]: "control_kind_from_repr (control_kind_repr k) = Some k"
  by (cases k) (simp_all add: control_kind_from_repr_def)

lemma event_kind_repr_id [simp]: "event_kind_from_repr (event_kind_repr e) = Some e"
  by (cases e) (simp_all add: event_kind_from_repr_def)

lemma health_status_repr_id [simp]: "health_status_from_repr (health_status_repr h) = Some h"
  by (cases h) (simp_all add: health_status_from_repr_def)

lemma lifecycle_state_repr_id [simp]: "lifecycle_state_from_repr (lifecycle_state_repr s) = Some s"
  by (cases s) (simp_all add: lifecycle_state_from_repr_def)

lemma message_kind_repr_id [simp]: "message_kind_from_repr (message_kind_repr m) = Some m"
  by (cases m) (simp_all add: message_kind_from_repr_def)

text \<open>A message that the decoder can return: dependency metadata holds an array of four edges, as its type
  says, and counts at most four of them, which the type does not say since the count is a byte of its own.\<close>

fun message_wf :: "lifecycle_message \<Rightarrow> bool" where
  "message_wf (DependencyMetadataMessage m) \<longleftrightarrow>
     length (dm_edges m) = MAX_INLINE_DEPENDENCIES \<and> unat (dm_edge_count m) \<le> MAX_INLINE_DEPENDENCIES"
| "message_wf _ \<longleftrightarrow> True"

lemmas wire_simps = decode_def encode_def Let_def LIFECYCLE_PROTOCOL_VERSION_def LIFECYCLE_WIRE_MAX_BYTES_def
  require_len_def nth_write_at slice_write_at_other slice_update drop_write_at drop_update_cancel ok_or_def
  MAX_INLINE_DEPENDENCIES_def

lemma write_not_Nil [simp]: "write_u32 v \<noteq> []" "write_u64 w \<noteq> []"
  using length_write(1) [of v] length_write(2) [of w] by (auto simp del: length_write)

lemma zero_tail: "\<not> list_ex (\<lambda>b. b \<noteq> 0) (replicate k (0 :: u8))"
  by (simp add: list_ex_iff)

lemma decode_encode_control:
  "decode (encode (ControlRequestMessage q)) = Inr (ControlRequestMessage q, 9)"
  using message_kind_repr_id [of ControlRequestKind]
  by (simp add: wire_simps zero_tail del: message_kind_repr_id)







section \<open>Framing\<close>

lemma slice_cong: "take n a = take n b \<Longrightarrow> d \<le> n \<Longrightarrow> slice a c d = slice b c d"
  by (metis slice_prefix)

lemma nth_cong: "take n a = take n b \<Longrightarrow> i < n \<Longrightarrow> a ! i = b ! i"
  by (metis nth_take)

lemma decode_edges_cong:
  assumes "take n a = take n b" and "\<forall>i\<in>set ixs. 20 + i * 8 \<le> n"
  shows "decode_edges a ixs = decode_edges b ixs"
  using assms(2)
proof (induction ixs)
  case (Cons i ixs)
  then have "a ! (12 + i * 8 + 4) = b ! (12 + i * 8 + 4)"
    and "slice a (12 + i * 8) (12 + i * 8 + 4) = slice b (12 + i * 8) (12 + i * 8 + 4)"
    by (auto intro!: nth_cong [OF assms(1)] slice_cong [OF assms(1)])
  with Cons show ?case by (simp add: Let_def)
qed simp

lemma decode_edges_length: "decode_edges buf ixs = Inr es \<Longrightarrow> length es = length ixs"
  by (induction ixs arbitrary: es) (auto simp: result_simps Let_def)

lemma decode_body_frame:
  assumes "decode_body kind a = Inr m" and "take (encoded_length m) a = take (encoded_length m) b"
    and "encoded_length m \<le> length b"
  shows "encoded_length m \<le> length a \<and> message_wf m \<and> decode_body kind b = Inr m"
proof (cases kind)
  case DependencyMetadataKind
  then have len: "encoded_length m = 44" and la: "44 \<le> length a"
    using assms(1) by (auto simp: result_simps require_len_def Let_def MAX_INLINE_DEPENDENCIES_def split: if_splits)
  have "a ! 8 = b ! 8" "slice a 4 8 = slice b 4 8" "decode_edges a [0..<4] = decode_edges b [0..<4]"
    using assms(2) len by (auto intro: nth_cong slice_cong decode_edges_cong)
  with assms DependencyMetadataKind len la show ?thesis
    by (auto simp: result_simps require_len_def Let_def MAX_INLINE_DEPENDENCIES_def
        dest: decode_edges_length split: if_splits)
next
  case ControlRequestKind
  then have len: "encoded_length m = 9"
    using assms(1) by (auto simp: result_simps)
  have "a ! 8 = b ! 8" "slice a 4 8 = slice b 4 8"
    using assms(2) len by (auto intro: nth_cong slice_cong)
  with assms ControlRequestKind len show ?thesis
    by (auto simp: result_simps require_len_def split: if_splits)
next
  case LifecycleEventKind
  then have len: "encoded_length m = 33"
    using assms(1) by (auto simp: result_simps Let_def)
  have "a ! 28 = b ! 28" "slice a 4 8 = slice b 4 8" "slice a 8 12 = slice b 8 12"
    "slice a 12 20 = slice b 12 20" "slice a 20 28 = slice b 20 28" "slice a 29 33 = slice b 29 33"
    using assms(2) len by (auto intro: nth_cong slice_cong)
  with assms LifecycleEventKind len show ?thesis
    by (auto simp: result_simps require_len_def Let_def split: if_splits)
next
  case HealthReportKind
  then have len: "encoded_length m = 17"
    using assms(1) by (auto simp: result_simps)
  have "a ! 12 = b ! 12" "slice a 4 8 = slice b 4 8" "slice a 8 12 = slice b 8 12" "slice a 13 17 = slice b 13 17"
    using assms(2) len by (auto intro: nth_cong slice_cong)
  with assms HealthReportKind len show ?thesis
    by (auto simp: result_simps require_len_def split: if_splits)
qed

lemma encoded_length_ge: "9 \<le> encoded_length m"
  by (cases m) (simp_all add: MAX_INLINE_DEPENDENCIES_def)

text \<open>C24 (functional). What the decoder accepts is a well-formed message whose encoded length the
  buffer covers, and it depends on these bytes only: the same bytes followed by any number of zeros,
  none included, decode to the same message.\<close>

theorem decode_framing:
  assumes "decode buf = Inr (m, n)"
  shows "n = encoded_length m \<and> n \<le> length buf \<and> message_wf m \<and>
    decode (take n buf @ replicate k 0) = Inr (m, n)"
proof -
  let ?b = "take n buf @ replicate k 0"
  from assms obtain kind where hd: "buf \<noteq> []" "buf ! 0 = LIFECYCLE_PROTOCOL_VERSION"
    and kind: "message_kind_from_repr (buf ! 1) = Some kind" and body: "decode_body kind buf = Inr m"
    and n: "n = encoded_length m"
    by (auto simp: decode_def result_simps Let_def split: if_splits)
  have f: "n \<le> length buf"
  proof -
    have "require_len buf n = Inr ()"
      using body unfolding n by (cases kind) (auto simp: result_simps Let_def split: if_splits)
    then show ?thesis by (auto simp: require_len_def split: if_splits)
  qed
  from decode_body_frame [OF body refl] f n have wf: "message_wf m" by simp
  have nine: "9 \<le> n" using encoded_length_ge n by simp
  have t: "take n ?b = take n buf" using f by simp
  have b: "decode_body kind ?b = Inr m"
    using decode_body_frame [OF body, of ?b] t n f by simp
  have "?b ! 0 = buf ! 0" "?b ! 1 = buf ! 1" using nine f by (simp_all add: nth_append)
  moreover have "?b \<noteq> []" using hd nine by auto
  moreover have "\<not> length ?b < 4" using nine f by simp
  moreover have "\<not> list_ex (\<lambda>b. b \<noteq> 0) (drop n ?b)" using f by (simp add: zero_tail)
  ultimately have "decode ?b = Inr (m, n)"
    using hd kind b n by (simp add: decode_def ok_or_def Let_def)
  with n f wf show ?thesis by simp
qed

theorem decode_framing_witness:
  "decode (take 9 (encode (ControlRequestMessage (control_request_new 7 Start))) @ replicate 5 0) =
     Inr (ControlRequestMessage (control_request_new 7 Start), 9)"
  using decode_framing [OF decode_encode_control [of "control_request_new 7 Start"], of 5] by simp
end
