(* ===== verification/Sup_Runtime.thy ===== *)
theory Sup_Runtime
  imports Svc_Wire
begin

text \<open>
  The supervisor core (\<open>supervisor/src\<close>): restart policy (\<open>restart_policy.rs\<close>), service registry
  (\<open>registry.rs\<close>), lifecycle control transports (\<open>control.rs\<close>, \<open>syscall_lifecycle.rs\<close>), the serial markers
  (\<open>diagnostics.rs\<close> of both crates) and the supervisor runtime (\<open>runtime.rs\<close>). A control transport and a
  diagnostic sink are generic in the source; here they are a record of their operations over a state of
  their own. The lifecycle syscalls of the kernel are a parameter of the syscall transport.
\<close>

section \<open>Operations with state and errors\<close>

type_synonym ('s, 'e, 'a) op = "'s \<Rightarrow> ('e + 'a) \<times> 's"

definition op_ok :: "'a \<Rightarrow> ('s, 'e, 'a) op" where
  "op_ok a s = (Inr a, s)"

definition op_err :: "'e \<Rightarrow> ('s, 'e, 'a) op" where
  "op_err e s = (Inl e, s)"

definition op_bind :: "('s, 'e, 'a) op \<Rightarrow> ('a \<Rightarrow> ('s, 'e, 'b) op) \<Rightarrow> ('s, 'e, 'b) op" where
  "op_bind m f s = (case m s of (Inl e, s') \<Rightarrow> (Inl e, s') | (Inr a, s') \<Rightarrow> f a s')"

definition op_of :: "('s \<Rightarrow> 'e + 'a) \<Rightarrow> ('s, 'e, 'a) op" where
  "op_of f s = (f s, s)"

definition op_map_err :: "('e \<Rightarrow> 'f) \<Rightarrow> ('s, 'e, 'a) op \<Rightarrow> ('s, 'f, 'a) op" where
  "op_map_err g m s = (case m s of (r, s') \<Rightarrow> (map_err g r, s'))"

text \<open>An operation on a field of a larger state.\<close>

definition op_on :: "('t \<Rightarrow> 's) \<Rightarrow> ('s \<Rightarrow> 't \<Rightarrow> 't) \<Rightarrow> ('s, 'e, 'a) op \<Rightarrow> ('t, 'e, 'a) op" where
  "op_on get put m t = (case m (get t) of (r, s) \<Rightarrow> (r, put s t))"

lemmas op_defs = op_ok_def op_err_def op_bind_def op_of_def op_map_err_def op_on_def

section \<open>Restart policy\<close>

record bounded_restart =
  max_attempts :: u32
  backoff_base_ticks :: u64

datatype restart_policy = Never | OnFailure bounded_restart

datatype suppressed_reason = PolicyNever | RetryExhausted | DependencyBlocked

fun suppressed_token :: "suppressed_reason \<Rightarrow> string" where
  "suppressed_token PolicyNever = ''never''"
| "suppressed_token RetryExhausted = ''exhausted''"
| "suppressed_token DependencyBlocked = ''dependency''"

datatype restart_decision = Suppressed suppressed_reason | Scheduled u32 ticks

record recovery_runtime =
  rr_policy :: restart_policy
  rr_attempts :: u32
  rr_pending :: bool
  rr_not_before :: ticks
  rr_failed_pid :: "u64 option"

definition recovery_new :: "restart_policy \<Rightarrow> recovery_runtime" where
  "recovery_new policy =
     \<lparr>rr_policy = policy, rr_attempts = 0, rr_pending = False, rr_not_before = 0, rr_failed_pid = None\<rparr>"

definition on_failure :: "u64 option \<Rightarrow> ticks \<Rightarrow> recovery_runtime \<Rightarrow> restart_decision \<times> recovery_runtime" where
  "on_failure failed_pid now r =
    (let r = r\<lparr>rr_failed_pid := failed_pid\<rparr> in
     case rr_policy r of
       Never \<Rightarrow> (Suppressed PolicyNever, r\<lparr>rr_pending := False\<rparr>)
     | OnFailure limits \<Rightarrow>
         if rr_attempts r \<ge> max_attempts limits then (Suppressed RetryExhausted, r\<lparr>rr_pending := False\<rparr>)
         else let next_attempt = saturating_add (rr_attempts r) 1;
                  delay = saturating_mul (backoff_base_ticks limits) (ucast (saturating_sub next_attempt 1));
                  not_before = ticks_add now delay
              in (Scheduled next_attempt not_before, r\<lparr>rr_not_before := not_before, rr_pending := True\<rparr>))"

definition clear_pending_after_attempt :: "recovery_runtime \<Rightarrow> recovery_runtime" where
  "clear_pending_after_attempt r = r\<lparr>rr_pending := False\<rparr>"

definition record_attempt_started :: "u32 \<Rightarrow> recovery_runtime \<Rightarrow> recovery_runtime" where
  "record_attempt_started attempt r = r\<lparr>rr_attempts := attempt\<rparr>"

definition on_healthy_instance :: "recovery_runtime \<Rightarrow> recovery_runtime" where
  "on_healthy_instance r = r\<lparr>rr_attempts := 0, rr_pending := False, rr_failed_pid := None, rr_not_before := 0\<rparr>"

definition set_policy :: "restart_policy \<Rightarrow> recovery_runtime \<Rightarrow> recovery_runtime" where
  "set_policy policy r = r\<lparr>rr_policy := policy\<rparr>"

section \<open>Service registry\<close>

record query_entry =
  qe_service :: service_id
  qe_state :: lifecycle_state
  qe_generation :: u32
  qe_active_pid :: "u64 option"

datatype registry_error = Registry tracker_error | Transition transition_error

definition snapshot_from_record :: "lifecycle_record \<Rightarrow> query_entry" where
  "snapshot_from_record r =
     \<lparr>qe_service = lr_service r, qe_state = lr_state r, qe_generation = lr_generation r,
      qe_active_pid = map_option si_pid (lr_active r)\<rparr>"

definition registry_declare :: "service_id \<Rightarrow> (lifecycle_tracker, registry_error, unit) op" where
  "registry_declare service = op_map_err Registry (tracker_declare service)"

definition registry_apply_control :: "control_request \<Rightarrow> (lifecycle_tracker, registry_error, unit) op" where
  "registry_apply_control request t =
    (case tracker_record_mut (cr_service request) (record_apply_control request) t of
       (Inl e, t') \<Rightarrow> (Inl (Registry e), t')
     | (Inr r, t') \<Rightarrow> (map_err Transition r, t'))"

definition registry_apply_event :: "lifecycle_event \<Rightarrow> (lifecycle_tracker, registry_error, unit) op" where
  "registry_apply_event event t =
    (case tracker_record_mut (si_service (le_instance event)) (record_apply_event event) t of
       (Inl e, t') \<Rightarrow> (Inl (Registry e), t')
     | (Inr r, t') \<Rightarrow> (map_err Transition r, t'))"

definition registry_query :: "service_id \<Rightarrow> lifecycle_tracker \<Rightarrow> query_entry option" where
  "registry_query service t =
    (case tracker_record service t of Inr r \<Rightarrow> Some (snapshot_from_record r) | Inl _ \<Rightarrow> None)"

definition registry_entries :: "lifecycle_tracker \<Rightarrow> query_entry option list" where
  "registry_entries t = map (map_option snapshot_from_record) t"

section \<open>Control transports\<close>

datatype control_error = TransportFailed | Unsupported

record fake_control =
  fc_issued :: "control_request option list"
  fc_issued_len :: nat
  fc_pending :: "lifecycle_event option list"
  fc_pending_count :: nat

definition fake_new :: "nat \<Rightarrow> fake_control" where
  "fake_new n = \<lparr>fc_issued = replicate n None, fc_issued_len = 0, fc_pending = replicate n None, fc_pending_count = 0\<rparr>"

definition fake_push_pending :: "lifecycle_event \<Rightarrow> (fake_control, control_error, unit) op" where
  "fake_push_pending event c =
    (if fc_pending_count c \<ge> length (fc_pending c) then (Inl TransportFailed, c)
     else case position (\<lambda>entry. entry = None) (fc_pending c) of
         Some slot \<Rightarrow> (Inr (), c\<lparr>fc_pending := (fc_pending c)[slot := Some event],
                                fc_pending_count := fc_pending_count c + 1\<rparr>)
       | None \<Rightarrow> (Inl TransportFailed, c))"

definition fake_issued_requests :: "fake_control \<Rightarrow> control_request list" where
  "fake_issued_requests c = List.map_filter (\<lambda>entry. entry) (take (fc_issued_len c) (fc_issued c))"

definition fake_issue_control :: "control_request \<Rightarrow> (fake_control, control_error, unit) op" where
  "fake_issue_control request c =
    (if fc_issued_len c \<ge> length (fc_issued c) then (Inl TransportFailed, c)
     else (Inr (), c\<lparr>fc_issued := (fc_issued c)[fc_issued_len c := Some request],
                     fc_issued_len := fc_issued_len c + 1\<rparr>))"

text \<open>The search of the pending array for an event of the service, which empties the position.\<close>

fun take_pending :: "service_id \<Rightarrow> lifecycle_event option list \<Rightarrow> (lifecycle_event \<times> lifecycle_event option list) option" where
  "take_pending service [] = None"
| "take_pending service (None # rest) = map_option (\<lambda>(e, r). (e, None # r)) (take_pending service rest)"
| "take_pending service (Some event # rest) =
    (if si_service (le_instance event) = service then Some (event, None # rest)
     else map_option (\<lambda>(e, r). (e, Some event # r)) (take_pending service rest))"

definition fake_poll_event :: "service_id \<Rightarrow> (fake_control, control_error, lifecycle_event option) op" where
  "fake_poll_event service c =
    (case take_pending service (fc_pending c) of
       Some (event, pending) \<Rightarrow> (Inr (Some event), c\<lparr>fc_pending := pending, fc_pending_count := fc_pending_count c - 1\<rparr>)
     | None \<Rightarrow> (Inr None, c))"

text \<open>The kernel side of the two lifecycle syscalls: from its state and the request it gives the value
  of \<open>rax\<close> and the contents of the reply buffer.\<close>

record 'k lifecycle_syscalls =
  sys_control :: "u64 \<Rightarrow> bytes \<Rightarrow> 'k \<Rightarrow> u64 \<times> bytes \<times> 'k"
  sys_poll :: "service_id \<Rightarrow> u64 \<Rightarrow> 'k \<Rightarrow> u64 \<times> bytes \<times> 'k"

record 'k syscall_control =
  sc_capability :: u64
  sc_pending :: "lifecycle_event option list"
  sc_pending_count :: nat
  sc_kernel :: 'k

definition SUP_SYSCALL_ESTALE :: u64 where
  "SUP_SYSCALL_ESTALE = - 1 - 116"

definition decode_reply :: "u64 \<Rightarrow> bytes \<Rightarrow> control_error + lifecycle_event option" where
  "decode_reply result reply =
    (if result = 0 then Inr None
     else if unat result > LIFECYCLE_WIRE_MAX_BYTES then Inl TransportFailed
     else case decode (take (unat result) reply) of
         Inl _ \<Rightarrow> Inl TransportFailed
       | Inr (LifecycleEventMessage event, _) \<Rightarrow> Inr (Some event)
       | Inr _ \<Rightarrow> Inl TransportFailed)"

definition syscall_lifecycle :: "'k lifecycle_syscalls \<Rightarrow> control_request \<Rightarrow> ('k syscall_control, control_error, lifecycle_event option) op" where
  "syscall_lifecycle sys request c =
    (case sys_control sys (sc_capability c) (encode (ControlRequestMessage request)) (sc_kernel c) of
       (result, reply, k) \<Rightarrow>
         (if result = SUP_SYSCALL_ESTALE then Inl TransportFailed else decode_reply result reply, c\<lparr>sc_kernel := k\<rparr>))"

definition syscall_poll :: "'k lifecycle_syscalls \<Rightarrow> service_id \<Rightarrow> ('k syscall_control, control_error, lifecycle_event option) op" where
  "syscall_poll sys service c =
    (case sys_poll sys service (sc_capability c) (sc_kernel c) of
       (result, reply, k) \<Rightarrow> (decode_reply result reply, c\<lparr>sc_kernel := k\<rparr>))"

definition syscall_push_pending :: "lifecycle_event \<Rightarrow> ('k syscall_control, control_error, unit) op" where
  "syscall_push_pending event c =
    (if sc_pending_count c \<ge> length (sc_pending c) then (Inl TransportFailed, c)
     else case position (\<lambda>entry. entry = None) (sc_pending c) of
         Some slot \<Rightarrow> (Inr (), c\<lparr>sc_pending := (sc_pending c)[slot := Some event],
                                sc_pending_count := sc_pending_count c + 1\<rparr>)
       | None \<Rightarrow> (Inl TransportFailed, c))"

definition syscall_issue_control :: "'k lifecycle_syscalls \<Rightarrow> control_request \<Rightarrow> ('k syscall_control, control_error, unit) op" where
  "syscall_issue_control sys request =
     op_bind (syscall_lifecycle sys request) (\<lambda>reply.
       case reply of Some event \<Rightarrow> syscall_push_pending event | None \<Rightarrow> op_ok ())"

definition syscall_poll_event :: "'k lifecycle_syscalls \<Rightarrow> service_id \<Rightarrow> ('k syscall_control, control_error, lifecycle_event option) op" where
  "syscall_poll_event sys service c =
    (case take_pending service (sc_pending c) of
       Some (event, pending) \<Rightarrow> (Inr (Some event), c\<lparr>sc_pending := pending, sc_pending_count := sc_pending_count c - 1\<rparr>)
     | None \<Rightarrow> syscall_poll sys service c)"

section \<open>Serial markers\<close>

text \<open>The decimal text that \<open>Display\<close> gives for an unsigned integer.\<close>

function show_dec :: "nat \<Rightarrow> string" where
  "show_dec n = (if n < 10 then [char_of (48 + n)] else show_dec (n div 10) @ [char_of (48 + n mod 10)])"
  by pat_completeness auto
termination by (relation "measure id") auto

declare show_dec.simps [simp del]

text \<open>\<open>writeln!\<close> hands its literal and formatted pieces one after the other to \<open>write_str\<close> of a bounded
  line buffer; a piece that does not fit ends the formatting with an error.\<close>

definition write_str :: "nat \<Rightarrow> string \<Rightarrow> string \<Rightarrow> string option" where
  "write_str capacity buffer piece =
    (if length buffer + length piece > capacity then None else Some (buffer @ piece))"

fun write_pieces :: "nat \<Rightarrow> string \<Rightarrow> string list \<Rightarrow> string option" where
  "write_pieces capacity buffer [] = Some buffer"
| "write_pieces capacity buffer (piece # pieces) =
    (case write_str capacity buffer piece of
       None \<Rightarrow> None
     | Some buffer \<Rightarrow> write_pieces capacity buffer pieces)"

definition newline :: string where
  "newline = [CHR 0x0A]"

definition format_started_line :: "process_id \<Rightarrow> string list" where
  "format_started_line pid = [''[SUP ] started pid='', show_dec (unat pid), newline]"

definition format_registered_line :: "service_id \<Rightarrow> string list" where
  "format_registered_line service = [''[SUP ] registered service='', show_dec (unat service), newline]"

definition format_failure_line :: "service_id \<Rightarrow> u64 \<Rightarrow> string list" where
  "format_failure_line service pid =
     [''[SUP ] failure service='', show_dec (unat service), '' pid='', show_dec (unat pid), newline]"

definition format_restart_line :: "service_id \<Rightarrow> u32 \<Rightarrow> string list" where
  "format_restart_line service attempt =
     [''[SUP ] restart service='', show_dec (unat service), '' attempt='', show_dec (unat attempt), newline]"

definition format_restarted_line :: "service_id \<Rightarrow> u64 \<Rightarrow> u64 \<Rightarrow> string list" where
  "format_restarted_line service old_pid new_pid =
     [''[SUP ] restarted service='', show_dec (unat service), '' old-pid='', show_dec (unat old_pid),
      '' new-pid='', show_dec (unat new_pid), newline]"

definition format_restart_suppressed_line :: "service_id \<Rightarrow> suppressed_reason \<Rightarrow> string list" where
  "format_restart_suppressed_line service reason =
     [''[SUP ] restart suppressed service='', show_dec (unat service), '' reason='', suppressed_token reason, newline]"

definition format_service_state_line :: "service_id \<Rightarrow> lifecycle_state \<Rightarrow> u64 option \<Rightarrow> u32 \<Rightarrow> string list" where
  "format_service_state_line service state pid generation =
    (case pid of
       Some pid \<Rightarrow> [''[SUP ] service='', show_dec (unat service), '' state='', show_dec (unat (lifecycle_state_repr state)),
         '' pid='', show_dec (unat pid), '' gen='', show_dec (unat generation), newline]
     | None \<Rightarrow> [''[SUP ] service='', show_dec (unat service), '' state='', show_dec (unat (lifecycle_state_repr state)),
         '' pid=- gen='', show_dec (unat generation), newline])"

definition format_health_healthy_line :: "service_id \<Rightarrow> instance_generation \<Rightarrow> string list" where
  "format_health_healthy_line service generation =
     [''[HLTH] service='', show_dec (unat service), '' healthy gen='', show_dec (unat generation), newline]"

definition format_health_unhealthy_line :: "service_id \<Rightarrow> failure_reason \<Rightarrow> string list" where
  "format_health_unhealthy_line service reason =
     [''[HLTH] service='', show_dec (unat service), '' unhealthy reason='', failure_token reason, newline]"

definition format_dependency_ready_line :: "service_id \<Rightarrow> string list" where
  "format_dependency_ready_line service = [''[DEP ] service='', show_dec (unat service), '' ready'', newline]"

fun blocked_by :: "start_block_reason \<Rightarrow> service_id" where
  "blocked_by (DependencyNotReady dependency _ _) = dependency"
| "blocked_by (DependencyFailed dependency _) = dependency"
| "blocked_by (DependencyUnhealthy dependency _) = dependency"

definition format_dependency_blocked_line :: "service_id \<Rightarrow> start_block_reason \<Rightarrow> string list" where
  "format_dependency_blocked_line service reason =
     [''[DEP ] service='', show_dec (unat service), '' blocked-by='', show_dec (unat (blocked_by reason)), newline]"

lemma write_pieces_eq:
  "length buffer \<le> capacity \<Longrightarrow>
   write_pieces capacity buffer pieces =
     (if length buffer + length (concat pieces) \<le> capacity then Some (buffer @ concat pieces) else None)"
proof (induction pieces arbitrary: buffer)
  case (Cons piece pieces)
  then show ?case
    by (cases "length buffer + length piece \<le> capacity") (auto simp: write_str_def)
qed simp

lemma length_show_dec: "n < 10 ^ k \<Longrightarrow> 0 < k \<Longrightarrow> length (show_dec n) \<le> k"
proof (induction k arbitrary: n)
  case (Suc k)
  show ?case
  proof (cases "n < 10")
    case True
    then show ?thesis by (subst show_dec.simps) simp
  next
    case False
    with Suc.prems have "0 < k" by (cases k) auto
    moreover have "n div 10 < 10 ^ k" using Suc.prems by (simp add: less_mult_imp_div_less mult.commute)
    ultimately have "length (show_dec (n div 10)) \<le> k" by (rule Suc.IH [rotated])
    with False show ?thesis by (subst show_dec.simps) simp
  qed
qed simp

lemma length_show_u32: "length (show_dec (unat v)) \<le> 10" for v :: u32
  by (rule length_show_dec) (use unat_bound [of v] in simp_all)

lemma length_show_u64: "length (show_dec (unat v)) \<le> 20" for v :: u64
  by (rule length_show_dec) (use unat_bound [of v] in simp_all)

lemma length_show_state: "length (show_dec (unat (lifecycle_state_repr s))) = 1"
  by (cases s) (simp_all add: show_dec.simps)

section \<open>The supervisor runtime\<close>

datatype supervisor_error = SupRegistry registry_error | SupControl control_error | SupUnknownService

text \<open>A control transport over states \<open>'c\<close> and a diagnostic sink over states \<open>'d\<close>.\<close>

record ('c, 'd) sup_env =
  issue :: "control_request \<Rightarrow> ('c, control_error, unit) op"
  poll :: "service_id \<Rightarrow> ('c, control_error, lifecycle_event option) op"
  emit :: "string \<Rightarrow> ('d, supervisor_error, unit) op"

record ('c, 'd) supervisor =
  sv_self_pid :: process_id
  sv_registry :: lifecycle_tracker
  sv_control :: 'c
  sv_diagnostics :: 'd

definition on_registry :: "(lifecycle_tracker, 'e, 'a) op \<Rightarrow> (('c, 'd) supervisor, 'e, 'a) op" where
  "on_registry = op_on sv_registry (\<lambda>x s. s\<lparr>sv_registry := x\<rparr>)"

definition on_control :: "('c, 'e, 'a) op \<Rightarrow> (('c, 'd) supervisor, 'e, 'a) op" where
  "on_control = op_on sv_control (\<lambda>x s. s\<lparr>sv_control := x\<rparr>)"

definition on_diagnostics :: "('d, 'e, 'a) op \<Rightarrow> (('c, 'd) supervisor, 'e, 'a) op" where
  "on_diagnostics = op_on sv_diagnostics (\<lambda>x s. s\<lparr>sv_diagnostics := x\<rparr>)"

definition supervisor_new :: "nat \<Rightarrow> process_id \<Rightarrow> 'c \<Rightarrow> 'd \<Rightarrow> ('c, 'd) supervisor" where
  "supervisor_new n self_pid control diagnostics =
     \<lparr>sv_self_pid = self_pid, sv_registry = tracker_new n, sv_control = control, sv_diagnostics = diagnostics\<rparr>"

definition LINE_BYTES :: nat where
  "LINE_BYTES = 96"

definition emit_pieces :: "('c, 'd) sup_env \<Rightarrow> string list \<Rightarrow> (('c, 'd) supervisor, supervisor_error, unit) op" where
  "emit_pieces env pieces =
    (case write_pieces LINE_BYTES [] pieces of
       None \<Rightarrow> op_err (SupControl TransportFailed)
     | Some line \<Rightarrow> on_diagnostics (emit env line))"

definition sup_start :: "('c, 'd) sup_env \<Rightarrow> (('c, 'd) supervisor, supervisor_error, unit) op" where
  "sup_start env s = emit_pieces env (format_started_line (sv_self_pid s)) s"

definition log_service_state :: "('c, 'd) sup_env \<Rightarrow> service_id \<Rightarrow> (('c, 'd) supervisor, supervisor_error, unit) op" where
  "log_service_state env service s =
    (case registry_query service (sv_registry s) of
       None \<Rightarrow> (Inl SupUnknownService, s)
     | Some q \<Rightarrow>
         emit_pieces env (format_service_state_line (qe_service q) (qe_state q) (qe_active_pid q) (qe_generation q)) s)"

definition sup_register_service :: "('c, 'd) sup_env \<Rightarrow> service_id \<Rightarrow> (('c, 'd) supervisor, supervisor_error, unit) op" where
  "sup_register_service env service =
     op_bind (op_map_err SupRegistry (on_registry (registry_declare service))) (\<lambda>_.
     op_bind (emit_pieces env (format_registered_line service)) (\<lambda>_.
     log_service_state env service))"

definition sup_issue_control :: "('c, 'd) sup_env \<Rightarrow> control_request \<Rightarrow> (('c, 'd) supervisor, supervisor_error, unit) op" where
  "sup_issue_control env request =
     op_bind (op_map_err SupControl (on_control (issue env request))) (\<lambda>_.
     op_map_err SupRegistry (on_registry (registry_apply_control request)))"

definition sup_apply_control :: "control_request \<Rightarrow> (('c, 'd) supervisor, supervisor_error, unit) op" where
  "sup_apply_control request = op_map_err SupRegistry (on_registry (registry_apply_control request))"

definition sup_handle_lifecycle_event :: "('c, 'd) sup_env \<Rightarrow> lifecycle_event \<Rightarrow> (('c, 'd) supervisor, supervisor_error, unit) op" where
  "sup_handle_lifecycle_event env event =
     op_bind (op_map_err SupRegistry (on_registry (registry_apply_event event))) (\<lambda>_.
     log_service_state env (si_service (le_instance event)))"

definition sup_poll_event :: "('c, 'd) sup_env \<Rightarrow> service_id \<Rightarrow> (('c, 'd) supervisor, supervisor_error, lifecycle_event option) op" where
  "sup_poll_event env service = op_map_err SupControl (on_control (poll env service))"

definition emit_diagnostic :: "('c, 'd) sup_env \<Rightarrow> string \<Rightarrow> (('c, 'd) supervisor, supervisor_error, unit) op" where
  "emit_diagnostic env line = on_diagnostics (emit env line)"

definition issue_restart_sequence :: "('c, 'd) sup_env \<Rightarrow> service_id \<Rightarrow> (('c, 'd) supervisor, supervisor_error, unit) op" where
  "issue_restart_sequence env service =
     op_bind (sup_issue_control env (control_request_new service Restart)) (\<lambda>_.
     sup_issue_control env (control_request_new service Start))"

text \<open>The loop of at most eight polls.\<close>

fun drain_events_loop :: "nat \<Rightarrow> ('c, 'd) sup_env \<Rightarrow> service_id \<Rightarrow> (('c, 'd) supervisor, supervisor_error, unit) op" where
  "drain_events_loop 0 env service = op_ok ()"
| "drain_events_loop (Suc n) env service =
     op_bind (sup_poll_event env service) (\<lambda>reply.
       case reply of
         None \<Rightarrow> op_ok ()
       | Some event \<Rightarrow> op_bind (sup_handle_lifecycle_event env event) (\<lambda>_. drain_events_loop n env service))"

definition drain_events_for :: "('c, 'd) sup_env \<Rightarrow> service_id \<Rightarrow> (('c, 'd) supervisor, supervisor_error, unit) op" where
  "drain_events_for env service = drain_events_loop 8 env service"

definition sup_request_start :: "('c, 'd) sup_env \<Rightarrow> service_id \<Rightarrow> (('c, 'd) supervisor, supervisor_error, unit) op" where
  "sup_request_start env service =
     op_bind (sup_issue_control env (control_request_new service Start)) (\<lambda>_.
     op_bind (drain_events_for env service) (\<lambda>_.
     log_service_state env service))"

definition sup_request_restart :: "('c, 'd) sup_env \<Rightarrow> service_id \<Rightarrow> (('c, 'd) supervisor, supervisor_error, unit) op" where
  "sup_request_restart env service =
     op_bind (issue_restart_sequence env service) (\<lambda>_.
     op_bind (drain_events_for env service) (\<lambda>_.
     log_service_state env service))"

section \<open>Restart backoff\<close>

lemma on_failure_bounded:
  assumes "rr_policy r = OnFailure limits"
  shows "on_failure pid now r =
    (if rr_attempts r < max_attempts limits
     then let nb = ticks_add now (saturating_mul (backoff_base_ticks limits) (ucast (rr_attempts r)))
          in (Scheduled (rr_attempts r + 1) nb, r\<lparr>rr_failed_pid := pid, rr_not_before := nb, rr_pending := True\<rparr>)
     else (Suppressed RetryExhausted, r\<lparr>rr_failed_pid := pid, rr_pending := False\<rparr>))"
    and "rr_attempts r < max_attempts limits \<Longrightarrow>
      unat (rr_attempts r + 1) = Suc (unat (rr_attempts r)) \<and> rr_attempts r + 1 \<le> max_attempts limits"
    and "unat (ticks_add now (saturating_mul (backoff_base_ticks limits) (ucast (rr_attempts r)))) =
      min (unat now + min (unat (backoff_base_ticks limits) * unat (rr_attempts r)) (2 ^ 64 - 1)) (2 ^ 64 - 1)"
proof -
  have ne: "rr_attempts r \<noteq> - 1" if "rr_attempts r < max_attempts limits"
    using that by (metis word_order.extremum_strict)
  show succ: "unat (rr_attempts r + 1) = Suc (unat (rr_attempts r)) \<and> rr_attempts r + 1 \<le> max_attempts limits"
    if "rr_attempts r < max_attempts limits"
    using unat_succ [OF ne [OF that]] that by (simp add: word_le_nat_alt word_less_nat_alt)
  have add: "saturating_add (rr_attempts r) 1 = rr_attempts r + 1" if "rr_attempts r < max_attempts limits"
  proof -
    have "unat (rr_attempts r) + unat (1 :: u32) < 2 ^ LENGTH(32)"
      using succ [OF that] unat_bound [of "rr_attempts r + 1"] by simp
    then show ?thesis by (simp add: saturating_add_def checked_add_def)
  qed
  have sub: "saturating_sub (rr_attempts r + 1) 1 = rr_attempts r" if "rr_attempts r < max_attempts limits"
    using succ [OF that] by (simp add: saturating_sub_def word_le_nat_alt)
  show "on_failure pid now r =
    (if rr_attempts r < max_attempts limits
     then let nb = ticks_add now (saturating_mul (backoff_base_ticks limits) (ucast (rr_attempts r)))
          in (Scheduled (rr_attempts r + 1) nb, r\<lparr>rr_failed_pid := pid, rr_not_before := nb, rr_pending := True\<rparr>)
     else (Suppressed RetryExhausted, r\<lparr>rr_failed_pid := pid, rr_pending := False\<rparr>))"
    using assms add sub by (auto simp: on_failure_def Let_def not_less)
  have "unat (ucast (rr_attempts r) :: u64) = unat (rr_attempts r)"
    using unat_bound [of "rr_attempts r"] by (simp add: unsigned_ucast_eq take_bit_nat_eq_self)
  then show "unat (ticks_add now (saturating_mul (backoff_base_ticks limits) (ucast (rr_attempts r)))) =
      min (unat now + min (unat (backoff_base_ticks limits) * unat (rr_attempts r)) (2 ^ 64 - 1)) (2 ^ 64 - 1)"
    by (simp add: ticks_add_unat unat_saturating_mul)
qed

text \<open>After a failure a service with a bounded policy is given another attempt exactly
  while fewer than the allowed attempts have been started. The attempt has the next number, which stays
  within the bound, and it may run after a delay of the base period times the attempts so far, where the
  product and the deadline saturate instead of wrapping; so the first retry is immediate and the delay
  grows linearly. Otherwise nothing stays pending.\<close>

theorem on_failure_backoff:
  assumes "rr_policy r = OnFailure limits"
  shows "\<exists>nb. on_failure pid now r =
      (if rr_attempts r < max_attempts limits
       then (Scheduled (rr_attempts r + 1) nb, r\<lparr>rr_failed_pid := pid, rr_not_before := nb, rr_pending := True\<rparr>)
       else (Suppressed RetryExhausted, r\<lparr>rr_failed_pid := pid, rr_pending := False\<rparr>)) \<and>
    unat nb = min (unat now + min (unat (backoff_base_ticks limits) * unat (rr_attempts r)) (2 ^ 64 - 1)) (2 ^ 64 - 1) \<and>
    (rr_attempts r < max_attempts limits \<longrightarrow>
      unat (rr_attempts r + 1) = Suc (unat (rr_attempts r)) \<and> rr_attempts r + 1 \<le> max_attempts limits)"
proof -
  let ?nb = "ticks_add now (saturating_mul (backoff_base_ticks limits) (ucast (rr_attempts r)))"
  show ?thesis
    using on_failure_bounded(1) [OF assms, of pid now] on_failure_bounded(2) [OF assms] on_failure_bounded(3) [OF assms, of now]
    by (intro exI [of _ ?nb] conjI impI) (simp_all only: Let_def)
qed

theorem on_failure_backoff_witness:
  "\<exists>nb. on_failure (Some 9) 100 ((recovery_new (OnFailure \<lparr>max_attempts = 3, backoff_base_ticks = 10\<rparr>))\<lparr>rr_attempts := 2\<rparr>)
   = (Scheduled 3 nb, \<lparr>rr_policy = OnFailure \<lparr>max_attempts = 3, backoff_base_ticks = 10\<rparr>, rr_attempts = 2,
       rr_pending = True, rr_not_before = nb, rr_failed_pid = Some 9\<rparr>) \<and> unat nb = 120"
  using on_failure_backoff [of "(recovery_new (OnFailure \<lparr>max_attempts = 3, backoff_base_ticks = 10\<rparr>))\<lparr>rr_attempts := 2\<rparr>"
      "\<lparr>max_attempts = 3, backoff_base_ticks = 10\<rparr>" "Some 9" 100]
  by (auto simp: recovery_new_def)

section \<open>Lines fit their buffers\<close>

lemma length_suppressed_token: "length (suppressed_token r) \<le> 10"
  by (cases r) simp_all

lemma length_failure_token: "length (failure_token r) \<le> 13"
  by (cases r) simp_all

lemmas format_defs = format_started_line_def format_registered_line_def format_failure_line_def
  format_restart_line_def format_restarted_line_def format_restart_suppressed_line_def
  format_service_state_line_def format_health_healthy_line_def format_health_unhealthy_line_def
  format_dependency_ready_line_def format_dependency_blocked_line_def newline_def

lemma state_line_fits: "length (concat (format_service_state_line s st pid g)) \<le> 96"
  using length_show_u32 [of s] length_show_u32 [of g] length_show_u64 [of "the pid"] length_show_state [of st]
  by (auto simp: format_defs split: option.splits)

lemma runtime_lines_fit:
  "length (concat (format_started_line p)) \<le> 96"
  "length (concat (format_registered_line s)) \<le> 96"
  using length_show_u32 [of s] length_show_u64 [of p] by (auto simp: format_defs)

lemma converged_lines_fit:
  "length (concat (format_failure_line s p)) \<le> 128"
  "length (concat (format_restart_line s a)) \<le> 128"
  "length (concat (format_restarted_line s p q)) \<le> 128"
  "length (concat (format_restart_suppressed_line s r)) \<le> 128"
  "length (concat (format_health_healthy_line s g)) \<le> 128"
  "length (concat (format_health_unhealthy_line s f)) \<le> 128"
  "length (concat (format_dependency_ready_line s)) \<le> 128"
  "length (concat (format_dependency_blocked_line s b)) \<le> 128"
  using length_show_u32 [of s] length_show_u32 [of a] length_show_u32 [of g] length_show_u32 [of "blocked_by b"]
    length_show_u64 [of p] length_show_u64 [of q] length_suppressed_token [of r] length_failure_token [of f]
  by (simp_all add: format_defs)

lemma emit_pieces_eq:
  "length (concat pieces) \<le> 96 \<Longrightarrow> emit_pieces env pieces = on_diagnostics (emit env (concat pieces))"
  by (simp add: emit_pieces_def write_pieces_eq LINE_BYTES_def)

section \<open>The registry as a map\<close>

definition registry_map :: "lifecycle_tracker \<Rightarrow> service_id \<Rightarrow> lifecycle_record option" where
  "registry_map t k = (case tracker_record k t of Inr r \<Rightarrow> Some r | Inl _ \<Rightarrow> None)"

lemma registry_map_lookup: "registry_map t k = tracker.lookup k t"
  by (simp add: registry_map_def tracker_record_lookup ok_or_def split: option.splits)

lemma tracker_update_map:
  assumes "keys_unique lr_service t" and "\<And>r. lr_service (snd (f r)) = lr_service r"
  shows "keys_unique lr_service (snd (tracker_record_mut k f t)) \<and>
    registry_map (snd (tracker_record_mut k f t)) =
      (case registry_map t k of None \<Rightarrow> registry_map t | Some r \<Rightarrow> (registry_map t)(k \<mapsto> snd (f r)))"
proof (cases "tracker.lookup k t")
  case None
  with assms show ?thesis by (simp add: tracker_record_mut_eq registry_map_lookup)
next
  case (Some r)
  then obtain i where i: "tracker_find k t = Some i" by (auto simp: tracker.lookup_def split: option.splits)
  have "lr_service (snd (f r)) = k" using assms(2) tracker.lookup_key [OF Some] by simp
  note u = tracker.update_lookup [OF assms(1) i this]
  have "registry_map (t[i := Some (snd (f r))]) = (registry_map t)(k \<mapsto> snd (f r))"
    by (rule ext) (simp add: registry_map_lookup u(2))
  with Some i u(1) show ?thesis by (simp add: tracker_record_mut_eq registry_map_lookup)
qed

lemma registry_apply_control_snd:
  "snd (registry_apply_control q t) = snd (tracker_record_mut (cr_service q) (record_apply_control q) t)"
  by (simp add: registry_apply_control_def split: prod.splits sum.splits)

lemma registry_apply_event_snd:
  "snd (registry_apply_event e t) = snd (tracker_record_mut (si_service (le_instance e)) (record_apply_event e) t)"
  by (simp add: registry_apply_event_def split: prod.splits sum.splits)

lemma registry_declare_eq: "registry_declare s t = (map_err Registry (fst (tracker_declare s t)), snd (tracker_declare s t))"
  by (simp add: registry_declare_def op_map_err_def split: prod.splits)

lemma registry_map_steps:
  assumes "keys_unique lr_service t"
  shows "keys_unique lr_service (snd (registry_declare s t)) \<and>
      registry_map (snd (registry_declare s t)) =
        (if is_ok (fst (registry_declare s t)) then (registry_map t)(s \<mapsto> record_declared s) else registry_map t)"
    and "is_ok (fst (registry_declare s t)) \<longleftrightarrow> registry_map t s = None \<and> None \<in> set t"
    and "keys_unique lr_service (snd (registry_apply_control q t)) \<and>
      registry_map (snd (registry_apply_control q t)) =
        (case registry_map t (cr_service q) of None \<Rightarrow> registry_map t
         | Some r \<Rightarrow> (registry_map t)(cr_service q \<mapsto> snd (record_apply_control q r)))"
    and "keys_unique lr_service (snd (registry_apply_event e t)) \<and>
      registry_map (snd (registry_apply_event e t)) =
        (case registry_map t (si_service (le_instance e)) of None \<Rightarrow> registry_map t
         | Some r \<Rightarrow> (registry_map t)(si_service (le_instance e) \<mapsto> snd (record_apply_event e r)))"
proof -
  show "is_ok (fst (registry_declare s t)) \<longleftrightarrow> registry_map t s = None \<and> None \<in> set t"
    using tracker.enrol_ok_iff [of s t]
    by (cases "fst (tracker_declare s t)") (auto simp: registry_declare_eq registry_map_lookup)
  show "keys_unique lr_service (snd (registry_declare s t)) \<and>
      registry_map (snd (registry_declare s t)) =
        (if is_ok (fst (registry_declare s t)) then (registry_map t)(s \<mapsto> record_declared s) else registry_map t)"
  proof (cases "fst (tracker_declare s t)")
    case (Inl x)
    with tracker.enrol_error [OF Inl] assms show ?thesis by (simp add: registry_declare_eq)
  next
    case (Inr u)
    then have "fst (tracker_declare s t) = Inr ()" by simp
    note l = tracker.enrol_lookup [OF assms this] tracker.enrol_unique [OF assms, of s]
    have "registry_map (snd (tracker_declare s t)) = (registry_map t)(s \<mapsto> record_declared s)"
      by (rule ext) (simp add: registry_map_lookup l)
    with Inr l(2) show ?thesis by (simp add: registry_declare_eq)
  qed
  show "keys_unique lr_service (snd (registry_apply_control q t)) \<and>
      registry_map (snd (registry_apply_control q t)) =
        (case registry_map t (cr_service q) of None \<Rightarrow> registry_map t
         | Some r \<Rightarrow> (registry_map t)(cr_service q \<mapsto> snd (record_apply_control q r)))"
    unfolding registry_apply_control_snd
    by (rule tracker_update_map [OF assms]) (use record_apply_service [of "Request q"] in simp)
  show "keys_unique lr_service (snd (registry_apply_event e t)) \<and>
      registry_map (snd (registry_apply_event e t)) =
        (case registry_map t (si_service (le_instance e)) of None \<Rightarrow> registry_map t
         | Some r \<Rightarrow> (registry_map t)(si_service (le_instance e) \<mapsto> snd (record_apply_event e r)))"
    unfolding registry_apply_event_snd
    by (rule tracker_update_map [OF assms]) (use record_apply_service [of "Report e"] in simp)
qed

text \<open>C25 (refinement). The registry implements a finite map from services to lifecycle records: a
  successful declaration adds the declared record and a failed one changes nothing, a control request or
  an event rewrites the record of its own service with the state machine and no other, and unknown
  services are left out; keys stay unique throughout.\<close>

theorem registry_refines_map:
  assumes "keys_unique lr_service t"
  shows "keys_unique lr_service (snd (registry_declare s t)) \<and>
    registry_map (snd (registry_declare s t)) =
      (if registry_map t s = None \<and> None \<in> set t then (registry_map t)(s \<mapsto> record_declared s) else registry_map t) \<and>
    keys_unique lr_service (snd (registry_apply_control q t)) \<and>
    registry_map (snd (registry_apply_control q t)) =
      (case registry_map t (cr_service q) of None \<Rightarrow> registry_map t
       | Some r \<Rightarrow> (registry_map t)(cr_service q \<mapsto> snd (record_apply_control q r))) \<and>
    keys_unique lr_service (snd (registry_apply_event e t)) \<and>
    registry_map (snd (registry_apply_event e t)) =
      (case registry_map t (si_service (le_instance e)) of None \<Rightarrow> registry_map t
       | Some r \<Rightarrow> (registry_map t)(si_service (le_instance e) \<mapsto> snd (record_apply_event e r)))"
  unfolding registry_map_steps(2) [OF assms, of s, symmetric]
  using registry_map_steps(1,3,4) [OF assms] by blast

theorem registry_refines_map_witness:
  "registry_map (snd (registry_declare 7 (tracker_new 2))) 7 = Some (record_declared 7)"
proof -
  have u: "keys_unique lr_service (tracker_new 2)" by (simp add: tracker_new_def)
  have "registry_map (tracker_new 2) 7 = None"
    by (simp add: registry_map_def tracker_record_def tracker_find_def tracker_new_def ok_or_def numeral_2_eq_2)
  with registry_refines_map [OF u, of 7] show ?thesis by (simp add: tracker_new_def)
qed

end
