(* ===== verification/Sup_Convergence.thy ===== *)
theory Sup_Convergence
  imports Sup_Runtime
begin

text \<open>
  The converged supervisor (\<open>supervisor/src/convergence.rs\<close>): registry, health tracker, dependency graph
  and restart policy driven by lifecycle events, health reports and ticks. Handling an event may restart
  services, which polls the transport for further events and handles them in turn; the source recurses
  there without a bound of its own. Each operation takes the event handler that it calls as an argument,
  and \<open>handle_lifecycle_event\<close> ties the knot with a bound on the nesting: running out of it is the
  value \<open>None\<close>. A transport that cannot hand out events for ever is the interface \<open>draining_control\<close>; for
  it a sufficient bound is proved, so the operations return.
\<close>

section \<open>Operations that may run out of nesting\<close>

type_synonym ('s, 'e, 'a) fop = "'s \<Rightarrow> (('e + 'a) \<times> 's) option"

definition fop_of :: "('s, 'e, 'a) op \<Rightarrow> ('s, 'e, 'a) fop" where
  "fop_of m s = Some (m s)"

definition fop_bind :: "('s, 'e, 'a) fop \<Rightarrow> ('a \<Rightarrow> ('s, 'e, 'b) fop) \<Rightarrow> ('s, 'e, 'b) fop" where
  "fop_bind m f s =
    (case m s of
       None \<Rightarrow> None
     | Some (Inl e, s') \<Rightarrow> Some (Inl e, s')
     | Some (Inr a, s') \<Rightarrow> f a s')"

abbreviation "fop_ok a \<equiv> fop_of (op_ok a)"

text \<open>A loop over the elements of a list, left by the first error.\<close>

fun fop_for :: "'a list \<Rightarrow> ('a \<Rightarrow> ('s, 'e, unit) fop) \<Rightarrow> ('s, 'e, unit) fop" where
  "fop_for [] body = fop_ok ()"
| "fop_for (x # xs) body = fop_bind (body x) (\<lambda>_. fop_for xs body)"

section \<open>State\<close>

definition STABLE_HEALTH_REPORTS_REQUIRED :: u32 where
  "STABLE_HEALTH_REPORTS_REQUIRED = 2"

datatype converged_error =
    ConvSupervisor supervisor_error
  | ConvRegistry registry_error
  | ConvHealth health_tracker_error
  | ConvDependencies graph_error
  | StartBlocked start_block_reason
  | ConvUnknownService

record convergence_config =
  cc_restart :: restart_policy
  cc_liveness :: liveness_config

record recovery_slot =
  rs_service :: service_id
  rs_runtime :: recovery_runtime
  rs_scheduled_attempt :: u32
  rs_restart_old_pid :: "u64 option"
  rs_last_healthy_gen :: u32
  rs_healthy_reports :: u32

record ('c, 'd) converged =
  cv_supervisor :: "('c, 'd) supervisor"
  cv_health :: health_tracker
  cv_dependencies :: dependency_graph
  cv_recovery :: "recovery_slot option list"
  cv_liveness :: liveness_config
  cv_now :: ticks
  cv_dep_health :: health_snapshot

definition converged_new :: "nat \<Rightarrow> process_id \<Rightarrow> 'c \<Rightarrow> 'd \<Rightarrow> liveness_config \<Rightarrow> ('c, 'd) converged" where
  "converged_new n self_pid control diagnostics liveness =
     \<lparr>cv_supervisor = supervisor_new n self_pid control diagnostics, cv_health = health_tracker_new n,
      cv_dependencies = graph_new n, cv_recovery = replicate n None, cv_liveness = liveness, cv_now = 0,
      cv_dep_health = snapshot_empty n\<rparr>"

abbreviation "cv_registry s \<equiv> sv_registry (cv_supervisor s)"

definition on_supervisor :: "(('c, 'd) supervisor, supervisor_error, 'a) op \<Rightarrow> (('c, 'd) converged, converged_error, 'a) op" where
  "on_supervisor m = op_map_err ConvSupervisor (op_on cv_supervisor (\<lambda>x s. s\<lparr>cv_supervisor := x\<rparr>) m)"

definition on_health :: "(health_tracker, health_tracker_error, 'a) op \<Rightarrow> (('c, 'd) converged, converged_error, 'a) op" where
  "on_health m = op_map_err ConvHealth (op_on cv_health (\<lambda>x s. s\<lparr>cv_health := x\<rparr>) m)"

definition on_dependencies :: "(dependency_graph, graph_error, 'a) op \<Rightarrow> (('c, 'd) converged, converged_error, 'a) op" where
  "on_dependencies m = op_map_err ConvDependencies (op_on cv_dependencies (\<lambda>x s. s\<lparr>cv_dependencies := x\<rparr>) m)"

definition recovery_find :: "service_id \<Rightarrow> recovery_slot option list \<Rightarrow> nat option" where
  "recovery_find service slots =
     position (\<lambda>entry. case entry of Some slot \<Rightarrow> rs_service slot = service | None \<Rightarrow> False) slots"

definition recovery_slot_mut :: "service_id \<Rightarrow> (recovery_slot \<Rightarrow> 'a \<times> recovery_slot) \<Rightarrow> (('c, 'd) converged, converged_error, 'a) op" where
  "recovery_slot_mut service update s =
    (case recovery_find service (cv_recovery s) of
       None \<Rightarrow> (Inl ConvUnknownService, s)
     | Some i \<Rightarrow>
         (case cv_recovery s ! i of
            None \<Rightarrow> (Inl ConvUnknownService, s)
          | Some slot \<Rightarrow> (let (a, slot') = update slot in (Inr a, s\<lparr>cv_recovery := (cv_recovery s)[i := Some slot']\<rparr>))))"

text \<open>\<open>if let Ok(slot) = self.recovery_slot_mut(service)\<close>: a missing slot is passed over.\<close>

definition if_slot :: "service_id \<Rightarrow> (recovery_slot \<Rightarrow> recovery_slot) \<Rightarrow> (('c, 'd) converged, converged_error, unit) op" where
  "if_slot service update s = (Inr (), snd (recovery_slot_mut service (\<lambda>slot. ((), update slot)) s))"

section \<open>Diagnostics\<close>

definition CONV_LINE_BYTES :: nat where
  "CONV_LINE_BYTES = 128"

definition emit_line :: "('c, 'd) sup_env \<Rightarrow> string list \<Rightarrow> (('c, 'd) converged, converged_error, unit) op" where
  "emit_line env pieces =
    (case write_pieces CONV_LINE_BYTES [] pieces of
       None \<Rightarrow> op_err (ConvSupervisor SupUnknownService)
     | Some line \<Rightarrow> on_supervisor (emit_diagnostic env line))"

definition emit_failure :: "('c, 'd) sup_env \<Rightarrow> service_id \<Rightarrow> u64 \<Rightarrow> (('c, 'd) converged, converged_error, unit) op" where
  "emit_failure env service pid = emit_line env (format_failure_line service pid)"

definition emit_restart :: "('c, 'd) sup_env \<Rightarrow> service_id \<Rightarrow> u32 \<Rightarrow> (('c, 'd) converged, converged_error, unit) op" where
  "emit_restart env service attempt = emit_line env (format_restart_line service attempt)"

definition emit_restarted :: "('c, 'd) sup_env \<Rightarrow> service_id \<Rightarrow> u64 \<Rightarrow> u64 \<Rightarrow> (('c, 'd) converged, converged_error, unit) op" where
  "emit_restarted env service old_pid new_pid = emit_line env (format_restarted_line service old_pid new_pid)"

definition emit_restart_suppressed :: "('c, 'd) sup_env \<Rightarrow> service_id \<Rightarrow> suppressed_reason \<Rightarrow> (('c, 'd) converged, converged_error, unit) op" where
  "emit_restart_suppressed env service reason = emit_line env (format_restart_suppressed_line service reason)"

definition emit_health_healthy :: "('c, 'd) sup_env \<Rightarrow> service_id \<Rightarrow> instance_generation \<Rightarrow> (('c, 'd) converged, converged_error, unit) op" where
  "emit_health_healthy env service generation = emit_line env (format_health_healthy_line service generation)"

definition emit_health_unhealthy :: "('c, 'd) sup_env \<Rightarrow> service_id \<Rightarrow> failure_reason \<Rightarrow> (('c, 'd) converged, converged_error, unit) op" where
  "emit_health_unhealthy env service reason = emit_line env (format_health_unhealthy_line service reason)"

definition emit_dependency_ready :: "('c, 'd) sup_env \<Rightarrow> service_id \<Rightarrow> (('c, 'd) converged, converged_error, unit) op" where
  "emit_dependency_ready env service = emit_line env (format_dependency_ready_line service)"

definition emit_dependency_blocked :: "('c, 'd) sup_env \<Rightarrow> service_id \<Rightarrow> start_block_reason \<Rightarrow> (('c, 'd) converged, converged_error, unit) op" where
  "emit_dependency_blocked env service reason = emit_line env (format_dependency_blocked_line service reason)"

definition maybe_emit_acceptance_health :: "('c, 'd) sup_env \<Rightarrow> service_id \<Rightarrow> instance_generation \<Rightarrow> (('c, 'd) converged, converged_error, unit) op" where
  "maybe_emit_acceptance_health env service generation =
    (if generation \<noteq> 1 \<and> generation \<noteq> 2 then op_ok ()
     else op_bind (recovery_slot_mut service (\<lambda>slot. (rs_last_healthy_gen slot, slot))) (\<lambda>last_gen.
       if last_gen = generation then op_ok ()
       else op_bind (emit_health_healthy env service generation) (\<lambda>_.
         recovery_slot_mut service (\<lambda>slot. ((), slot\<lparr>rs_last_healthy_gen := generation\<rparr>)))))"

section \<open>Dependency gating\<close>

fun slot_health :: "health_tracker \<Rightarrow> recovery_slot option \<Rightarrow> health_snapshot \<Rightarrow> health_snapshot" where
  "slot_health health None h = h"
| "slot_health health (Some slot) h =
    (case fst (health_record_mut (rs_service slot) (\<lambda>r. (r, r)) health) of
       Inl _ \<Rightarrow> h
     | Inr r \<Rightarrow>
         snd (snapshot_set (rs_service slot)
           (if is_healthy r then Ok else if failure_reason_of r \<noteq> None then Unhealthy else Unknown) h))"

definition refresh_dependency_health :: "(('c, 'd) converged, converged_error, unit) op" where
  "refresh_dependency_health s =
     (Inr (), s\<lparr>cv_dep_health :=
        fold (slot_health (cv_health s)) (cv_recovery s) (snapshot_empty (length (cv_recovery s)))\<rparr>)"

definition start_readiness_of :: "service_id \<Rightarrow> (('c, 'd) converged, converged_error, start_readiness) op" where
  "start_readiness_of service =
     op_of (\<lambda>s. map_err ConvDependencies
       (evaluate_start_readiness service (cv_dependencies s) (cv_registry s) (Some (cv_dep_health s))))"

definition ensure_start_ready :: "('c, 'd) sup_env \<Rightarrow> service_id \<Rightarrow> (('c, 'd) converged, converged_error, unit) op" where
  "ensure_start_ready env service =
     op_bind refresh_dependency_health (\<lambda>_.
     op_bind (start_readiness_of service) (\<lambda>readiness.
       case readiness of
         Ready_to_start \<Rightarrow>
           (\<lambda>s. if has_dependencies service (cv_dependencies s) then emit_dependency_ready env service s else op_ok () s)
       | Blocked reason \<Rightarrow>
           op_bind (emit_dependency_blocked env service reason) (\<lambda>_. op_err (StartBlocked reason))))"

section \<open>Events, failures and restarts\<close>

type_synonym ('c, 'd) handler = "lifecycle_event \<Rightarrow> (('c, 'd) converged, converged_error, unit) fop"

definition service_running :: "service_id \<Rightarrow> ('c, 'd) converged \<Rightarrow> bool" where
  "service_running service s =
    (case registry_query service (cv_registry s) of Some q \<Rightarrow> qe_state q = Running | None \<Rightarrow> False)"

fun drain_loop :: "nat \<Rightarrow> ('c, 'd) sup_env \<Rightarrow> ('c, 'd) handler \<Rightarrow> service_id \<Rightarrow> (('c, 'd) converged, converged_error, unit) fop" where
  "drain_loop 0 env H service = fop_ok ()"
| "drain_loop (Suc n) env H service =
     fop_bind (fop_of (on_supervisor (sup_poll_event env service))) (\<lambda>reply.
       case reply of
         None \<Rightarrow> fop_ok ()
       | Some event \<Rightarrow>
           fop_bind (H event) (\<lambda>_ s.
             if service_running service s then fop_ok () s else drain_loop n env H service s))"

definition drain_events :: "('c, 'd) sup_env \<Rightarrow> ('c, 'd) handler \<Rightarrow> service_id \<Rightarrow> (('c, 'd) converged, converged_error, unit) fop" where
  "drain_events env H service = drain_loop 8 env H service"

definition try_execute_restart :: "('c, 'd) sup_env \<Rightarrow> ('c, 'd) handler \<Rightarrow> service_id \<Rightarrow> u32 \<Rightarrow> (('c, 'd) converged, converged_error, unit) fop" where
  "try_execute_restart env H service attempt =
     fop_bind (fop_of refresh_dependency_health) (\<lambda>_.
     fop_bind (fop_of (start_readiness_of service)) (\<lambda>readiness.
       case readiness of
         Blocked reason \<Rightarrow> fop_of (emit_dependency_blocked env service reason)
       | Ready_to_start \<Rightarrow>
           fop_bind (fop_of (emit_dependency_ready env service)) (\<lambda>_.
           fop_bind (fop_of (recovery_slot_mut service (\<lambda>slot. (rr_failed_pid (rs_runtime slot), slot)))) (\<lambda>failed_pid.
           fop_bind (fop_of (emit_restart env service attempt)) (\<lambda>_.
           fop_bind (fop_of (if_slot service (\<lambda>slot.
               slot\<lparr>rs_restart_old_pid := Some (case failed_pid of Some p \<Rightarrow> p | None \<Rightarrow> 0),
                    rs_runtime := clear_pending_after_attempt (record_attempt_started attempt (rs_runtime slot))\<rparr>))) (\<lambda>_.
           fop_bind (fop_of (on_supervisor (issue_restart_sequence env service))) (\<lambda>_.
           fop_bind (drain_events env H service) (\<lambda>_.
           fop_of (on_supervisor (log_service_state env service)))))))))) "

definition drive_slot :: "('c, 'd) sup_env \<Rightarrow> ('c, 'd) handler \<Rightarrow> nat \<Rightarrow> (('c, 'd) converged, converged_error, unit) fop" where
  "drive_slot env H index s =
    (case cv_recovery s ! index of
       None \<Rightarrow> fop_ok () s
     | Some slot \<Rightarrow>
         if \<not> rr_pending (rs_runtime slot) then fop_ok () s
         else if \<not> ticks_reached (cv_now s) (rr_not_before (rs_runtime slot)) then fop_ok () s
         else try_execute_restart env H (rs_service slot) (rs_scheduled_attempt slot) s)"

definition drive_pending_restarts :: "('c, 'd) sup_env \<Rightarrow> ('c, 'd) handler \<Rightarrow> (('c, 'd) converged, converged_error, unit) fop" where
  "drive_pending_restarts env H s = fop_for [0..<length (cv_recovery s)] (drive_slot env H) s"

definition failed_pid_of :: "u64 option \<Rightarrow> service_id \<Rightarrow> ('c, 'd) converged \<Rightarrow> u64 option" where
  "failed_pid_of explicit_pid service s =
    (case explicit_pid of
       Some pid \<Rightarrow> Some pid
     | None \<Rightarrow> Option.bind (registry_query service (cv_registry s)) qe_active_pid)"

definition on_health_failure :: "('c, 'd) sup_env \<Rightarrow> ('c, 'd) handler \<Rightarrow> failure_event \<Rightarrow> u64 option \<Rightarrow> (('c, 'd) converged, converged_error, unit) fop" where
  "on_health_failure env H event explicit_pid s =
    (let service = fe_service event; failed_pid = failed_pid_of explicit_pid service s; now = cv_now s in
     fop_bind (fop_of (case failed_pid of Some pid \<Rightarrow> emit_failure env service pid | None \<Rightarrow> op_ok ())) (\<lambda>_.
     fop_bind (fop_of (recovery_slot_mut service (\<lambda>slot.
         let (decision, runtime) = on_failure failed_pid now (rs_runtime slot)
         in (decision, slot\<lparr>rs_runtime := runtime\<rparr>)))) (\<lambda>decision.
     fop_bind (fop_of (case decision of
         Suppressed reason \<Rightarrow> emit_restart_suppressed env service reason
       | Scheduled attempt _ \<Rightarrow>
           recovery_slot_mut service (\<lambda>slot. ((), slot\<lparr>rs_scheduled_attempt := attempt\<rparr>)))) (\<lambda>_.
     drive_pending_restarts env H))) s)"

definition handle_spawned :: "('c, 'd) sup_env \<Rightarrow> ('c, 'd) handler \<Rightarrow> lifecycle_event \<Rightarrow> (('c, 'd) converged, converged_error, unit) fop" where
  "handle_spawned env H event s =
    (let service = si_service (le_instance event); generation = si_generation (le_instance event);
         pid = si_pid (le_instance event); now = cv_now s; liveness = cv_liveness s in
     fop_bind (fop_of (on_health (health_record_mut service (\<lambda>r. ((), begin_instance generation now liveness r))))) (\<lambda>_.
     fop_bind (\<lambda>s.
       case fst (recovery_slot_mut service (\<lambda>slot. (rs_restart_old_pid slot, slot)) s) of
         Inl _ \<Rightarrow> fop_ok () s
       | Inr old \<Rightarrow>
           fop_bind (fop_of (if_slot service (\<lambda>slot. slot\<lparr>rs_healthy_reports := 0, rs_restart_old_pid := None\<rparr>))) (\<lambda>_.
           case old of
             Some old_pid \<Rightarrow> if old_pid \<noteq> pid then fop_of (emit_restarted env service old_pid pid) else fop_ok ()
           | None \<Rightarrow> fop_ok ()) s) (\<lambda>_.
     drain_events env H service)) s)"

definition handle_failure :: "('c, 'd) sup_env \<Rightarrow> ('c, 'd) handler \<Rightarrow> lifecycle_event \<Rightarrow> (('c, 'd) converged, converged_error, unit) fop" where
  "handle_failure env H event s =
    (let service = si_service (le_instance event); generation = si_generation (le_instance event);
         pid = si_pid (le_instance event); now = cv_now s in
     fop_bind (fop_of (if_slot service (\<lambda>slot. slot\<lparr>rs_healthy_reports := 0\<rparr>))) (\<lambda>_.
     fop_bind (fop_of (on_health (health_record_mut service
         (notify_lifecycle_failure generation (le_kind event) 0 now)))) (\<lambda>outcome.
       case outcome of
         FailureMarkedUnhealthy failure \<Rightarrow>
           fop_bind (fop_of (emit_health_unhealthy env service (fe_reason failure))) (\<lambda>_.
           on_health_failure env H failure (Some pid))
       | _ \<Rightarrow> fop_ok ())) s)"

definition handle_accepted :: "('c, 'd) sup_env \<Rightarrow> ('c, 'd) handler \<Rightarrow> lifecycle_event \<Rightarrow> (('c, 'd) converged, converged_error, unit) fop" where
  "handle_accepted env H event =
    (case le_kind event of
       InstanceSpawned \<Rightarrow> handle_spawned env H event
     | Ready \<Rightarrow>
         if si_generation (le_instance event) \<noteq> 1 \<and> si_generation (le_instance event) \<noteq> 2
         then fop_of (emit_health_healthy env (si_service (le_instance event)) (si_generation (le_instance event)))
         else fop_ok ()
     | EventExited \<Rightarrow> handle_failure env H event
     | EventFaulted \<Rightarrow> handle_failure env H event
     | _ \<Rightarrow> fop_ok ())"

text \<open>A refused transition of a ready event of the current instance still announces it.\<close>

definition handle_refused :: "('c, 'd) sup_env \<Rightarrow> lifecycle_event \<Rightarrow> (('c, 'd) converged, converged_error, unit) op" where
  "handle_refused env event s =
    (let service = si_service (le_instance event); generation = si_generation (le_instance event) in
     if le_kind event = Ready \<and>
        (case registry_query service (cv_registry s) of
           Some q \<Rightarrow> qe_generation q = generation \<and> qe_active_pid q = Some (si_pid (le_instance event))
         | None \<Rightarrow> False)
     then maybe_emit_acceptance_health env service generation s else op_ok () s)"

definition handle_event_body :: "('c, 'd) sup_env \<Rightarrow> ('c, 'd) handler \<Rightarrow> lifecycle_event \<Rightarrow> (('c, 'd) converged, converged_error, unit) fop" where
  "handle_event_body env H event =
     fop_bind (fop_of (if le_kind event = Ready
         then maybe_emit_acceptance_health env (si_service (le_instance event)) (si_generation (le_instance event))
         else op_ok ())) (\<lambda>_ s.
     case on_supervisor (sup_handle_lifecycle_event env event) s of
       (Inr _, s') \<Rightarrow>
         fop_bind (handle_accepted env H event) (\<lambda>_. drive_pending_restarts env H) s'
     | (Inl (ConvSupervisor (SupRegistry (Transition _))), s') \<Rightarrow> fop_of (handle_refused env event) s'
     | (Inl e, s') \<Rightarrow> Some (Inl e, s'))"

fun handle_lifecycle_event :: "nat \<Rightarrow> ('c, 'd) sup_env \<Rightarrow> ('c, 'd) handler" where
  "handle_lifecycle_event 0 env event s = None"
| "handle_lifecycle_event (Suc n) env event s = handle_event_body env (handle_lifecycle_event n env) event s"

section \<open>The operations of the supervisor\<close>

definition cv_start :: "('c, 'd) sup_env \<Rightarrow> (('c, 'd) converged, converged_error, unit) op" where
  "cv_start env = on_supervisor (sup_start env)"

definition set_virtual_ticks :: "ticks \<Rightarrow> ('c, 'd) converged \<Rightarrow> ('c, 'd) converged" where
  "set_virtual_ticks now s = s\<lparr>cv_now := now\<rparr>"

definition add_recovery_slot :: "service_id \<Rightarrow> convergence_config \<Rightarrow> (('c, 'd) converged, converged_error, unit) op" where
  "add_recovery_slot service config s =
    (case position (\<lambda>entry. entry = None) (cv_recovery s) of
       None \<Rightarrow> (Inl ConvUnknownService, s)
     | Some slot \<Rightarrow>
         (Inr (), s\<lparr>cv_recovery := (cv_recovery s)[slot := Some
            \<lparr>rs_service = service, rs_runtime = recovery_new (cc_restart config), rs_scheduled_attempt = 0,
             rs_restart_old_pid = None, rs_last_healthy_gen = 0, rs_healthy_reports = 0\<rparr>]\<rparr>))"

definition register_service :: "('c, 'd) sup_env \<Rightarrow> service_id \<Rightarrow> convergence_config \<Rightarrow> (('c, 'd) converged, converged_error, unit) op" where
  "register_service env service config =
     op_bind (on_supervisor (sup_register_service env service)) (\<lambda>_.
     op_bind (on_health (health_register service)) (\<lambda>_.
     op_bind (on_dependencies (graph_declare service)) (\<lambda>_.
     add_recovery_slot service config)))"

definition cv_set_dependencies :: "dependency_metadata \<Rightarrow> (('c, 'd) converged, converged_error, unit) op" where
  "cv_set_dependencies m = on_dependencies (graph_set_dependencies m)"

definition advance_ticks :: "nat \<Rightarrow> ('c, 'd) sup_env \<Rightarrow> ticks \<Rightarrow> (('c, 'd) converged, converged_error, unit) fop" where
  "advance_ticks fuel env now s =
    (let s = snd (refresh_dependency_health (set_virtual_ticks now s));
         (failures, health) = poll_timeouts now (cv_health s);
         H = handle_lifecycle_event fuel env in
     fop_bind (fop_for (take (length (cv_recovery s)) failures) (\<lambda>event. on_health_failure env H event None)) (\<lambda>_.
     drive_pending_restarts env H) (s\<lparr>cv_health := health\<rparr>))"

definition count_healthy_report :: "recovery_slot \<Rightarrow> recovery_slot" where
  "count_healthy_report slot =
    (let reports = saturating_add (rs_healthy_reports slot) 1; slot = slot\<lparr>rs_healthy_reports := reports\<rparr> in
     if reports \<ge> STABLE_HEALTH_REPORTS_REQUIRED
     then slot\<lparr>rs_runtime := on_healthy_instance (rs_runtime slot), rs_scheduled_attempt := 0\<rparr>
     else slot)"

definition apply_health_report :: "nat \<Rightarrow> ('c, 'd) sup_env \<Rightarrow> health_report \<Rightarrow> (('c, 'd) converged, converged_error, unit) fop" where
  "apply_health_report fuel env report s =
    (let service = hr_service report; now = cv_now s; liveness = cv_liveness s in
     fop_bind (fop_of (on_health (health_record_mut service (apply_report report now liveness)))) (\<lambda>outcome.
       case outcome of
         MarkedUnhealthy _ reason \<Rightarrow>
           fop_bind (fop_of (emit_health_unhealthy env service reason)) (\<lambda>_.
           on_health_failure env (handle_lifecycle_event fuel env)
             \<lparr>fe_service = service, fe_generation = hr_generation report, fe_reason = reason, fe_observed_at = now\<rparr> None)
       | AcceptedHealthy generation \<Rightarrow>
           fop_bind (fop_of (emit_health_healthy env service generation)) (\<lambda>_.
           fop_of (if_slot service count_healthy_report))
       | AcceptedDegraded generation \<Rightarrow>
           fop_bind (fop_of (emit_health_healthy env service generation)) (\<lambda>_.
           fop_of (if_slot service count_healthy_report))
       | _ \<Rightarrow> fop_ok ()) s)"

definition poll_lifecycle_event :: "('c, 'd) sup_env \<Rightarrow> service_id \<Rightarrow> (('c, 'd) converged, converged_error, lifecycle_event option) op" where
  "poll_lifecycle_event env service = on_supervisor (sup_poll_event env service)"

definition request_start :: "nat \<Rightarrow> ('c, 'd) sup_env \<Rightarrow> service_id \<Rightarrow> (('c, 'd) converged, converged_error, unit) fop" where
  "request_start fuel env service =
     fop_bind (fop_of (ensure_start_ready env service)) (\<lambda>_.
     fop_bind (fop_of (on_supervisor (sup_issue_control env (control_request_new service Start)))) (\<lambda>_.
     fop_bind (drain_events env (handle_lifecycle_event fuel env) service) (\<lambda>_.
     fop_of (on_supervisor (log_service_state env service)))))"

end
