(* ===== verification/Sup_Recovery.thy ===== *)
theory Sup_Recovery
  imports Sup_Convergence
begin

text \<open>
  Results about the converged supervisor. A small Hoare logic for its operations carries an invariant
  through the mutual recursion of events, failures and restarts: registry records stay consistent, and a
  ledger of the restart requests handed to the control transport shows that every restart issued uses up
  one of the attempts that the policy of its service allows, along every sequence of supervisor operations.
  Serial markers are shown to fit their buffers, and a blocked start to issue nothing.
\<close>

section \<open>Partial correctness\<close>

definition triple :: "('s \<Rightarrow> bool) \<Rightarrow> ('s, 'e, 'a) fop \<Rightarrow> ('a \<Rightarrow> 's \<Rightarrow> bool) \<Rightarrow> ('s \<Rightarrow> bool) \<Rightarrow> bool" where
  "triple P m Q E \<longleftrightarrow>
     (\<forall>s. P s \<longrightarrow> (case m s of None \<Rightarrow> True | Some (Inl _, s') \<Rightarrow> E s' | Some (Inr a, s') \<Rightarrow> Q a s'))"

abbreviation keeps :: "('s \<Rightarrow> bool) \<Rightarrow> ('s, 'e, 'a) fop \<Rightarrow> bool" where
  "keeps I m \<equiv> triple I m (\<lambda>_. I) I"

definition keeps_op :: "('s \<Rightarrow> bool) \<Rightarrow> ('s, 'e, 'a) op \<Rightarrow> bool" where
  "keeps_op I m \<longleftrightarrow> (\<forall>s. I s \<longrightarrow> I (snd (m s)))"

named_theorems keeps_intros

lemma triple_bind:
  assumes "triple P m Q E" and "\<And>a. triple (Q a) (f a) R E"
  shows "triple P (fop_bind m f) R E"
  unfolding triple_def
proof (intro allI impI)
  fix s assume "P s"
  with assms(1) have m: "case m s of None \<Rightarrow> True | Some (Inl _, s') \<Rightarrow> E s' | Some (Inr a, s') \<Rightarrow> Q a s'"
    by (simp add: triple_def)
  show "case fop_bind m f s of None \<Rightarrow> True | Some (Inl _, s') \<Rightarrow> E s' | Some (Inr a, s') \<Rightarrow> R a s'"
  proof (cases "m s")
    case (Some rs)
    obtain r s' where rs: "rs = (r, s')" by force
    show ?thesis
    proof (cases r)
      case (Inr a)
      with m Some rs have "Q a s'" by simp
      with assms(2) [of a] Some rs Inr show ?thesis by (simp add: triple_def fop_bind_def)
    qed (use m Some rs in \<open>simp add: fop_bind_def\<close>)
  qed (simp add: fop_bind_def)
qed

lemma triple_pre: "triple P m Q E \<Longrightarrow> (\<And>s. P' s \<Longrightarrow> P s) \<Longrightarrow> triple P' m Q E"
  by (simp add: triple_def)

lemma triple_op:
  "(\<And>s. P s \<Longrightarrow> (case m s of (Inl _, s') \<Rightarrow> E s' | (Inr a, s') \<Rightarrow> Q a s')) \<Longrightarrow> triple P (fop_of m) Q E"
  by (simp add: triple_def fop_of_def)

lemma keeps_fop_of [keeps_intros]:
  assumes "keeps_op I m"
  shows "keeps I (fop_of m)"
proof (rule triple_op)
  fix s assume "I s"
  with assms have "I (snd (m s))" by (simp add: keeps_op_def)
  then show "case m s of (Inl _, s') \<Rightarrow> I s' | (Inr _, s') \<Rightarrow> I s'"
    by (auto split: prod.splits sum.splits)
qed

lemma keeps_bind [keeps_intros]: "keeps I m \<Longrightarrow> (\<And>a. keeps I (f a)) \<Longrightarrow> keeps I (fop_bind m f)"
  by (rule triple_bind)

lemma keeps_for: "(\<And>x. keeps I (body x)) \<Longrightarrow> keeps I (fop_for xs body)"
  by (induction xs) (auto intro!: keeps_intros simp: keeps_op_def op_ok_def)

lemma keeps_op_bind [keeps_intros]:
  "keeps_op I m \<Longrightarrow> (\<And>a. keeps_op I (f a)) \<Longrightarrow> keeps_op I (op_bind m f)"
  unfolding keeps_op_def op_bind_def by (simp split: prod.splits sum.splits) (metis snd_conv)

lemma keeps_op_ok [keeps_intros]: "keeps_op I (op_ok a)" "keeps_op I (op_err e)"
  by (simp_all add: keeps_op_def op_ok_def op_err_def)

text \<open>The part of the state that the invariant is about, and the operations that leave it alone.\<close>

definition cv_view :: "('c, 'd) converged \<Rightarrow> recovery_slot option list \<times> lifecycle_tracker \<times> 'c" where
  "cv_view s = (cv_recovery s, cv_registry s, sv_control (cv_supervisor s))"

definition framed :: "(('c, 'd) converged, 'e, 'a) op \<Rightarrow> bool" where
  "framed m \<longleftrightarrow> (\<forall>s. cv_view (snd (m s)) = cv_view s)"

named_theorems framed_intros

lemma framed_bind [framed_intros]: "framed m \<Longrightarrow> (\<And>a. framed (f a)) \<Longrightarrow> framed (op_bind m f)"
  unfolding framed_def op_bind_def by (simp split: prod.splits sum.splits) (metis snd_conv)

lemma framed_ok [framed_intros]: "framed (op_ok a)" "framed (op_err e)" "framed (op_of f)"
  by (simp_all add: framed_def op_ok_def op_err_def op_of_def)

lemma framed_on_supervisor:
  "(\<And>s. sv_registry (snd (m s)) = sv_registry s) \<Longrightarrow> (\<And>s. sv_control (snd (m s)) = sv_control s) \<Longrightarrow>
   framed (on_supervisor m)"
  by (simp add: framed_def cv_view_def on_supervisor_def op_map_err_def op_on_def split_beta)

lemma framed_on_health [framed_intros]: "framed (on_health m)" "framed (on_dependencies g)"
  by (auto simp: framed_def cv_view_def on_health_def on_dependencies_def op_map_err_def op_on_def split: prod.splits)

lemma sv_registry_diagnostics [simp]: "sv_registry (snd (on_diagnostics m s)) = sv_registry s"
  by (simp add: on_diagnostics_def op_on_def split: prod.splits)

lemma sv_registry_control [simp]: "sv_registry (snd (on_control m s)) = sv_registry s"
  by (simp add: on_control_def op_on_def split: prod.splits)

lemma sv_registry_emit_pieces [simp]: "sv_registry (snd (emit_pieces env ps s)) = sv_registry s"
  by (simp add: emit_pieces_def op_err_def split: option.splits)

lemma sv_registry_log [simp]: "sv_registry (snd (log_service_state env k s)) = sv_registry s"
  by (simp add: log_service_state_def split: option.splits)

lemma sv_control_diagnostics [simp]: "sv_control (snd (on_diagnostics m s)) = sv_control s"
  by (simp add: on_diagnostics_def op_on_def split: prod.splits)

lemma sv_control_emit_pieces [simp]: "sv_control (snd (emit_pieces env ps s)) = sv_control s"
  by (simp add: emit_pieces_def op_err_def split: option.splits)

lemma sv_control_log [simp]: "sv_control (snd (log_service_state env k s)) = sv_control s"
  by (simp add: log_service_state_def split: option.splits)

lemma snd_op_map_err [simp]: "snd (op_map_err g m s) = snd (m s)"
  by (simp add: op_map_err_def split: prod.splits)

lemma framed_emit_line [framed_intros]: "framed (emit_line env ps)"
  by (auto simp: emit_line_def emit_diagnostic_def intro!: framed_intros framed_on_supervisor split: option.splits)

lemmas emit_defs = emit_failure_def emit_restart_def emit_restarted_def emit_restart_suppressed_def
  emit_health_healthy_def emit_health_unhealthy_def emit_dependency_ready_def emit_dependency_blocked_def

lemma framed_emits [framed_intros]:
  "framed (emit_failure env k p)" "framed (emit_restart env k a)" "framed (emit_restarted env k p q)"
  "framed (emit_restart_suppressed env k x)" "framed (emit_health_healthy env k g)"
  "framed (emit_health_unhealthy env k y)" "framed (emit_dependency_ready env k)" "framed (emit_dependency_blocked env k z)"
  by (simp_all add: emit_defs framed_emit_line)

lemma framed_log [framed_intros]: "framed (on_supervisor (log_service_state env k))"
  by (rule framed_on_supervisor) simp_all

lemma framed_refresh [framed_intros]: "framed refresh_dependency_health"
  by (simp add: framed_def cv_view_def refresh_dependency_health_def)

lemma framed_readiness [framed_intros]: "framed (start_readiness_of k)"
  by (simp add: start_readiness_of_def framed_intros)

lemma list_update_nth_id: "xs ! i = y \<Longrightarrow> xs[i := y] = xs"
  by auto

lemma framed_read_slot [framed_intros]: "framed (recovery_slot_mut k (\<lambda>slot. (f slot, slot)))"
  by (auto simp: framed_def cv_view_def recovery_slot_mut_def list_update_nth_id split: option.splits)

lemma framed_keeps:
  assumes "framed m" and "\<And>s t. cv_view s = cv_view t \<Longrightarrow> P s = P t" and "\<And>s. P s \<Longrightarrow> E s"
  shows "triple P (fop_of m) (\<lambda>_. P) E"
proof (rule triple_op)
  fix s assume "P s"
  moreover from assms(1) have "cv_view (snd (m s)) = cv_view s" by (simp add: framed_def)
  ultimately have "P (snd (m s))" using assms(2) by metis
  with assms(3) show "case m s of (Inl _, s') \<Rightarrow> E s' | (Inr a, s') \<Rightarrow> P s'"
    by (auto split: prod.splits sum.splits)
qed

section \<open>The invariant\<close>

definition slot_ok :: "recovery_slot \<Rightarrow> bool" where
  "slot_ok slot \<longleftrightarrow>
    (case rr_policy (rs_runtime slot) of
       Never \<Rightarrow> rr_attempts (rs_runtime slot) = 0 \<and> \<not> rr_pending (rs_runtime slot)
     | OnFailure limits \<Rightarrow>
         rr_attempts (rs_runtime slot) \<le> max_attempts limits \<and>
         (rr_pending (rs_runtime slot) \<longrightarrow>
            rr_attempts (rs_runtime slot) < max_attempts limits \<and>
            rs_scheduled_attempt slot = rr_attempts (rs_runtime slot) + 1))"

text \<open>Attempt \<open>a\<close> may be recorded for the slot.\<close>

definition attempt_ok :: "u32 \<Rightarrow> recovery_slot \<Rightarrow> bool" where
  "attempt_ok a slot \<longleftrightarrow>
    (case rr_policy (rs_runtime slot) of
       Never \<Rightarrow> False
     | OnFailure limits \<Rightarrow> rr_attempts (rs_runtime slot) < max_attempts limits \<and> a = rr_attempts (rs_runtime slot) + 1)"

definition conv_inv :: "nat \<Rightarrow> ('c, 'd) converged \<Rightarrow> bool" where
  "conv_inv cap s \<longleftrightarrow>
     length (cv_recovery s) = cap \<and> keys_unique lr_service (cv_registry s) \<and>
     (\<forall>k r. registry_map (cv_registry s) k = Some r \<longrightarrow> record_inv r) \<and>
     keys_unique rs_service (cv_recovery s) \<and>
     (\<forall>slot. Some slot \<in> set (cv_recovery s) \<longrightarrow>
        slot_ok slot \<and> registry_map (cv_registry s) (rs_service slot) \<noteq> None)"

interpretation recovery: slot_search rs_service recovery_find
  by (rule slot_searchI) (simp add: recovery_find_def)


text \<open>
  The ledger of restarts: \<open>issued\<close> reads a count off the control transport, and for a watched service
  the count exceeds the attempts on record by at most the budget.
\<close>

definition spent :: "('c \<Rightarrow> nat) \<Rightarrow> service_id option \<Rightarrow> int \<Rightarrow> ('c, 'd) converged \<Rightarrow> bool" where
  "spent issued watched budget s \<longleftrightarrow>
    (case watched of
       None \<Rightarrow> True
     | Some k \<Rightarrow> \<exists>slot. Some slot \<in> set (cv_recovery s) \<and> rs_service slot = k \<and>
         int (issued (sv_control (cv_supervisor s))) \<le> budget + int (unat (rr_attempts (rs_runtime slot))))"

definition ledger_inv :: "('c \<Rightarrow> nat) \<Rightarrow> service_id option \<Rightarrow> int \<Rightarrow> nat \<Rightarrow> ('c, 'd) converged \<Rightarrow> bool" where
  "ledger_inv issued watched budget cap s \<longleftrightarrow> conv_inv cap s \<and> spent issued watched budget s"

lemma conv_inv_view: "cv_view s = cv_view t \<Longrightarrow> conv_inv cap s = conv_inv cap t"
  by (simp add: cv_view_def conv_inv_def)

lemma recovery_slot_mut_eq:
  "recovery_slot_mut k f s =
    (case recovery.lookup k (cv_recovery s) of
       None \<Rightarrow> (Inl ConvUnknownService, s)
     | Some slot \<Rightarrow> (Inr (fst (f slot)),
         s\<lparr>cv_recovery := (cv_recovery s)[the (recovery_find k (cv_recovery s)) := Some (snd (f slot))]\<rparr>))"
  by (auto simp: recovery_slot_mut_def recovery.lookup_def Let_def split: option.splits prod.splits)

lemma recovery_lookup_mem:
  assumes "recovery.lookup k xs = Some slot"
  shows "Some slot \<in> set xs" and "rs_service slot = k"
    and "\<exists>i. recovery_find k xs = Some i \<and> i < length xs \<and> xs ! i = Some slot"
proof -
  from assms obtain i where i: "recovery_find k xs = Some i" "xs ! i = Some slot"
    by (auto simp: recovery.lookup_def split: option.splits)
  moreover from i(1) have "i < length xs" using recovery.locate_hit by blast
  ultimately show "Some slot \<in> set xs" "\<exists>i. recovery_find k xs = Some i \<and> i < length xs \<and> xs ! i = Some slot"
    by (metis nth_mem, blast)
  show "rs_service slot = k" by (rule recovery.lookup_key [OF assms])
qed

lemma set_update_subset: "x \<in> set (xs[i := y]) \<Longrightarrow> x = y \<or> x \<in> set xs"
  using set_update_subset_insert by fastforce

lemma conv_inv_slot_update:
  assumes inv: "conv_inv cap s" and l: "recovery.lookup k (cv_recovery s) = Some slot"
    and q: "rs_service q = rs_service slot" "slot_ok q"
  shows "conv_inv cap (s\<lparr>cv_recovery := (cv_recovery s)[the (recovery_find k (cv_recovery s)) := Some q]\<rparr>)"
proof -
  from recovery_lookup_mem [OF l] obtain i where mem: "Some slot \<in> set (cv_recovery s)" and k: "rs_service slot = k"
    and i: "recovery_find k (cv_recovery s) = Some i" by blast
  have u: "keys_unique rs_service ((cv_recovery s)[i := Some q])"
    using recovery.update_lookup(1) [OF _ i, of q] inv q(1) k by (simp add: conv_inv_def)
  have "slot_ok p \<and> registry_map (cv_registry s) (rs_service p) \<noteq> None"
    if "Some p \<in> set ((cv_recovery s)[i := Some q])" for p
    using set_update_subset [OF that] inv q mem unfolding conv_inv_def by auto
  with u inv i show ?thesis by (simp add: conv_inv_def)
qed

lemma spent_slot_update:
  assumes sp: "spent issued watched budget s" and u: "keys_unique rs_service (cv_recovery s)"
    and l: "recovery.lookup k (cv_recovery s) = Some slot" and q: "rs_service q = rs_service slot"
    and a: "watched = Some k \<Longrightarrow> rr_attempts (rs_runtime slot) \<le> rr_attempts (rs_runtime q)"
  shows "spent issued watched budget
    (s\<lparr>cv_recovery := (cv_recovery s)[the (recovery_find k (cv_recovery s)) := Some q]\<rparr>)"
proof (cases watched)
  case (Some w)
  with sp obtain p where p: "Some p \<in> set (cv_recovery s)" "rs_service p = w"
    "int (issued (sv_control (cv_supervisor s))) \<le> budget + int (unat (rr_attempts (rs_runtime p)))"
    by (auto simp: spent_def)
  from recovery_lookup_mem [OF l] obtain i where k: "rs_service slot = k"
    and i: "recovery_find k (cv_recovery s) = Some i" "i < length (cv_recovery s)" "cv_recovery s ! i = Some slot" by blast
  from p(1) obtain j where j: "j < length (cv_recovery s)" "cv_recovery s ! j = Some p" by (auto simp: in_set_conv_nth)
  show ?thesis
  proof (cases "w = k")
    case True
    then have "j = i" using u i j k p(2) unfolding keys_unique_def by (metis option.sel)
    with i j have "p = slot" by simp
    moreover have "Some q \<in> set ((cv_recovery s)[i := Some q])" using i(2) by (rule set_update_memI)
    ultimately show ?thesis
      using p(2,3) q i(1) a True Some by (auto simp: spent_def word_le_def intro!: exI [of _ q])
  next
    case False
    then have "j \<noteq> i" using i j k p(2) by auto
    then have "Some p \<in> set ((cv_recovery s)[i := Some q])"
      using j by (metis length_list_update nth_list_update_neq nth_mem)
    then show ?thesis using p i(1) Some by (auto simp: spent_def)
  qed
qed (simp add: spent_def)

lemma spent_le:
  assumes "spent issued watched budget s" and "cv_recovery t = cv_recovery s"
    and "issued' (sv_control (cv_supervisor t)) \<le> issued (sv_control (cv_supervisor s))"
  shows "spent issued' watched budget t"
  using assms by (cases watched) (auto simp: spent_def intro: order_trans)

text \<open>Registry transitions keep the records consistent and forget no service.\<close>

lemma conv_inv_registry:
  assumes "conv_inv cap s" and "keys_unique lr_service t"
    and "\<And>k r. registry_map t k = Some r \<Longrightarrow> record_inv r"
    and "\<And>k. registry_map (cv_registry s) k \<noteq> None \<Longrightarrow> registry_map t k \<noteq> None"
    and "cv_recovery s' = cv_recovery s" and "cv_registry s' = t"
  shows "conv_inv cap s'"
  using assms unfolding conv_inv_def by auto

lemma registry_control_inv:
  assumes "conv_inv cap s" and "cv_recovery s' = cv_recovery s"
    and "cv_registry s' = snd (registry_apply_control q (cv_registry s))"
  shows "conv_inv cap s'"
proof (rule conv_inv_registry [OF assms(1) _ _ _ assms(2,3)])
  from assms(1) have u: "keys_unique lr_service (cv_registry s)"
    and r: "\<And>k r. registry_map (cv_registry s) k = Some r \<Longrightarrow> record_inv r" by (auto simp: conv_inv_def)
  note m = registry_map_steps(3) [OF u, of q]
  show "keys_unique lr_service (snd (registry_apply_control q (cv_registry s)))" using m by simp
  show "record_inv x" if "registry_map (snd (registry_apply_control q (cv_registry s))) k = Some x" for k x
    using that m r record_inv_control by (auto split: option.splits if_splits)
  show "registry_map (snd (registry_apply_control q (cv_registry s))) k \<noteq> None"
    if "registry_map (cv_registry s) k \<noteq> None" for k
    using that m by (auto split: option.splits)
qed

lemma registry_event_inv:
  assumes "conv_inv cap s" and "cv_recovery s' = cv_recovery s"
    and "cv_registry s' = snd (registry_apply_event e (cv_registry s))"
  shows "conv_inv cap s'"
proof (rule conv_inv_registry [OF assms(1) _ _ _ assms(2,3)])
  from assms(1) have u: "keys_unique lr_service (cv_registry s)"
    and r: "\<And>k r. registry_map (cv_registry s) k = Some r \<Longrightarrow> record_inv r" by (auto simp: conv_inv_def)
  note m = registry_map_steps(4) [OF u, of e]
  show "keys_unique lr_service (snd (registry_apply_event e (cv_registry s)))" using m by simp
  show "record_inv x" if "registry_map (snd (registry_apply_event e (cv_registry s))) k = Some x" for k x
    using that m r record_inv_event by (auto split: option.splits if_splits)
  show "registry_map (snd (registry_apply_event e (cv_registry s))) k \<noteq> None"
    if "registry_map (cv_registry s) k \<noteq> None" for k
    using that m by (auto split: option.splits)
qed

definition sup_keeps :: "nat \<Rightarrow> (('c, 'd) supervisor, 'e, 'a) op \<Rightarrow> bool" where
  "sup_keeps cap m \<longleftrightarrow> (\<forall>s. conv_inv cap s \<longrightarrow> conv_inv cap (s\<lparr>cv_supervisor := snd (m (cv_supervisor s))\<rparr>))"

lemma on_supervisor_snd: "snd (on_supervisor m s) = s\<lparr>cv_supervisor := snd (m (cv_supervisor s))\<rparr>"
  by (simp add: on_supervisor_def op_map_err_def op_on_def split: prod.splits)

lemma sup_keeps_bind:
  assumes "sup_keeps cap m" and "\<And>a. sup_keeps cap (f a)"
  shows "sup_keeps cap (op_bind m f)"
  unfolding sup_keeps_def
proof (intro allI impI)
  fix s :: "('a, 'b) converged"
  assume inv: "conv_inv cap s"
  obtain r sv where m: "m (cv_supervisor s) = (r, sv)" by force
  let ?s = "s\<lparr>cv_supervisor := sv\<rparr>"
  from assms(1) inv m have i: "conv_inv cap ?s" unfolding sup_keeps_def by (metis snd_conv)
  show "conv_inv cap (s\<lparr>cv_supervisor := snd (op_bind m f (cv_supervisor s))\<rparr>)"
  proof (cases r)
    case (Inr a)
    from assms(2) [of a] i have "conv_inv cap (?s\<lparr>cv_supervisor := snd (f a (cv_supervisor ?s))\<rparr>)"
      unfolding sup_keeps_def by blast
    with m Inr show ?thesis by (simp add: op_bind_def)
  qed (use m i in \<open>simp add: op_bind_def\<close>)
qed

lemma sup_keeps_registry_free: "(\<And>sv. sv_registry (snd (m sv)) = sv_registry sv) \<Longrightarrow> sup_keeps cap m"
  unfolding sup_keeps_def conv_inv_def by simp

lemma sup_keeps_map_err: "sup_keeps cap m \<Longrightarrow> sup_keeps cap (op_map_err g m)"
  by (simp add: sup_keeps_def)

lemma sup_keeps_control: "sup_keeps cap (on_registry (registry_apply_control q))"
  unfolding sup_keeps_def
  by (auto simp: on_registry_def op_on_def split_beta intro: registry_control_inv)

lemma sup_keeps_event: "sup_keeps cap (on_registry (registry_apply_event e))"
  unfolding sup_keeps_def
  by (auto simp: on_registry_def op_on_def split_beta intro: registry_event_inv)

lemma sup_keeps_issue: "sup_keeps cap (sup_issue_control env q)"
  unfolding sup_issue_control_def
  by (intro sup_keeps_bind sup_keeps_map_err sup_keeps_control sup_keeps_registry_free) simp

text \<open>
  What the ledger needs of a control transport: only a restart request for the watched service adds to
  the count, by one, and polling for events adds nothing.
\<close>

locale restart_ledger =
  fixes env :: "('c, 'd) sup_env" and issued :: "'c \<Rightarrow> nat" and watched :: "service_id option" and budget :: int
  assumes issue_other: "watched \<noteq> Some (cr_service q) \<or> cr_kind q \<noteq> Restart \<Longrightarrow> issued (snd (issue env q c)) \<le> issued c"
    and issue_any: "issued (snd (issue env q c)) \<le> Suc (issued c)"
    and poll_any: "issued (snd (poll env k c)) \<le> issued c"
begin

abbreviation inv :: "nat \<Rightarrow> ('c, 'd) converged \<Rightarrow> bool" where
  "inv cap \<equiv> ledger_inv issued watched budget cap"

lemma inv_view:
  assumes "cv_view s = cv_view t"
  shows "inv cap s = inv cap t"
  using assms conv_inv_view [OF assms, of cap]
  by (auto simp: ledger_inv_def cv_view_def intro: spent_le)

lemma framed_inv [keeps_intros]: "framed m \<Longrightarrow> keeps_op (inv cap) m"
  unfolding framed_def keeps_op_def using inv_view by metis

lemma keeps_framed: "framed m \<Longrightarrow> keeps (inv cap) (fop_of m)"
  by (intro keeps_fop_of framed_inv)

lemma inv_slot_update:
  assumes "inv cap s" and "recovery.lookup k (cv_recovery s) = Some slot"
    and "rs_service q = rs_service slot" "slot_ok q"
    and "watched = Some k \<Longrightarrow> rr_attempts (rs_runtime slot) \<le> rr_attempts (rs_runtime q)"
  shows "inv cap (s\<lparr>cv_recovery := (cv_recovery s)[the (recovery_find k (cv_recovery s)) := Some q]\<rparr>)"
proof -
  have "keys_unique rs_service (cv_recovery s)" using assms(1) by (simp add: ledger_inv_def conv_inv_def)
  with assms show ?thesis
    using conv_inv_slot_update [of cap s k slot q] spent_slot_update [of issued watched budget s k slot q]
    by (simp add: ledger_inv_def)
qed

lemma slot_mut_inv:
  assumes inv: "inv cap s"
    and "\<And>slot. slot_ok slot \<Longrightarrow> slot_ok (snd (f slot))" and "\<And>slot. rs_service (snd (f slot)) = rs_service slot"
    and "\<And>slot. watched = Some k \<Longrightarrow> rr_attempts (rs_runtime (snd (f slot))) = rr_attempts (rs_runtime slot)"
  shows "inv cap (snd (recovery_slot_mut k f s))"
proof (cases "recovery.lookup k (cv_recovery s)")
  case (Some slot)
  then have "slot_ok slot" using inv recovery_lookup_mem(1) by (auto simp: ledger_inv_def conv_inv_def)
  with Some show ?thesis using inv_slot_update [OF inv Some] assms by (simp add: recovery_slot_mut_eq)
qed (simp add: recovery_slot_mut_eq inv)

lemma keeps_slot_mut:
  "(\<And>slot. slot_ok slot \<Longrightarrow> slot_ok (snd (f slot))) \<Longrightarrow> (\<And>slot. rs_service (snd (f slot)) = rs_service slot) \<Longrightarrow>
   (\<And>slot. watched = Some k \<Longrightarrow> rr_attempts (rs_runtime (snd (f slot))) = rr_attempts (rs_runtime slot)) \<Longrightarrow>
   keeps_op (inv cap) (recovery_slot_mut k f)"
  by (simp add: keeps_op_def slot_mut_inv)

lemma keeps_if_slot [keeps_intros]:
  assumes "\<And>slot. slot_ok slot \<Longrightarrow> slot_ok (f slot)" and "\<And>slot. rs_service (f slot) = rs_service slot"
    and "\<And>slot. watched = Some k \<Longrightarrow> rr_attempts (rs_runtime (f slot)) = rr_attempts (rs_runtime slot)"
  shows "keeps_op (inv cap) (if_slot k f)"
  using keeps_slot_mut [of "\<lambda>slot. ((), f slot)" k cap] assms by (simp add: keeps_op_def if_slot_def)

text \<open>Operations of the inner supervisor that issue no restart of the watched service.\<close>

lemma inv_supervisor:
  assumes "inv cap s" and "sup_keeps cap m"
    and "issued (sv_control (snd (m (cv_supervisor s)))) \<le> issued (sv_control (cv_supervisor s))"
  shows "inv cap (snd (on_supervisor m s))"
  using assms spent_le [of issued watched budget s "snd (on_supervisor m s)" issued]
  by (auto simp: ledger_inv_def sup_keeps_def on_supervisor_snd)

lemma issued_issue:
  "issued (sv_control (snd (sup_issue_control env q sv))) \<le> issued (snd (issue env q (sv_control sv)))"
  by (auto simp: sup_issue_control_def op_bind_def op_map_err_def on_control_def on_registry_def op_on_def
      split: prod.splits sum.splits)

lemma issued_sequence:
  "issued (sv_control (snd (issue_restart_sequence env k sv)))
     \<le> (if watched = Some k then Suc (issued (sv_control sv)) else issued (sv_control sv))"
proof -
  let ?r = "control_request_new k Restart" and ?s = "control_request_new k Start"
  obtain x sv' where first: "sup_issue_control env ?r sv = (x, sv')" by (cases "sup_issue_control env ?r sv")
  have "issued (sv_control sv') \<le> issued (snd (issue env ?r (sv_control sv)))"
    using issued_issue [of ?r sv] by (simp add: first)
  also have "\<dots> \<le> (if watched = Some k then Suc (issued (sv_control sv)) else issued (sv_control sv))"
    using issue_any issue_other [of ?r] by (simp add: control_request_new_def)
  finally have le: "issued (sv_control sv') \<le> \<dots>" .
  have "issued (sv_control (snd (sup_issue_control env ?s sv'))) \<le> issued (sv_control sv')"
    using issued_issue [of ?s sv'] issue_other [of ?s] by (auto simp: control_request_new_def intro: order_trans)
  with le have "issued (sv_control (snd (case x of Inl e \<Rightarrow> (Inl e, sv') | Inr _ \<Rightarrow> sup_issue_control env ?s sv')))
      \<le> (if watched = Some k then Suc (issued (sv_control sv)) else issued (sv_control sv))"
    by (cases x) (auto intro: order_trans)
  then show ?thesis by (simp add: issue_restart_sequence_def op_bind_def first split: sum.splits)
qed

lemma keeps_issue:
  assumes "cr_kind q \<noteq> Restart"
  shows "keeps_op (inv cap) (on_supervisor (sup_issue_control env q))"
  unfolding keeps_op_def
  using assms issued_issue issue_other order_trans
  by (blast intro!: inv_supervisor sup_keeps_issue)

lemma keeps_poll: "keeps_op (inv cap) (on_supervisor (sup_poll_event env k))"
  unfolding keeps_op_def
proof (intro allI impI inv_supervisor)
  show "sup_keeps cap (sup_poll_event env k)"
    by (rule sup_keeps_registry_free) (simp add: sup_poll_event_def)
  show "issued (sv_control (snd (sup_poll_event env k sv))) \<le> issued (sv_control sv)" for sv
    using poll_any by (simp add: sup_poll_event_def on_control_def op_on_def split: prod.splits) (metis snd_conv)
qed

lemma keeps_handle_event [keeps_intros]: "keeps_op (inv cap) (on_supervisor (sup_handle_lifecycle_event env e))"
  unfolding keeps_op_def
proof (intro allI impI inv_supervisor)
  show "sup_keeps cap (sup_handle_lifecycle_event env e)"
    unfolding sup_handle_lifecycle_event_def
    by (intro sup_keeps_bind sup_keeps_map_err sup_keeps_event sup_keeps_registry_free) simp
  show "issued (sv_control (snd (sup_handle_lifecycle_event env e sv))) \<le> issued (sv_control sv)" for sv
    by (auto simp: sup_handle_lifecycle_event_def op_bind_def op_map_err_def on_registry_def op_on_def
        split: prod.splits sum.splits)
qed

end

section \<open>The operations keep the invariant\<close>

text \<open>Attempt \<open>a\<close> is the next one of service \<open>k\<close>; a failure of \<open>k\<close> has been decided but not yet scheduled.\<close>

definition attempt_pre :: "(('c, 'd) converged \<Rightarrow> bool) \<Rightarrow> service_id \<Rightarrow> u32 \<Rightarrow> ('c, 'd) converged \<Rightarrow> bool" where
  "attempt_pre I k a s \<longleftrightarrow> I s \<and> (\<forall>slot. recovery.lookup k (cv_recovery s) = Some slot \<longrightarrow> attempt_ok a slot)"

definition failure_mid :: "(('c, 'd) converged \<Rightarrow> bool) \<Rightarrow> service_id \<Rightarrow> restart_decision \<Rightarrow> ('c, 'd) converged \<Rightarrow> bool" where
  "failure_mid I k d s \<longleftrightarrow>
    (case d of
       Suppressed _ \<Rightarrow> I s
     | Scheduled a _ \<Rightarrow> I (snd (recovery_slot_mut k (\<lambda>slot. ((), slot\<lparr>rs_scheduled_attempt := a\<rparr>)) s)))"

definition registered :: "(('c, 'd) converged \<Rightarrow> bool) \<Rightarrow> service_id \<Rightarrow> ('c, 'd) converged \<Rightarrow> bool" where
  "registered I k s \<longleftrightarrow> I s \<and> registry_map (cv_registry s) k \<noteq> None \<and>
     (\<forall>slot. Some slot \<in> set (cv_recovery s) \<longrightarrow> rs_service slot \<noteq> k)"

lemma attempt_ok_recorded:
  assumes "attempt_ok a slot"
  shows "slot_ok (slot\<lparr>rs_restart_old_pid := p,
    rs_runtime := clear_pending_after_attempt (record_attempt_started a (rs_runtime slot))\<rparr>)"
proof -
  from assms obtain limits where p: "rr_policy (rs_runtime slot) = OnFailure limits"
    and a: "rr_attempts (rs_runtime slot) < max_attempts limits" "a = rr_attempts (rs_runtime slot) + 1"
    by (auto simp: attempt_ok_def split: restart_policy.splits)
  with on_failure_bounded(2) [OF p] show ?thesis
    by (simp add: slot_ok_def clear_pending_after_attempt_def record_attempt_started_def)
qed

lemma keeps_for_set: "(\<And>x. x \<in> set xs \<Longrightarrow> keeps I (body x)) \<Longrightarrow> keeps I (fop_for xs body)"
  by (induction xs) (auto intro!: keeps_bind keeps_fop_of simp: keeps_op_def op_ok_def)

text \<open>A failure rewrites the restart state of the slot and then the scheduled attempt.\<close>

lemma slot_mut_fusion:
  assumes u: "keys_unique rs_service (cv_recovery s)"
    and f: "\<And>slot. rs_service (snd (f slot)) = rs_service slot"
  shows "snd (recovery_slot_mut k g (snd (recovery_slot_mut k f s))) =
    snd (recovery_slot_mut k (\<lambda>slot. ((), snd (g (snd (f slot))))) s)"
proof (cases "recovery.lookup k (cv_recovery s)")
  case (Some slot)
  then obtain i where i: "recovery_find k (cv_recovery s) = Some i" and len: "i < length (cv_recovery s)"
    using recovery_lookup_mem(3) by blast
  have k: "rs_service (snd (f slot)) = k" using recovery.lookup_key [OF Some] f by simp
  let ?ys = "(cv_recovery s)[i := Some (snd (f slot))]"
  have l: "recovery.lookup k ?ys = Some (snd (f slot))"
    using recovery.update_lookup(2) [OF u i k, of k] by simp
  have "recovery_find k ?ys = Some i"
  proof -
    from recovery_lookup_mem(3) [OF l] obtain j where j: "recovery_find k ?ys = Some j" by blast
    moreover have "i = j"
      by (rule recovery.locate_unique [OF recovery.update_lookup(1) [OF u i k] j]) (use len k in simp_all)
    ultimately show ?thesis by simp
  qed
  with Some i l show ?thesis by (simp add: recovery_slot_mut_eq)
qed (simp add: recovery_slot_mut_eq)

definition failure_update :: "u64 option \<Rightarrow> ticks \<Rightarrow> recovery_slot \<Rightarrow> restart_decision \<times> recovery_slot" where
  "failure_update pid now slot =
    (let (decision, runtime) = on_failure pid now (rs_runtime slot) in (decision, slot\<lparr>rs_runtime := runtime\<rparr>))"

lemma failure_update_service: "rs_service (snd (failure_update pid now slot)) = rs_service slot"
  by (simp add: failure_update_def split: prod.splits)

lemma failure_update_ok:
  assumes "slot_ok slot" and "fst (failure_update pid now slot) = d"
  shows "case d of Suppressed _ \<Rightarrow> slot_ok (snd (failure_update pid now slot))
    | Scheduled a _ \<Rightarrow> slot_ok ((snd (failure_update pid now slot))\<lparr>rs_scheduled_attempt := a\<rparr>)"
proof (cases "rr_policy (rs_runtime slot)")
  case Never
  with assms show ?thesis by (auto simp: failure_update_def on_failure_def slot_ok_def Let_def)
next
  case (OnFailure limits)
  note b = on_failure_bounded(1) [OF this, of pid now]
  show ?thesis
  proof (cases "rr_attempts (rs_runtime slot) < max_attempts limits")
    case True
    with assms OnFailure b show ?thesis by (auto simp: failure_update_def slot_ok_def Let_def)
  next
    case False
    with assms OnFailure b show ?thesis by (auto simp: failure_update_def slot_ok_def)
  qed
qed

lemma failure_update_attempts:
  "rr_attempts (rs_runtime (snd (failure_update pid now slot))) = rr_attempts (rs_runtime slot)"
  by (auto simp: failure_update_def on_failure_def Let_def split: prod.splits restart_policy.splits if_splits)

lemma slot_ok_healthy: "slot_ok slot \<Longrightarrow> slot_ok (count_healthy_report slot)"
  by (auto simp: slot_ok_def count_healthy_report_def on_healthy_instance_def Let_def split: restart_policy.splits)

lemma framed_ensure [framed_intros]: "framed (ensure_start_ready env k)"
proof -
  have "framed (\<lambda>s :: ('a, 'b) converged. if has_dependencies k (cv_dependencies s) then emit_dependency_ready env k s else op_ok () s)"
    using framed_emits(7) [of env k] by (auto simp: framed_def op_ok_def)
  then show ?thesis
    unfolding ensure_start_ready_def
    by (intro framed_intros) (auto intro!: framed_intros split: start_readiness.splits)
qed

lemma fop_of_bind: "fop_of (op_bind m f) = fop_bind (fop_of m) (\<lambda>a. fop_of (f a))"
  by (rule ext) (auto simp: fop_of_def op_bind_def fop_bind_def split: prod.splits sum.splits)

lemma sup_register_registry:
  "sv_registry (snd (sup_register_service env k sv)) = snd (registry_declare k (sv_registry sv))"
  "fst (sup_register_service env k sv) = Inr u \<Longrightarrow> is_ok (fst (registry_declare k (sv_registry sv)))"
proof -
  obtain r t where d: "registry_declare k (sv_registry sv) = (r, t)" by force
  let ?rest = "op_bind (emit_pieces env (format_registered_line k)) (\<lambda>_. log_service_state env k)"
  have rest: "sv_registry (snd (?rest sv')) = sv_registry sv'" for sv' :: "('a, 'b) supervisor"
    using sv_registry_emit_pieces [of env "format_registered_line k" sv']
    by (auto simp: op_bind_def simp del: sv_registry_emit_pieces split: prod.splits sum.splits)
  show "sv_registry (snd (sup_register_service env k sv)) = snd (registry_declare k (sv_registry sv))"
    using rest d unfolding sup_register_service_def
    by (cases r) (simp_all add: op_bind_def [of _ "\<lambda>_. ?rest"] op_map_err_def on_registry_def op_on_def)
  show "is_ok (fst (registry_declare k (sv_registry sv)))" if "fst (sup_register_service env k sv) = Inr u"
    using that d unfolding sup_register_service_def
    by (cases r) (simp_all add: op_bind_def [of _ "\<lambda>_. ?rest"] op_map_err_def on_registry_def op_on_def)
qed

lemma sup_register_control: "sv_control (snd (sup_register_service env k sv)) = sv_control sv"
proof -
  obtain r t where d: "registry_declare k (sv_registry sv) = (r, t)" by force
  let ?rest = "op_bind (emit_pieces env (format_registered_line k)) (\<lambda>_. log_service_state env k)"
  have rest: "sv_control (snd (?rest sv')) = sv_control sv'" for sv' :: "('a, 'b) supervisor"
    using sv_control_emit_pieces [of env "format_registered_line k" sv']
    by (auto simp: op_bind_def simp del: sv_control_emit_pieces split: prod.splits sum.splits)
  show ?thesis
    using rest d unfolding sup_register_service_def
    by (cases r) (simp_all add: op_bind_def [of _ "\<lambda>_. ?rest"] op_map_err_def on_registry_def op_on_def)
qed

lemma keepsD: "keeps I m \<Longrightarrow> I s \<Longrightarrow> m s = Some (r, t) \<Longrightarrow> I t"
  unfolding triple_def by (cases r) (metis (no_types, lifting) case_prod_conv option.case(2) sum.case)+

lemma keeps_opD: "keeps_op I m \<Longrightarrow> I s \<Longrightarrow> I (snd (m s))"
  by (simp add: keeps_op_def)

lemma attempt_ok_unat: "attempt_ok a slot \<Longrightarrow> unat a = Suc (unat (rr_attempts (rs_runtime slot)))"
  by (auto simp: attempt_ok_def on_failure_bounded(2) split: restart_policy.splits)

lemma recovery_lookup_None:
  assumes "recovery.lookup k xs = None" and "Some slot \<in> set xs"
  shows "rs_service slot \<noteq> k"
proof
  assume k: "rs_service slot = k"
  from assms(2) obtain i where "i < length xs" "xs ! i = Some slot" by (auto simp: in_set_conv_nth)
  with recovery.locate_miss [of k xs i] assms(1) k show False by (simp add: recovery.lookup_None_iff)
qed

context restart_ledger
begin

lemma keeps_drain_loop:
  assumes "\<And>e. keeps (inv cap) (H e)"
  shows "keeps (inv cap) (drain_loop n env H k)"
proof (induction n)
  case (Suc n)
  have "keeps (inv cap) (\<lambda>s. if service_running k s then fop_ok () s else drain_loop n env H k s)"
    using Suc by (auto simp: triple_def fop_of_def op_ok_def)
  then show ?case
    by (auto intro!: keeps_bind keeps_framed framed_intros keeps_fop_of [OF keeps_poll] assms split: option.splits)
qed (simp add: keeps_framed framed_intros)

lemma keeps_drain: "(\<And>e. keeps (inv cap) (H e)) \<Longrightarrow> keeps (inv cap) (drain_events env H k)"
  unfolding drain_events_def by (rule keeps_drain_loop)

text \<open>
  Recording the scheduled attempt, the one place where the attempt counter grows: it charges the
  ledger for the restart that is issued next.
\<close>

abbreviation charged :: "service_id \<Rightarrow> nat \<Rightarrow> ('c, 'd) converged \<Rightarrow> bool" where
  "charged k \<equiv> ledger_inv (\<lambda>c. if watched = Some k then Suc (issued c) else issued c) watched budget"

lemma attempt_pre_framed: "framed m \<Longrightarrow> triple (attempt_pre (inv cap) k a) (fop_of m) (\<lambda>_. attempt_pre (inv cap) k a) (inv cap)"
proof (rule framed_keeps)
  fix s t :: "('c, 'd) converged" assume v: "cv_view s = cv_view t"
  with inv_view [OF v, of cap] show "attempt_pre (inv cap) k a s = attempt_pre (inv cap) k a t"
    by (simp add: attempt_pre_def cv_view_def)
qed (simp_all add: attempt_pre_def)

lemma spent_charged:
  assumes "spent issued watched budget s" and "keys_unique rs_service (cv_recovery s)"
    and l: "recovery.lookup k (cv_recovery s) = Some slot" and q: "rs_service q = rs_service slot"
    and a: "unat (rr_attempts (rs_runtime q)) = Suc (unat (rr_attempts (rs_runtime slot)))"
  shows "spent (\<lambda>c. if watched = Some k then Suc (issued c) else issued c) watched budget
    (s\<lparr>cv_recovery := (cv_recovery s)[the (recovery_find k (cv_recovery s)) := Some q]\<rparr>)"
proof (cases "watched = Some k")
  case True
  from recovery_lookup_mem [OF l] obtain i where k: "rs_service slot = k"
    and i: "recovery_find k (cv_recovery s) = Some i" "i < length (cv_recovery s)" "cv_recovery s ! i = Some slot" by blast
  from assms(1) True obtain p where p: "Some p \<in> set (cv_recovery s)" "rs_service p = k"
    "int (issued (sv_control (cv_supervisor s))) \<le> budget + int (unat (rr_attempts (rs_runtime p)))"
    by (auto simp: spent_def)
  from p(1) obtain j where j: "j < length (cv_recovery s)" "cv_recovery s ! j = Some p" by (auto simp: in_set_conv_nth)
  then have "j = i" using assms(2) i k p(2) unfolding keys_unique_def by metis
  with i j have ps: "p = slot" by simp
  have "Some q \<in> set ((cv_recovery s)[i := Some q])" using i(2) by (rule set_update_memI)
  moreover have "int (Suc (issued (sv_control (cv_supervisor s)))) \<le> budget + int (unat (rr_attempts (rs_runtime q)))"
    using p(3) a unfolding ps by linarith
  ultimately show ?thesis
    using True q k i(1) unfolding spent_def True option.case
    by (intro exI [of _ q]) (simp del: of_nat_Suc unsigned_numeral)
next
  case False
  then show ?thesis
    using spent_slot_update [OF assms(1,2) l q] by simp
qed

lemma attempt_recorded:
  "triple (attempt_pre (inv cap) k a) (fop_of (if_slot k (\<lambda>slot.
      slot\<lparr>rs_restart_old_pid := p,
           rs_runtime := clear_pending_after_attempt (record_attempt_started a (rs_runtime slot))\<rparr>)))
     (\<lambda>_. charged k cap) (inv cap)"
proof (rule triple_op)
  fix s :: "('c, 'd) converged"
  assume pre: "attempt_pre (inv cap) k a s"
  then have inv: "conv_inv cap s" and sp: "spent issued watched budget s"
    and u: "keys_unique rs_service (cv_recovery s)"
    by (simp_all add: attempt_pre_def ledger_inv_def conv_inv_def)
  let ?f = "\<lambda>slot. slot\<lparr>rs_restart_old_pid := p,
      rs_runtime := clear_pending_after_attempt (record_attempt_started a (rs_runtime slot))\<rparr>"
  have "charged k cap (snd (if_slot k ?f s))"
  proof (cases "recovery.lookup k (cv_recovery s)")
    case (Some slot)
    with pre have ok: "attempt_ok a slot" by (simp add: attempt_pre_def)
    then have "unat (rr_attempts (rs_runtime (?f slot))) = Suc (unat (rr_attempts (rs_runtime slot)))"
      by (simp add: attempt_ok_unat clear_pending_after_attempt_def record_attempt_started_def)
    with attempt_ok_recorded [OF ok] Some show ?thesis
      using conv_inv_slot_update [OF inv Some, of "?f slot"] spent_charged [OF sp u Some, of "?f slot"]
      by (simp add: if_slot_def recovery_slot_mut_eq ledger_inv_def)
  next
    case None
    have "watched \<noteq> Some k"
    proof
      assume "watched = Some k"
      with sp obtain slot where "Some slot \<in> set (cv_recovery s)" "rs_service slot = k" by (auto simp: spent_def)
      with recovery_lookup_None [OF None] show False by simp
    qed
    with None inv sp show ?thesis by (simp add: if_slot_def recovery_slot_mut_eq ledger_inv_def)
  qed
  then show "case if_slot k ?f s of (Inl _, s') \<Rightarrow> inv cap s' | (Inr a, s') \<Rightarrow> charged k cap s'"
    by (simp add: if_slot_def split: prod.splits)
qed

lemma restart_issued:
  "triple (charged k cap) (fop_of (on_supervisor (issue_restart_sequence env k))) (\<lambda>_. inv cap) (inv cap)"
proof (rule triple_op)
  fix s :: "('c, 'd) converged"
  assume pre: "charged k cap s"
  let ?m = "issue_restart_sequence env k"
  have "sup_keeps cap ?m" unfolding issue_restart_sequence_def by (intro sup_keeps_bind sup_keeps_issue)
  with pre have "conv_inv cap (snd (on_supervisor ?m s))"
    by (simp add: ledger_inv_def sup_keeps_def on_supervisor_snd)
  moreover have "spent issued watched budget (snd (on_supervisor ?m s))"
    using pre issued_sequence [of k "cv_supervisor s"]
    by (auto simp: ledger_inv_def on_supervisor_snd elim: spent_le)
  ultimately have "inv cap (snd (on_supervisor ?m s))" by (simp add: ledger_inv_def)
  then show "case on_supervisor ?m s of (Inl _, s') \<Rightarrow> inv cap s' | (Inr a, s') \<Rightarrow> inv cap s'"
    by (auto split: prod.splits sum.splits)
qed

lemma restart_tail:
  assumes "\<And>e. keeps (inv cap) (H e)"
  shows "triple (charged k cap)
    (fop_bind (fop_of (on_supervisor (issue_restart_sequence env k))) (\<lambda>_.
     fop_bind (drain_events env H k) (\<lambda>_.
     fop_of (on_supervisor (log_service_state env k))))) (\<lambda>_. inv cap) (inv cap)"
  by (rule triple_bind [OF restart_issued]) (intro keeps_bind keeps_drain assms keeps_framed framed_log)


lemma keeps_try_execute:
  assumes "\<And>e. keeps (inv cap) (H e)"
  shows "triple (attempt_pre (inv cap) k a) (try_execute_restart env H k a) (\<lambda>_. (inv cap)) (inv cap)"
  unfolding try_execute_restart_def
proof (rule triple_bind [OF attempt_pre_framed [OF framed_refresh]],
    rule triple_bind [OF attempt_pre_framed [OF framed_readiness]], goal_cases)
  case (1 u readiness)
  show ?case
  proof (cases readiness)
    case (Blocked reason)
    have "keeps (inv cap) (fop_of (emit_dependency_blocked env k reason))"
      by (intro keeps_framed framed_intros)
    then show ?thesis
      unfolding Blocked start_readiness.case by (rule triple_pre) (simp add: attempt_pre_def)
  next
    case Ready_to_start
    show ?thesis
      unfolding Ready_to_start start_readiness.case
      by (rule triple_bind [OF attempt_pre_framed [OF framed_emits(7)]],
          rule triple_bind [OF attempt_pre_framed [OF framed_read_slot]],
          rule triple_bind [OF attempt_pre_framed [OF framed_emits(2)]],
          rule triple_bind [OF attempt_recorded], rule restart_tail [OF assms])
  qed
qed

lemma pending_attempt_pre:
  assumes "inv cap s" and "i < cap" and "cv_recovery s ! i = Some slot" and "rr_pending (rs_runtime slot)"
  shows "attempt_pre (inv cap) (rs_service slot) (rs_scheduled_attempt slot) s"
proof -
  from assms have len: "length (cv_recovery s) = cap" and u: "keys_unique rs_service (cv_recovery s)"
    and mem: "Some slot \<in> set (cv_recovery s)" by (auto simp: ledger_inv_def conv_inv_def) (metis nth_mem)
  then have "slot_ok slot" using assms(1) by (simp add: ledger_inv_def conv_inv_def)
  with assms(4) have a: "attempt_ok (rs_scheduled_attempt slot) slot"
    by (auto simp: slot_ok_def attempt_ok_def split: restart_policy.splits)
  have "recovery.lookup (rs_service slot) (cv_recovery s) = Some slot"
    unfolding recovery.lookup_eq [OF u] using assms(2,3) len by auto
  with a assms(1) show ?thesis by (simp add: attempt_pre_def)
qed

lemma keeps_drive_slot:
  assumes "\<And>e. keeps (inv cap) (H e)" and "i < cap"
  shows "keeps (inv cap) (drive_slot env H i)"
  unfolding triple_def
proof (intro allI impI)
  fix s :: "('c, 'd) converged"
  assume inv: "inv cap s"
  let ?post = "\<lambda>r. case r of None \<Rightarrow> True | Some (Inl _, s') \<Rightarrow> inv cap s' | Some (Inr a, s') \<Rightarrow> inv cap s'"
  show "?post (drive_slot env H i s)"
  proof (cases "cv_recovery s ! i")
    case (Some slot)
    show ?thesis
    proof (cases "rr_pending (rs_runtime slot) \<and> ticks_reached (cv_now s) (rr_not_before (rs_runtime slot))")
      case True
      then have "attempt_pre (inv cap) (rs_service slot) (rs_scheduled_attempt slot) s"
        using pending_attempt_pre [OF inv assms(2) Some] by simp
      with keeps_try_execute [OF assms(1)] True Some show ?thesis
        by (simp add: drive_slot_def triple_def)
    qed (use inv Some in \<open>auto simp: drive_slot_def fop_of_def op_ok_def\<close>)
  qed (simp add: drive_slot_def fop_of_def op_ok_def inv)
qed

lemma keeps_drive:
  assumes "\<And>e. keeps (inv cap) (H e)"
  shows "keeps (inv cap) (drive_pending_restarts env H)"
proof -
  have "keeps (inv cap) (fop_for [0..<cap] (drive_slot env H))"
    by (rule keeps_for_set) (simp add: keeps_drive_slot assms)
  moreover have "drive_pending_restarts env H s = fop_for [0..<cap] (drive_slot env H) s" if "inv cap s" for s
    using that by (simp add: drive_pending_restarts_def ledger_inv_def conv_inv_def)
  ultimately show ?thesis by (simp add: triple_def)
qed

lemma failure_recorded:
  "triple (inv cap) (fop_of (recovery_slot_mut k (failure_update pid now))) (failure_mid (inv cap) k) (inv cap)"
proof (rule triple_op)
  fix s :: "('c, 'd) converged"
  assume inv: "inv cap s"
  then have u: "keys_unique rs_service (cv_recovery s)" by (simp add: ledger_inv_def conv_inv_def)
  show "case recovery_slot_mut k (failure_update pid now) s of
      (Inl _, s') \<Rightarrow> inv cap s' | (Inr d, s') \<Rightarrow> failure_mid (inv cap) k d s'"
  proof (cases "recovery.lookup k (cv_recovery s)")
    case (Some slot)
    let ?d = "fst (failure_update pid now slot)" and ?f = "failure_update pid now"
    have "slot_ok slot" using inv recovery_lookup_mem(1) [OF Some] by (simp add: ledger_inv_def conv_inv_def)
    note ok = failure_update_ok [OF this refl, of pid now]
    have eq: "recovery_slot_mut k ?f s = (Inr ?d, snd (recovery_slot_mut k ?f s))"
      using Some by (simp add: recovery_slot_mut_eq)
    have "failure_mid (inv cap) k ?d (snd (recovery_slot_mut k ?f s))"
    proof (cases ?d)
      case (Suppressed r)
      with ok Some inv_slot_update [OF inv Some, of "snd (?f slot)"] show ?thesis
        by (simp add: failure_mid_def recovery_slot_mut_eq failure_update_service failure_update_attempts)
    next
      case (Scheduled a nb)
      with ok inv_slot_update [OF inv Some, of "(snd (?f slot))\<lparr>rs_scheduled_attempt := a\<rparr>"] Some show ?thesis
        by (simp add: failure_mid_def slot_mut_fusion [OF u failure_update_service])
          (simp add: recovery_slot_mut_eq failure_update_service failure_update_attempts)
    qed
    with eq show ?thesis by (metis (no_types, lifting) case_prod_conv sum.case(2))
  qed (simp add: recovery_slot_mut_eq inv)
qed

lemma failure_scheduled:
  "triple (failure_mid (inv cap) k d)
     (fop_of (case d of
        Suppressed reason \<Rightarrow> emit_restart_suppressed env k reason
      | Scheduled attempt _ \<Rightarrow> recovery_slot_mut k (\<lambda>slot. ((), slot\<lparr>rs_scheduled_attempt := attempt\<rparr>))))
     (\<lambda>_. inv cap) (inv cap)"
proof (cases d)
  case (Suppressed r)
  have "keeps (inv cap) (fop_of (emit_restart_suppressed env k r))" by (intro keeps_framed framed_intros)
  with Suppressed show ?thesis by (simp add: failure_mid_def triple_def)
next
  case (Scheduled a nb)
  then show ?thesis
    by (auto simp: triple_def fop_of_def failure_mid_def split: sum.splits prod.splits)
qed

lemma keeps_on_health_failure:
  assumes "\<And>e. keeps (inv cap) (H e)"
  shows "keeps (inv cap) (on_health_failure env H event pid)"
proof -
  have "keeps (inv cap)
    (fop_bind (fop_of (case fpid of Some pid \<Rightarrow> emit_failure env k pid | None \<Rightarrow> op_ok ())) (\<lambda>_.
     fop_bind (fop_of (recovery_slot_mut k (failure_update fpid now))) (\<lambda>decision.
     fop_bind (fop_of (case decision of
         Suppressed reason \<Rightarrow> emit_restart_suppressed env k reason
       | Scheduled attempt _ \<Rightarrow> recovery_slot_mut k (\<lambda>slot. ((), slot\<lparr>rs_scheduled_attempt := attempt\<rparr>)))) (\<lambda>_.
     drive_pending_restarts env H))))" for fpid k now
  proof (rule keeps_bind)
    show "keeps (inv cap) (fop_of (case fpid of Some pid \<Rightarrow> emit_failure env k pid | None \<Rightarrow> op_ok ()))"
      by (cases fpid) (auto intro!: keeps_framed framed_intros)
  qed (rule triple_bind [OF failure_recorded triple_bind [OF failure_scheduled keeps_drive [OF assms]]])
  then show ?thesis
    unfolding triple_def on_health_failure_def Let_def failure_update_def [abs_def] by blast
qed

lemma keeps_acceptance [keeps_intros]: "keeps_op (inv cap) (maybe_emit_acceptance_health env k g)"
proof -
  have c: "keeps_op (inv cap) (recovery_slot_mut k (\<lambda>slot. ((), slot\<lparr>rs_last_healthy_gen := g\<rparr>)))" for g
    by (rule keeps_slot_mut) (auto simp: slot_ok_def split: restart_policy.splits)
  note rules = keeps_op_bind keeps_op_ok c framed_inv [OF framed_read_slot] framed_inv [OF framed_emits(5)]
  show ?thesis
    unfolding maybe_emit_acceptance_health_def by (auto intro!: rules)
qed

lemma keeps_handle_spawned:
  assumes "\<And>e. keeps (inv cap) (H e)"
  shows "keeps (inv cap) (handle_spawned env H e)"
proof -
  have mid: "keeps (inv cap) (\<lambda>s.
       case fst (recovery_slot_mut k (\<lambda>slot. (rs_restart_old_pid slot, slot)) s) of
         Inl _ \<Rightarrow> fop_ok () s
       | Inr old \<Rightarrow>
           fop_bind (fop_of (if_slot k (\<lambda>slot. slot\<lparr>rs_healthy_reports := 0, rs_restart_old_pid := None\<rparr>))) (\<lambda>_.
           case old of
             Some old_pid \<Rightarrow> if old_pid \<noteq> pid then fop_of (emit_restarted env k old_pid pid) else fop_ok ()
           | None \<Rightarrow> fop_ok ()) s)" for k pid
  proof -
    have c: "keeps_op (inv cap) (if_slot k (\<lambda>slot. slot\<lparr>rs_healthy_reports := 0, rs_restart_old_pid := None\<rparr>))"
      by (rule keeps_if_slot) (auto simp: slot_ok_def split: restart_policy.splits)
    have "keeps (inv cap) (fop_bind (fop_of (if_slot k (\<lambda>slot. slot\<lparr>rs_healthy_reports := 0, rs_restart_old_pid := None\<rparr>))) (\<lambda>_.
           case old of
             Some old_pid \<Rightarrow> if old_pid \<noteq> pid then fop_of (emit_restarted env k old_pid pid) else fop_ok ()
           | None \<Rightarrow> fop_ok ()))" for old
      by (auto intro!: keeps_bind keeps_fop_of [OF c] keeps_framed framed_intros split: option.splits)
    then show ?thesis
      unfolding triple_def by (auto simp: fop_of_def op_ok_def split: sum.splits)
  qed
  have "keeps (inv cap)
     (fop_bind (fop_of (on_health (health_record_mut k (\<lambda>r. ((), begin_instance g now l r))))) (\<lambda>_.
      fop_bind (\<lambda>s.
       case fst (recovery_slot_mut k (\<lambda>slot. (rs_restart_old_pid slot, slot)) s) of
         Inl _ \<Rightarrow> fop_ok () s
       | Inr old \<Rightarrow>
           fop_bind (fop_of (if_slot k (\<lambda>slot. slot\<lparr>rs_healthy_reports := 0, rs_restart_old_pid := None\<rparr>))) (\<lambda>_.
           case old of
             Some old_pid \<Rightarrow> if old_pid \<noteq> pid then fop_of (emit_restarted env k old_pid pid) else fop_ok ()
           | None \<Rightarrow> fop_ok ()) s) (\<lambda>_. drain_events env H k)))" for k g now l pid
    by (intro keeps_bind mid keeps_framed framed_intros keeps_drain assms)
  then show ?thesis unfolding triple_def handle_spawned_def Let_def by blast
qed

lemma keeps_handle_failure:
  assumes "\<And>e. keeps (inv cap) (H e)"
  shows "keeps (inv cap) (handle_failure env H e)"
proof -
  have c: "keeps_op (inv cap) (if_slot k (\<lambda>slot. slot\<lparr>rs_healthy_reports := 0\<rparr>))" for k
    by (rule keeps_if_slot) (auto simp: slot_ok_def split: restart_policy.splits)
  have o: "keeps (inv cap) (case outcome of
         FailureMarkedUnhealthy failure \<Rightarrow>
           fop_bind (fop_of (emit_health_unhealthy env k (fe_reason failure))) (\<lambda>_.
           on_health_failure env H failure (Some pid))
       | _ \<Rightarrow> fop_ok ())" for outcome k pid
    by (cases outcome)
      (auto intro!: keeps_bind keeps_framed framed_intros keeps_on_health_failure assms)
  have "keeps (inv cap)
     (fop_bind (fop_of (if_slot k (\<lambda>slot. slot\<lparr>rs_healthy_reports := 0\<rparr>))) (\<lambda>_.
      fop_bind (fop_of (on_health (health_record_mut k (notify_lifecycle_failure g kind 0 now)))) (\<lambda>outcome.
       case outcome of
         FailureMarkedUnhealthy failure \<Rightarrow>
           fop_bind (fop_of (emit_health_unhealthy env k (fe_reason failure))) (\<lambda>_.
           on_health_failure env H failure (Some pid))
       | _ \<Rightarrow> fop_ok ())))" for k g kind now pid
    by (intro keeps_bind keeps_fop_of [OF c] keeps_framed framed_intros o)
  then show ?thesis unfolding triple_def handle_failure_def Let_def by blast
qed

lemma keeps_handle_accepted:
  assumes "\<And>e. keeps (inv cap) (H e)"
  shows "keeps (inv cap) (handle_accepted env H e)"
  unfolding handle_accepted_def
  by (cases "le_kind e")
    (auto intro: keeps_handle_spawned keeps_handle_failure assms intro!: keeps_framed framed_intros)

lemma keeps_handle_refused: "keeps_op (inv cap) (handle_refused env e)"
  using keeps_acceptance [of cap] by (auto simp: keeps_op_def handle_refused_def Let_def op_ok_def)

lemma keeps_handle_body:
  assumes H: "\<And>e. keeps (inv cap) (H e)"
  shows "keeps (inv cap) (handle_event_body env H e)"
  unfolding handle_event_body_def
proof (rule keeps_bind)
  show "keeps (inv cap) (fop_of (if le_kind e = Ready
      then maybe_emit_acceptance_health env (si_service (le_instance e)) (si_generation (le_instance e)) else op_ok ()))"
    by (auto intro!: keeps_fop_of keeps_acceptance keeps_op_ok)
  have acc: "keeps (inv cap) (fop_bind (handle_accepted env H e) (\<lambda>_. drive_pending_restarts env H))"
    by (intro keeps_bind keeps_handle_accepted keeps_drive H)
  have ref: "keeps (inv cap) (fop_of (handle_refused env e))"
    by (intro keeps_fop_of keeps_handle_refused)
  have ev: "inv cap s'" if "inv cap s" "on_supervisor (sup_handle_lifecycle_event env e) s = (r, s')" for s r s'
    using keeps_handle_event [of cap e] that unfolding keeps_op_def by (metis snd_conv)
  show "keeps (inv cap) (\<lambda>s.
     case on_supervisor (sup_handle_lifecycle_event env e) s of
       (Inr _, s') \<Rightarrow> fop_bind (handle_accepted env H e) (\<lambda>_. drive_pending_restarts env H) s'
     | (Inl (ConvSupervisor (SupRegistry (Transition _))), s') \<Rightarrow> fop_of (handle_refused env e) s'
     | (Inl x, s') \<Rightarrow> Some (Inl x, s'))" for u
    unfolding triple_def
  proof (intro allI impI)
    fix s :: "('c, 'd) converged"
    assume inv: "inv cap s"
    obtain r s' where os: "on_supervisor (sup_handle_lifecycle_event env e) s = (r, s')" by force
    with inv have i: "inv cap s'" by (rule ev)
    define post where "post = (\<lambda>x :: ((converged_error + unit) \<times> ('c, 'd) converged) option.
      case x of None \<Rightarrow> True | Some (Inl _, t) \<Rightarrow> inv cap t | Some (Inr _, t) \<Rightarrow> inv cap t)"
    have "post (fop_bind (handle_accepted env H e) (\<lambda>_. drive_pending_restarts env H) s')"
      and "post (fop_of (handle_refused env e) s')" and "post (Some (Inl x, s'))" for x
      using acc ref i by (simp_all add: triple_def post_def)
    then have "post (case on_supervisor (sup_handle_lifecycle_event env e) s of
       (Inr _, s') \<Rightarrow> fop_bind (handle_accepted env H e) (\<lambda>_. drive_pending_restarts env H) s'
     | (Inl (ConvSupervisor (SupRegistry (Transition _))), s') \<Rightarrow> fop_of (handle_refused env e) s'
     | (Inl x, s') \<Rightarrow> Some (Inl x, s'))"
      unfolding os
      by (simp split: sum.split converged_error.split supervisor_error.split registry_error.split)
    then show "case (case on_supervisor (sup_handle_lifecycle_event env e) s of
         (Inr _, s') \<Rightarrow> fop_bind (handle_accepted env H e) (\<lambda>_. drive_pending_restarts env H) s'
       | (Inl (ConvSupervisor (SupRegistry (Transition _))), s') \<Rightarrow> fop_of (handle_refused env e) s'
       | (Inl x, s') \<Rightarrow> Some (Inl x, s')) of
        None \<Rightarrow> True | Some (Inl _, s') \<Rightarrow> inv cap s' | Some (Inr _, s') \<Rightarrow> inv cap s'"
      unfolding post_def .
  qed
qed

lemma keeps_handle: "keeps (inv cap) (handle_lifecycle_event n env e)"
proof (induction n arbitrary: e)
  case 0
  then show ?case by (simp add: triple_def)
next
  case (Suc n)
  have "keeps (inv cap) (handle_event_body env (handle_lifecycle_event n env) e)"
    by (intro keeps_handle_body Suc)
  then show ?case by (simp add: triple_def)
qed

lemma keeps_advance: "keeps (inv cap) (advance_ticks n env now)"
proof -
  let ?H = "handle_lifecycle_event n env"
  have "keeps (inv cap) (fop_bind (fop_for events (\<lambda>e. on_health_failure env ?H e None)) (\<lambda>_. drive_pending_restarts env ?H))"
    for events
    by (intro keeps_bind keeps_for keeps_on_health_failure keeps_drive keeps_handle)
  moreover have "inv cap ((snd (refresh_dependency_health (set_virtual_ticks now s)))\<lparr>cv_health := h\<rparr>)"
    if "inv cap s" for s :: "('c, 'd) converged" and h
    using that by (subst inv_view [of _ s]) (simp_all add: cv_view_def refresh_dependency_health_def set_virtual_ticks_def)
  ultimately show ?thesis
    unfolding triple_def advance_ticks_def Let_def by (simp add: split_beta)
qed

lemma keeps_report:
  assumes "watched \<noteq> Some (hr_service report)"
  shows "keeps (inv cap) (apply_health_report n env report)"
proof -
  have c: "keeps_op (inv cap) (if_slot k count_healthy_report)" if "watched \<noteq> Some k" for k
    by (rule keeps_if_slot, erule slot_ok_healthy) (use that in \<open>simp_all add: count_healthy_report_def Let_def\<close>)
  have o: "keeps (inv cap) (case outcome of
         MarkedUnhealthy _ reason \<Rightarrow>
           fop_bind (fop_of (emit_health_unhealthy env k reason)) (\<lambda>_.
           on_health_failure env (handle_lifecycle_event n env)
             \<lparr>fe_service = k, fe_generation = g, fe_reason = reason, fe_observed_at = now\<rparr> None)
       | AcceptedHealthy generation \<Rightarrow>
           fop_bind (fop_of (emit_health_healthy env k generation)) (\<lambda>_. fop_of (if_slot k count_healthy_report))
       | AcceptedDegraded generation \<Rightarrow>
           fop_bind (fop_of (emit_health_healthy env k generation)) (\<lambda>_. fop_of (if_slot k count_healthy_report))
       | _ \<Rightarrow> fop_ok ())" if "watched \<noteq> Some k" for outcome k g now
  proof (cases outcome)
    case (MarkedUnhealthy x reason)
    show ?thesis
      unfolding MarkedUnhealthy report_outcome.case
      by (intro keeps_bind keeps_framed framed_intros keeps_on_health_failure keeps_handle)
  next
    case (AcceptedHealthy x)
    show ?thesis
      unfolding AcceptedHealthy report_outcome.case
      by (intro keeps_bind keeps_framed framed_intros keeps_fop_of [OF c] that)
  next
    case (AcceptedDegraded x)
    show ?thesis
      unfolding AcceptedDegraded report_outcome.case
      by (intro keeps_bind keeps_framed framed_intros keeps_fop_of [OF c] that)
  qed (auto intro!: keeps_framed framed_intros)
  have "keeps (inv cap) (fop_bind (fop_of (on_health (health_record_mut k (apply_report report now l)))) (\<lambda>outcome.
       case outcome of
         MarkedUnhealthy _ reason \<Rightarrow>
           fop_bind (fop_of (emit_health_unhealthy env k reason)) (\<lambda>_.
           on_health_failure env (handle_lifecycle_event n env)
             \<lparr>fe_service = k, fe_generation = hr_generation report, fe_reason = reason, fe_observed_at = now\<rparr> None)
       | AcceptedHealthy generation \<Rightarrow>
           fop_bind (fop_of (emit_health_healthy env k generation)) (\<lambda>_. fop_of (if_slot k count_healthy_report))
       | AcceptedDegraded generation \<Rightarrow>
           fop_bind (fop_of (emit_health_healthy env k generation)) (\<lambda>_. fop_of (if_slot k count_healthy_report))
       | _ \<Rightarrow> fop_ok ()))" if "watched \<noteq> Some k" for k now l
    by (intro keeps_bind o that keeps_framed framed_intros)
  with assms show ?thesis unfolding triple_def apply_health_report_def Let_def by blast
qed

lemma keeps_request_start: "keeps (inv cap) (request_start n env k)"
  unfolding request_start_def
  by (intro keeps_bind keeps_framed framed_intros keeps_drain keeps_handle keeps_fop_of [OF keeps_issue])
    (simp add: control_request_new_def)

lemma register_declared:
  "triple (inv cap) (fop_of (on_supervisor (sup_register_service env k))) (\<lambda>_. registered (inv cap) k) (inv cap)"
proof (rule triple_op)
  fix s :: "('c, 'd) converged"
  assume inv: "inv cap s"
  then have ci: "conv_inv cap s" and u: "keys_unique lr_service (cv_registry s)"
    by (simp_all add: ledger_inv_def conv_inv_def)
  note m = registry_map_steps(1,2) [OF u, of k]
  let ?s = "snd (on_supervisor (sup_register_service env k) s)"
  have reg: "cv_registry ?s = snd (registry_declare k (cv_registry s))" and rec: "cv_recovery ?s = cv_recovery s"
    by (simp_all add: on_supervisor_snd sup_register_registry)
  have "conv_inv cap ?s"
    using ci
    by (rule conv_inv_registry [OF _ _ _ _ rec reg])
      (use m ci record_inv_declared in \<open>auto simp: conv_inv_def split: if_splits\<close>)
  moreover have "spent issued watched budget ?s"
    using inv by (auto simp: ledger_inv_def on_supervisor_snd sup_register_control elim: spent_le)
  ultimately have i: "inv cap ?s" by (simp add: ledger_inv_def)
  moreover have "registered (inv cap) k ?s" if "is_ok (fst (registry_declare k (cv_registry s)))"
    using i m that ci by (auto simp: registered_def reg rec conv_inv_def)
  ultimately show "case on_supervisor (sup_register_service env k) s of
      (Inl _, s') \<Rightarrow> inv cap s' | (Inr _, s') \<Rightarrow> registered (inv cap) k s'"
    using sup_register_registry(2) [of env k "cv_supervisor s"]
    by (cases "fst (sup_register_service env k (cv_supervisor s))")
      (auto simp: on_supervisor_def op_map_err_def op_on_def split: prod.splits sum.splits)
qed

lemma spent_slot_added:
  assumes "spent issued watched budget s" and "position (\<lambda>entry. entry = None) (cv_recovery s) = Some i"
  shows "spent issued watched budget (s\<lparr>cv_recovery := (cv_recovery s)[i := q]\<rparr>)"
proof (cases watched)
  case (Some w)
  with assms(1) obtain p where p: "Some p \<in> set (cv_recovery s)" "rs_service p = w"
    "int (issued (sv_control (cv_supervisor s))) \<le> budget + int (unat (rr_attempts (rs_runtime p)))"
    by (auto simp: spent_def)
  from p(1) obtain j where j: "j < length (cv_recovery s)" "cv_recovery s ! j = Some p" by (auto simp: in_set_conv_nth)
  have "cv_recovery s ! i = None" using assms(2) by (auto dest: position_SomeD)
  with j have "j \<noteq> i" by auto
  with j have "Some p \<in> set ((cv_recovery s)[i := q])"
    by (metis length_list_update nth_list_update_neq nth_mem)
  with p Some show ?thesis by (auto simp: spent_def)
qed (simp add: spent_def)

lemma register_slot_added:
  "triple (registered (inv cap) k) (fop_of (add_recovery_slot k config)) (\<lambda>_. inv cap) (inv cap)"
proof (rule triple_op)
  fix s :: "('c, 'd) converged"
  assume reg: "registered (inv cap) k s"
  then have inv: "conv_inv cap s" and sp: "spent issued watched budget s"
    and u: "keys_unique rs_service (cv_recovery s)"
    by (simp_all add: registered_def ledger_inv_def conv_inv_def)
  let ?q = "\<lparr>rs_service = k, rs_runtime = recovery_new (cc_restart config), rs_scheduled_attempt = 0,
    rs_restart_old_pid = None, rs_last_healthy_gen = 0, rs_healthy_reports = 0\<rparr>"
  have ok: "slot_ok ?q" by (simp add: slot_ok_def recovery_new_def split: restart_policy.splits)
  have u': "keys_unique rs_service ((cv_recovery s)[i := Some ?q])" for i
    by (rule keys_unique_update [OF u]) (use reg in \<open>force simp: registered_def in_set_conv_nth\<close>)
  have "slot_ok p \<and> registry_map (cv_registry s) (rs_service p) \<noteq> None"
    if "Some p \<in> set ((cv_recovery s)[i := Some ?q])" for p i
    using set_update_subset [OF that] inv reg ok by (auto simp: conv_inv_def registered_def)
  then have "conv_inv cap (s\<lparr>cv_recovery := (cv_recovery s)[i := Some ?q]\<rparr>)" for i
    using inv u' by (auto simp: conv_inv_def)
  with inv sp show "case add_recovery_slot k config s of (Inl _, s') \<Rightarrow> inv cap s' | (Inr _, s') \<Rightarrow> inv cap s'"
    by (auto simp: add_recovery_slot_def ledger_inv_def split: option.splits intro: spent_slot_added)
qed

lemma keeps_register: "keeps (inv cap) (fop_of (register_service env k config))"
proof -
  have frame: "triple (registered (inv cap) k) (fop_of m) (\<lambda>_. registered (inv cap) k) (inv cap)" if "framed m"
    for m :: "(('c, 'd) converged, converged_error, unit) op"
  proof (rule framed_keeps [OF that])
    fix s t :: "('c, 'd) converged" assume v: "cv_view s = cv_view t"
    with inv_view [OF v, of cap] show "registered (inv cap) k s = registered (inv cap) k t"
      by (simp add: registered_def cv_view_def)
  qed (simp add: registered_def)
  show ?thesis
    unfolding register_service_def fop_of_bind
    by (rule triple_bind [OF register_declared triple_bind [OF frame [OF framed_on_health(1)]
          triple_bind [OF frame [OF framed_on_health(2)] register_slot_added]]])
qed

lemma register_inv: "inv cap s \<Longrightarrow> inv cap (snd (register_service env k config s))"
  using keepsD [OF keeps_register, of cap s k config "fst (register_service env k config s)"]
  by (simp add: fop_of_def)

end

text \<open>
  What the users of a supervisor can make it do, when only the services that satisfy \<open>heard\<close> report on
  their health.
\<close>

inductive conv_step :: "('c, 'd) sup_env \<Rightarrow> (service_id \<Rightarrow> bool) \<Rightarrow> ('c, 'd) converged \<Rightarrow> ('c, 'd) converged \<Rightarrow> bool"
  for env heard where
  cs_start: "conv_step env heard s (snd (cv_start env s))"
| cs_register: "conv_step env heard s (snd (register_service env k config s))"
| cs_dependencies: "conv_step env heard s (snd (cv_set_dependencies m s))"
| cs_poll: "conv_step env heard s (snd (poll_lifecycle_event env k s))"
| cs_ticks: "conv_step env heard s (set_virtual_ticks now s)"
| cs_advance: "advance_ticks n env now s = Some (r, t) \<Longrightarrow> conv_step env heard s t"
| cs_report: "heard (hr_service report) \<Longrightarrow> apply_health_report n env report s = Some (r, t) \<Longrightarrow>
    conv_step env heard s t"
| cs_request: "request_start n env k s = Some (r, t) \<Longrightarrow> conv_step env heard s t"
| cs_event: "handle_lifecycle_event n env e s = Some (r, t) \<Longrightarrow> conv_step env heard s t"

context restart_ledger
begin

lemma step_inv:
  assumes "inv cap s" and "conv_step env heard s t" and "\<And>k. watched = Some k \<Longrightarrow> \<not> heard k"
  shows "inv cap t"
  using assms(2,1)
proof cases
  case cs_start
  have "framed (cv_start env)"
    unfolding cv_start_def sup_start_def by (rule framed_on_supervisor) simp_all
  with cs_start assms(1) show ?thesis by (simp add: keeps_opD [OF framed_inv])
next
  case (cs_dependencies m)
  with assms(1) show ?thesis
    by (simp add: cv_set_dependencies_def keeps_opD [OF framed_inv [OF framed_on_health(2)]])
next
  case (cs_poll k)
  with assms(1) show ?thesis by (simp add: poll_lifecycle_event_def keeps_opD [OF keeps_poll])
next
  case (cs_ticks now)
  with assms(1) inv_view [of "set_virtual_ticks now s" s cap] show ?thesis
    by (simp add: set_virtual_ticks_def cv_view_def)
next
  case (cs_report report n r)
  then have "watched \<noteq> Some (hr_service report)" using assms(3) by auto
  from keepsD [OF keeps_report [OF this] assms(1) cs_report(2)] show ?thesis .
qed (use assms(1) in \<open>auto intro: register_inv keepsD [OF keeps_advance]
    keepsD [OF keeps_request_start] keepsD [OF keeps_handle]\<close>)

end

interpretation plain: restart_ledger env "\<lambda>_. 0" None 0
  for env
  by unfold_locales simp_all

lemma plain_inv: "ledger_inv (\<lambda>_. 0) None 0 cap s \<longleftrightarrow> conv_inv cap s"
  by (simp add: ledger_inv_def spent_def)

interpretation converged: transition_system "\<lambda>s. \<exists>pid c d l. s = converged_new cap pid c d l" "conv_step env heard" "conv_inv cap"
  for cap env heard
proof
  show "conv_inv cap t" if "conv_inv cap s" "conv_step env heard s t" for s t
    using plain.step_inv [of cap s env heard t] that by (simp add: plain_inv)
qed (auto simp: conv_inv_def converged_new_def supervisor_new_def tracker_new_def registry_map_lookup
    tracker.lookup_def tracker_find_def dest: position_SomeD split: option.splits)

section \<open>Markers\<close>

lemmas line_defs = format_started_line_def format_registered_line_def format_service_state_line_def
  format_failure_line_def format_restart_line_def format_restarted_line_def format_restart_suppressed_line_def
  format_health_healthy_line_def format_health_unhealthy_line_def format_dependency_ready_line_def
  format_dependency_blocked_line_def newline_def

lemmas line_lengths = length_show_u32 length_show_u64 length_show_state

lemma token_lengths: "length (suppressed_token w) \<le> 10" "length (failure_token f) \<le> 16"
  by (cases w; simp) (cases f; simp)

lemma runtime_line_lengths:
  "length (concat (format_started_line pid)) \<le> LINE_BYTES"
  "length (concat (format_registered_line k)) \<le> LINE_BYTES"
  "length (concat (format_service_state_line k st pid' g)) \<le> LINE_BYTES"
  using length_show_u32 [of k] length_show_u64 [of pid] length_show_u32 [of g] length_show_state [of st]
    length_show_u64 [of "the pid'"]
  by (auto simp: line_defs LINE_BYTES_def split: option.splits)

lemma converged_line_lengths:
  "length (concat (format_failure_line k pid)) \<le> CONV_LINE_BYTES"
  "length (concat (format_restart_line k a)) \<le> CONV_LINE_BYTES"
  "length (concat (format_restarted_line k pid pid')) \<le> CONV_LINE_BYTES"
  "length (concat (format_restart_suppressed_line k w)) \<le> CONV_LINE_BYTES"
  "length (concat (format_health_healthy_line k g)) \<le> CONV_LINE_BYTES"
  "length (concat (format_health_unhealthy_line k f)) \<le> CONV_LINE_BYTES"
  "length (concat (format_dependency_ready_line k)) \<le> CONV_LINE_BYTES"
  "length (concat (format_dependency_blocked_line k b)) \<le> CONV_LINE_BYTES"
  using length_show_u32 [of k] length_show_u64 [of pid] length_show_u64 [of pid'] length_show_u32 [of a]
    length_show_u32 [of g] length_show_u32 [of "blocked_by b"] token_lengths(1) [of w] token_lengths(2) [of f]
  by (simp_all add: line_defs CONV_LINE_BYTES_def)

lemma emit_line_fits:
  "length (concat ps) \<le> LINE_BYTES \<Longrightarrow> emit_pieces env ps = on_diagnostics (emit env (concat ps))"
  "length (concat ps) \<le> CONV_LINE_BYTES \<Longrightarrow> emit_line env ps = on_supervisor (emit_diagnostic env (concat ps))"
  by (simp_all add: emit_pieces_def emit_line_def write_pieces_eq)

text \<open>C36 (bounds). Every serial marker that the supervisor emits fits its line buffer, whatever the
  identifiers, states, process numbers and generations in it, so formatting never fails: the runtime and the
  converged supervisor hand the whole text of the line to the sink. The two service lines that only a self
  test of the lifecycle crate prints are not among them.\<close>

theorem serial_markers_fit:
  "emit_pieces env (format_started_line pid) = on_diagnostics (emit env (concat (format_started_line pid))) \<and>
   emit_pieces env (format_registered_line k) = on_diagnostics (emit env (concat (format_registered_line k))) \<and>
   emit_pieces env (format_service_state_line k st pid' g) =
     on_diagnostics (emit env (concat (format_service_state_line k st pid' g))) \<and>
   emit_failure env k pid = on_supervisor (emit_diagnostic env (concat (format_failure_line k pid))) \<and>
   emit_restart env k a = on_supervisor (emit_diagnostic env (concat (format_restart_line k a))) \<and>
   emit_restarted env k pid new_pid =
     on_supervisor (emit_diagnostic env (concat (format_restarted_line k pid new_pid))) \<and>
   emit_restart_suppressed env k w =
     on_supervisor (emit_diagnostic env (concat (format_restart_suppressed_line k w))) \<and>
   emit_health_healthy env k g = on_supervisor (emit_diagnostic env (concat (format_health_healthy_line k g))) \<and>
   emit_health_unhealthy env k f = on_supervisor (emit_diagnostic env (concat (format_health_unhealthy_line k f))) \<and>
   emit_dependency_ready env k = on_supervisor (emit_diagnostic env (concat (format_dependency_ready_line k))) \<and>
   emit_dependency_blocked env k b =
     on_supervisor (emit_diagnostic env (concat (format_dependency_blocked_line k b)))"
  unfolding emit_failure_def emit_restart_def emit_restarted_def emit_restart_suppressed_def
    emit_health_healthy_def emit_health_unhealthy_def emit_dependency_ready_def emit_dependency_blocked_def
  by (simp only: emit_line_fits runtime_line_lengths converged_line_lengths simp_thms)

section \<open>Crash loops and blocked starts\<close>

definition quiet_env :: "(fake_control, unit) sup_env" where
  "quiet_env = \<lparr>issue = fake_issue_control, poll = fake_poll_event, emit = (\<lambda>_. op_ok ())\<rparr>"

definition sample_converged :: "(fake_control, unit) converged" where
  "sample_converged = converged_new 2 1 (fake_new 2) () (liveness_new 5)"

definition sample_config :: convergence_config where
  "sample_config = \<lparr>cc_restart = OnFailure \<lparr>max_attempts = 2, backoff_base_ticks = 5\<rparr>, cc_liveness = liveness_new 5\<rparr>"

lemma sample_registered:
  "cv_recovery (snd (register_service quiet_env 7 sample_config sample_converged)) =
     [Some \<lparr>rs_service = 7, rs_runtime = recovery_new (OnFailure \<lparr>max_attempts = 2, backoff_base_ticks = 5\<rparr>),
        rs_scheduled_attempt = 0, rs_restart_old_pid = None, rs_last_healthy_gen = 0, rs_healthy_reports = 0\<rparr>, None]"
  by (simp add: register_service_def sup_register_service_def log_service_state_def emit_line_fits runtime_line_lengths
      op_bind_def op_map_err_def op_on_def op_ok_def on_supervisor_def on_health_def on_dependencies_def on_registry_def on_diagnostics_def
      registry_declare_def tracker_declare_def registry_query_def tracker_record_def tracker_find_def ok_or_def
      quiet_env_def sample_converged_def sample_config_def converged_new_def supervisor_new_def tracker_new_def
      health_tracker_new_def graph_new_def health_register_def graph_declare_def add_recovery_slot_def
      graph_find_index_def health_find_def record_declared_def numeral_2_eq_2)

text \<open>
  The in-memory transport keeps the requests it was handed, so its restarts can be counted.
\<close>

definition fake_restarts :: "service_id \<Rightarrow> fake_control \<Rightarrow> nat" where
  "fake_restarts k c = length (filter (\<lambda>q. q = control_request_new k Restart) (fake_issued_requests c))"

lemma fake_issued_issue:
  "fake_issued_requests (snd (fake_issue_control q c)) = fake_issued_requests c
   \<or> fake_issued_requests (snd (fake_issue_control q c)) = fake_issued_requests c @ [q]"
proof (cases "fc_issued_len c < length (fc_issued c)")
  case True
  then have "take (Suc (fc_issued_len c)) ((fc_issued c)[fc_issued_len c := Some q])
      = take (fc_issued_len c) (fc_issued c) @ [Some q]"
    by (simp add: take_Suc_conv_app_nth)
  with True show ?thesis
    by (simp add: fake_issue_control_def fake_issued_requests_def map_filter_def)
qed (simp add: fake_issue_control_def)

lemma fake_restarts_laws:
  "fake_restarts k (snd (fake_issue_control q c))
     \<le> (if q = control_request_new k Restart then Suc (fake_restarts k c) else fake_restarts k c)"
  "fake_restarts k (snd (fake_poll_event j c)) \<le> fake_restarts k c"
  using fake_issued_issue [of q c]
  by (auto simp: fake_restarts_def fake_poll_event_def fake_issued_requests_def split: option.splits)

lemma restart_ledgerI:
  assumes issue: "\<And>q c. issued (snd (issue env q c))
      \<le> (if q = control_request_new k Restart then Suc (issued c) else issued c)"
    and poll: "\<And>j c. issued (snd (poll env j c)) \<le> issued c"
  shows "restart_ledger env issued (Some k)"
proof
  fix q c
  show "issued (snd (issue env q c)) \<le> issued c" if "Some k \<noteq> Some (cr_service q) \<or> cr_kind q \<noteq> Restart"
  proof -
    have "q \<noteq> control_request_new k Restart" using that by (auto simp: control_request_new_def)
    then show ?thesis using issue [of q c] by simp
  qed
  show "issued (snd (issue env q c)) \<le> Suc (issued c)"
    using issue [of q c] by (cases "q = control_request_new k Restart") simp_all
qed (rule poll)

interpretation fake: restart_ledger quiet_env "fake_restarts k" "Some k" budget
  for k budget
  by (rule restart_ledgerI) (use fake_restarts_laws in \<open>simp_all add: quiet_env_def\<close>)

text \<open>C15 (safety). No service is restarted more often than its policy allows. Count the restart requests
  for a service that the supervisor hands to its control transport; the transport may do with them what it
  likes. From every state that a supervisor can reach with the service registered, and along every run of its
  operations in which no health report of that service arrives, every restart issued uses up one attempt: the
  count grows by no more than the attempts on record, and these stay within the limit of the policy, so that
  at most so many restarts are issued until the service reports that it is healthy. A restart is pending only
  below the limit and is numbered one above the attempts made, a service that is never to be restarted has
  none pending and gets none, and the service stays registered.\<close>

theorem crash_loop_bounded:
  assumes "(conv_step env (\<lambda>_. True))\<^sup>*\<^sup>* (converged_new cap pid control sink liveness) s"
    and "(conv_step env (\<lambda>j. j \<noteq> k))\<^sup>*\<^sup>* s t"
    and "Some slot \<in> set (cv_recovery s)" and "rs_service slot = k"
    and "\<forall>q c. issued (snd (issue env q c))
           \<le> (if q = control_request_new k Restart then Suc (issued c) else issued c)"
    and "\<forall>j c. issued (snd (poll env j c)) \<le> issued c"
  shows "\<exists>slot'. Some slot' \<in> set (cv_recovery t) \<and> rs_service slot' = k \<and>
    issued (sv_control (cv_supervisor t)) + unat (rr_attempts (rs_runtime slot))
      \<le> issued (sv_control (cv_supervisor s)) + unat (rr_attempts (rs_runtime slot')) \<and>
    (case rr_policy (rs_runtime slot') of
       Never \<Rightarrow> rr_attempts (rs_runtime slot') = 0 \<and> \<not> rr_pending (rs_runtime slot')
     | OnFailure limits \<Rightarrow>
         rr_attempts (rs_runtime slot') \<le> max_attempts limits \<and>
         (rr_pending (rs_runtime slot') \<longrightarrow>
           unat (rs_scheduled_attempt slot') = unat (rr_attempts (rs_runtime slot')) + 1 \<and>
           rs_scheduled_attempt slot' \<le> max_attempts limits)) \<and>
    registry_query k (cv_registry t) \<noteq> None"
proof -
  let ?b = "int (issued (sv_control (cv_supervisor s))) - int (unat (rr_attempts (rs_runtime slot)))"
  have ledger: "restart_ledger env issued (Some k)"
    by (rule restart_ledgerI) (use assms(5,6) in blast)+
  have "conv_inv cap s" by (rule converged.reachable_inv [OF _ assms(1)]) blast
  then have start: "ledger_inv issued (Some k) ?b cap s"
    using assms(3,4) by (auto simp: ledger_inv_def spent_def)
  have "ledger_inv issued (Some k) ?b cap t"
    using assms(2) start
    by (induction rule: rtranclp_induct) (auto intro: restart_ledger.step_inv [OF ledger])
  then obtain slot' where slot': "Some slot' \<in> set (cv_recovery t)" "rs_service slot' = k" "slot_ok slot'"
    "int (issued (sv_control (cv_supervisor t))) \<le> ?b + int (unat (rr_attempts (rs_runtime slot')))"
    "registry_map (cv_registry t) k \<noteq> None"
    by (auto simp: ledger_inv_def spent_def conv_inv_def)
  have count: "issued (sv_control (cv_supervisor t)) + unat (rr_attempts (rs_runtime slot))
      \<le> issued (sv_control (cv_supervisor s)) + unat (rr_attempts (rs_runtime slot'))"
    using slot'(4) by linarith
  have inc: "unat (a + 1) = unat a + 1 \<and> a + 1 \<le> m" if "a < m" for a m :: u32
    using that unat_bound [of m] by (simp add: word_less_nat_alt word_le_nat_alt unat_word_ariths)
  have policy: "case rr_policy (rs_runtime slot') of
       Never \<Rightarrow> rr_attempts (rs_runtime slot') = 0 \<and> \<not> rr_pending (rs_runtime slot')
     | OnFailure limits \<Rightarrow>
         rr_attempts (rs_runtime slot') \<le> max_attempts limits \<and>
         (rr_pending (rs_runtime slot') \<longrightarrow>
           unat (rs_scheduled_attempt slot') = unat (rr_attempts (rs_runtime slot')) + 1 \<and>
           rs_scheduled_attempt slot' \<le> max_attempts limits)"
    using slot'(3) inc by (auto simp: slot_ok_def split: restart_policy.splits)
  have "registry_query k (cv_registry t) \<noteq> None"
    using slot'(5) by (auto simp: registry_map_def registry_query_def split: sum.splits)
  with slot'(1,2) count policy show ?thesis by blast
qed

theorem crash_loop_bounded_witness:
  "\<exists>s t slot. (conv_step quiet_env (\<lambda>_. True))\<^sup>*\<^sup>* sample_converged s \<and> (conv_step quiet_env (\<lambda>j. j \<noteq> 7))\<^sup>*\<^sup>* s t \<and>
     Some slot \<in> set (cv_recovery t) \<and> rs_service slot = 7 \<and>
     fake_restarts 7 (sv_control (cv_supervisor t))
       \<le> fake_restarts 7 (sv_control (cv_supervisor s)) + unat (rr_attempts (rs_runtime slot))"
proof -
  let ?s = "snd (register_service quiet_env 7 sample_config sample_converged)" and ?slot = "the (cv_recovery
    (snd (register_service quiet_env 7 sample_config sample_converged)) ! 0)"
  have reach: "(conv_step quiet_env (\<lambda>_. True))\<^sup>*\<^sup>* sample_converged ?s" by (rule r_into_rtranclp) (rule cs_register)
  have run: "(conv_step quiet_env (\<lambda>j. j \<noteq> 7))\<^sup>*\<^sup>* ?s (set_virtual_ticks 9 ?s)"
    by (rule r_into_rtranclp) (rule cs_ticks)
  have slot: "Some ?slot \<in> set (cv_recovery ?s)" "rs_service ?slot = 7" "rr_attempts (rs_runtime ?slot) = 0"
    by (simp_all add: sample_registered recovery_new_def)
  have "\<forall>q c. fake_restarts 7 (snd (issue quiet_env q c))
      \<le> (if q = control_request_new 7 Restart then Suc (fake_restarts 7 c) else fake_restarts 7 c)"
    "\<forall>j c. fake_restarts 7 (snd (poll quiet_env j c)) \<le> fake_restarts 7 c"
    using fake_restarts_laws by (simp_all add: quiet_env_def)
  from crash_loop_bounded [OF reach [unfolded sample_converged_def] run [unfolded sample_converged_def]
      slot(1,2) [unfolded sample_converged_def] this]
  obtain slot' where "Some slot' \<in> set (cv_recovery (set_virtual_ticks 9 ?s))" "rs_service slot' = 7"
    "fake_restarts 7 (sv_control (cv_supervisor (set_virtual_ticks 9 ?s))) + unat (rr_attempts (rs_runtime ?slot))
      \<le> fake_restarts 7 (sv_control (cv_supervisor ?s)) + unat (rr_attempts (rs_runtime slot'))"
    unfolding sample_converged_def [symmetric] by blast
  with reach run slot(3) show ?thesis by auto
qed

text \<open>C35 (error). A start of a service whose dependencies block it is refused with the reason, after
  announcing it, when the sink accepts the announcement: no request reaches the control transport, the
  registry and the recovery slots are as they were, and only the dependency health snapshot and the sink have
  changed.\<close>

theorem blocked_start_issues_nothing:
  assumes "evaluate_start_readiness k (cv_dependencies s) (cv_registry s)
      (Some (cv_dep_health (snd (refresh_dependency_health s)))) = Inr (Blocked reason)"
    and "emit env (concat (format_dependency_blocked_line k reason)) (sv_diagnostics (cv_supervisor s)) = (Inr (), d)"
  shows "request_start fuel env k s =
    Some (Inl (StartBlocked reason),
      (snd (refresh_dependency_health s))\<lparr>cv_supervisor := (cv_supervisor s)\<lparr>sv_diagnostics := d\<rparr>\<rparr>)"
  using assms
  by (simp add: request_start_def fop_bind_def fop_of_def ensure_start_ready_def op_bind_def refresh_dependency_health_def
      start_readiness_of_def op_of_def emit_dependency_blocked_def emit_line_fits converged_line_lengths
      on_supervisor_def emit_diagnostic_def on_diagnostics_def op_map_err_def op_on_def op_err_def)

definition sample_gated :: "(fake_control, unit) converged" where
  "sample_gated = sample_converged\<lparr>cv_dependencies := sample_graph,
     cv_supervisor := (cv_supervisor sample_converged)\<lparr>sv_registry := sample_services\<rparr>\<rparr>"

theorem blocked_start_issues_nothing_witness:
  "\<exists>t. request_start 0 quiet_env 2 sample_gated = Some (Inl (StartBlocked (DependencyNotReady 1 Declared Running)), t) \<and>
     sv_control (cv_supervisor t) = sv_control (cv_supervisor sample_gated)"
proof -
  have "evaluate_start_readiness 2 (cv_dependencies sample_gated) (cv_registry sample_gated)
      (Some (cv_dep_health (snd (refresh_dependency_health sample_gated)))) =
      Inr (Blocked (DependencyNotReady 1 Declared Running))"
    by (simp add: evaluate_start_readiness_def sample_gated_def graph_eval ok_or_def sample_services_def
        tracker_record_def tracker_find_def record_declared_def edge_blocks_start_def)
  from blocked_start_issues_nothing [OF this, of quiet_env] show ?thesis
    by (simp add: quiet_env_def op_ok_def refresh_dependency_health_def)
qed

end
