(* ===== verification/Sup_Termination.thy ===== *)
theory Sup_Termination
  imports Sup_Convergence
begin

text \<open>
  Every operation of the converged supervisor returns. The handler of a lifecycle event calls itself
  through the event drain, so its depth is bounded by what the control transport still holds. The
  contract a transport has to keep for that is the locale \<open>draining_control\<close>: handling a request adds
  no event, and a poll that answers with an event removes one. The in-memory transport of
  \<open>supervisor/src/control.rs\<close> keeps it.
\<close>

named_theorems settles_intros
named_theorems steady_intros

definition returns :: "('s \<Rightarrow> nat) \<Rightarrow> nat \<Rightarrow> ('s, 'e, 'a) fop \<Rightarrow> bool" where
  "returns mu n m \<longleftrightarrow> (\<forall>s. mu s < n \<longrightarrow> (\<exists>r t. m s = Some (r, t) \<and> mu t \<le> mu s))"

definition steady :: "('s \<Rightarrow> nat) \<Rightarrow> ('s, 'e, 'a) op \<Rightarrow> bool" where
  "steady mu m \<longleftrightarrow> (\<forall>s. mu (snd (m s)) \<le> mu s)"

lemma returns_op [settles_intros]: "steady mu m \<Longrightarrow> returns mu n (fop_of m)"
  by (simp add: returns_def steady_def fop_of_def) (metis prod.collapse)

lemma returns_bind [settles_intros]:
  assumes m: "returns mu n m" and f: "\<And>a. returns mu n (f a)"
  shows "returns mu n (fop_bind m f)"
  unfolding returns_def
proof (intro allI impI)
  fix s
  assume s: "mu s < n"
  with m obtain r t where t: "m s = Some (r, t)" "mu t \<le> mu s" unfolding returns_def by blast
  show "\<exists>r t. fop_bind m f s = Some (r, t) \<and> mu t \<le> mu s"
  proof (cases r)
    case (Inr a)
    from t(2) s f [of a] obtain r' u where "f a t = Some (r', u)" "mu u \<le> mu t"
      unfolding returns_def by (meson le_less_trans)
    with t Inr show ?thesis by (auto simp: fop_bind_def)
  qed (use t in \<open>simp add: fop_bind_def\<close>)
qed

lemma returns_for [settles_intros]: "(\<And>x. returns mu n (body x)) \<Longrightarrow> returns mu n (fop_for xs body)"
  by (induction xs) (auto intro!: settles_intros steady_intros simp: steady_def op_ok_def)

text \<open>A body that reads the state before it runs: its steps are bound with the values read.\<close>

lemma returns_body:
  assumes "\<And>s. \<exists>m. f s = m s \<and> returns mu n m"
  shows "returns mu n f"
  using assms unfolding returns_def by metis

lemma returns_at:
  "f s = fop_bind m g s \<Longrightarrow> returns mu n (fop_bind m g) \<Longrightarrow> \<exists>m. f s = m s \<and> returns mu n m"
  "f s = fop_of h s \<Longrightarrow> returns mu n (fop_of h) \<Longrightarrow> \<exists>m. f s = m s \<and> returns mu n m"
  by blast+

lemma steady_simple [steady_intros]: "steady mu (op_ok a)" "steady mu (op_err e)" "steady mu (op_of g)"
  by (simp_all add: steady_def op_ok_def op_err_def op_of_def)

lemma steady_bind [steady_intros]:
  assumes "steady mu m" and "\<And>a. steady mu (f a)"
  shows "steady mu (op_bind m f)"
  unfolding steady_def
proof
  fix s
  obtain r t where t: "m s = (r, t)" by force
  with assms(1) have "mu t \<le> mu s" unfolding steady_def by (metis snd_conv)
  with t assms(2) show "mu (snd (op_bind m f s)) \<le> mu s"
    unfolding steady_def by (cases r) (auto simp: op_bind_def intro: le_trans)
qed

lemma steady_map_err [steady_intros]: "steady mu m \<Longrightarrow> steady mu (op_map_err g m)"
  by (simp add: steady_def op_map_err_def split_beta)

section \<open>The measure of a supervisor\<close>

definition waiting :: "('c \<Rightarrow> nat) \<Rightarrow> ('c, 'd) converged \<Rightarrow> nat" where
  "waiting pending s = pending (sv_control (cv_supervisor s))"

lemma steady_on_supervisor [steady_intros]:
  "steady (\<lambda>sv. pending (sv_control sv)) m \<Longrightarrow> steady (waiting pending) (on_supervisor m)"
  by (simp add: steady_def waiting_def on_supervisor_def op_map_err_def op_on_def split_beta)

lemma steady_fields [steady_intros]:
  "steady (waiting pending) (on_health m)" "steady (waiting pending) (on_dependencies g)"
  "steady (\<lambda>sv. pending (sv_control sv)) (on_registry reg)"
  "steady (\<lambda>sv. pending (sv_control sv)) (on_diagnostics d)"
  by (simp_all add: steady_def waiting_def on_health_def on_dependencies_def on_registry_def on_diagnostics_def
      op_map_err_def op_on_def split_beta)

lemma steady_on_control: "steady pending m \<Longrightarrow> steady (\<lambda>sv. pending (sv_control sv)) (on_control m)"
  by (simp add: steady_def on_control_def op_on_def split_beta)

lemma steady_slots [steady_intros]:
  "steady (waiting pending) (recovery_slot_mut k f)" "steady (waiting pending) (if_slot k g)"
  "steady (waiting pending) refresh_dependency_health" "steady (waiting pending) (start_readiness_of k)"
  by (auto simp: steady_def waiting_def recovery_slot_mut_def if_slot_def refresh_dependency_health_def
      start_readiness_of_def op_of_def split: option.splits prod.splits)

lemma steady_emit_pieces [steady_intros]: "steady (\<lambda>sv. pending (sv_control sv)) (emit_pieces env ps)"
  by (auto simp: emit_pieces_def intro!: steady_intros split: option.splits)

lemma steady_log [steady_intros]: "steady (\<lambda>sv. pending (sv_control sv)) (log_service_state env k)"
  using steady_emit_pieces [of pending env]
  by (auto simp: steady_def log_service_state_def split: option.splits)

lemma steady_emit_line [steady_intros]: "steady (waiting pending) (emit_line env ps)"
  by (auto simp: emit_line_def emit_diagnostic_def intro!: steady_intros split: option.splits)

lemmas emit_defs = emit_failure_def emit_restart_def emit_restarted_def emit_restart_suppressed_def
  emit_health_healthy_def emit_health_unhealthy_def emit_dependency_ready_def emit_dependency_blocked_def

lemma steady_acceptance [steady_intros]:
  "steady (waiting pending) (maybe_emit_acceptance_health env k g)"
  unfolding maybe_emit_acceptance_health_def by (auto simp: emit_defs intro!: steady_intros)

lemma steady_event [steady_intros]:
  "steady (\<lambda>sv. pending (sv_control sv)) (sup_handle_lifecycle_event env e)"
  unfolding sup_handle_lifecycle_event_def by (intro steady_intros)

lemma steady_refused [steady_intros]: "steady (waiting pending) (handle_refused env e)"
  using steady_acceptance [of pending env]
  by (auto simp: steady_def handle_refused_def Let_def op_ok_def)

lemma steady_ensure [steady_intros]: "steady (waiting pending) (ensure_start_ready env k)"
proof -
  have "steady (waiting pending)
      (\<lambda>s. if has_dependencies k (cv_dependencies s) then emit_dependency_ready env k s else op_ok () s)"
    using steady_emit_line [of pending env] by (auto simp: steady_def emit_defs op_ok_def)
  then show ?thesis
    unfolding ensure_start_ready_def emit_dependency_blocked_def
    by (auto intro!: steady_intros split: start_readiness.splits)
qed

section \<open>Draining transports\<close>

locale draining_control =
  fixes env :: "('c, 'd) sup_env" and pending :: "'c \<Rightarrow> nat"
  assumes issue_pending: "pending (snd (issue env q c)) \<le> pending c"
    and poll_pending: "pending (snd (poll env k c)) \<le> pending c"
    and poll_event: "poll env k c = (Inr (Some e), c') \<Longrightarrow> pending c' < pending c"
begin

lemma steady_transport:
  "steady (\<lambda>sv. pending (sv_control sv)) (sup_issue_control env q)"
  "steady (\<lambda>sv. pending (sv_control sv)) (sup_poll_event env k)"
  unfolding sup_issue_control_def sup_poll_event_def
  by (auto intro!: steady_intros steady_on_control simp: steady_def [of pending] issue_pending poll_pending)

lemma steady_restart: "steady (waiting pending) (on_supervisor (issue_restart_sequence env k))"
  unfolding issue_restart_sequence_def by (intro steady_intros steady_transport)

lemma poll_decreases:
  "on_supervisor (sup_poll_event env k) s = (Inr (Some e), t) \<Longrightarrow> waiting pending t < waiting pending s"
  using poll_event [of k "sv_control (cv_supervisor s)"]
  by (cases "poll env k (sv_control (cv_supervisor s))"; cases "fst (poll env k (sv_control (cv_supervisor s)))")
    (auto simp: on_supervisor_def sup_poll_event_def op_map_err_def on_control_def op_on_def waiting_def)

text \<open>A handler that returns whenever fewer than \<open>n\<close> events wait makes the drain return whenever at
  most \<open>n\<close> wait.\<close>

lemma returns_drain_loop:
  assumes H: "\<And>e. returns (waiting pending) n (H e)"
  shows "waiting pending s < Suc n \<Longrightarrow>
    \<exists>r t. drain_loop j env H k s = Some (r, t) \<and> waiting pending t \<le> waiting pending s"
proof (induction j arbitrary: s)
  case (Suc j)
  obtain r t where p: "on_supervisor (sup_poll_event env k) s = (r, t)" by force
  have le: "waiting pending t \<le> waiting pending s"
    using steady_on_supervisor [OF steady_transport(2), of k] p unfolding steady_def by (metis snd_conv)
  show ?case
  proof (cases "\<exists>e. r = Inr (Some e)")
    case True
    then obtain e where r: "r = Inr (Some e)" by blast
    with p have less: "waiting pending t < waiting pending s" using poll_decreases by blast
    with Suc.prems have "waiting pending t < n" by simp
    with H [of e] obtain r' u where u: "H e t = Some (r', u)" "waiting pending u \<le> waiting pending t"
      unfolding returns_def by blast
    with less Suc.prems have "waiting pending u < Suc n" by simp
    from Suc.IH [OF this] u less p r show ?thesis
      by (cases r') (auto simp: fop_bind_def fop_of_def op_ok_def intro: le_trans)
  next
    case False
    with p le show ?thesis
      by (cases r) (auto simp: fop_bind_def fop_of_def op_ok_def split: option.splits)
  qed
qed (simp add: fop_of_def op_ok_def)

lemma returns_drain:
  "(\<And>e. returns (waiting pending) n (H e)) \<Longrightarrow> returns (waiting pending) (Suc n) (drain_events env H k)"
  using returns_drain_loop unfolding returns_def drain_events_def by blast

lemma returns_restart:
  assumes "\<And>e. returns (waiting pending) n (H e)"
  shows "returns (waiting pending) (Suc n) (try_execute_restart env H k a)"
  unfolding try_execute_restart_def emit_defs
  by (auto intro!: settles_intros steady_intros steady_restart returns_drain assms split: start_readiness.splits)

lemma returns_drive:
  assumes "\<And>e. returns (waiting pending) n (H e)"
  shows "returns (waiting pending) (Suc n) (drive_pending_restarts env H)"
proof -
  have "returns (waiting pending) (Suc n) (drive_slot env H i)" for i
  proof (rule returns_body)
    fix s
    show "\<exists>m. drive_slot env H i s = m s \<and> returns (waiting pending) (Suc n) m"
    proof (cases "drive_slot env H i s = fop_ok () s")
      case True
      then show ?thesis by (rule returns_at(2)) (intro settles_intros steady_intros)
    next
      case False
      then obtain k a where "drive_slot env H i s = try_execute_restart env H k a s"
        by (auto simp: drive_slot_def split: option.splits if_splits)
      then show ?thesis using returns_restart [of n H, OF assms] by blast
    qed
  qed
  then have "returns (waiting pending) (Suc n) (fop_for is (drive_slot env H))" for "is"
    by (intro settles_intros)
  then show ?thesis by (intro returns_body) (auto simp: drive_pending_restarts_def)
qed

lemma returns_health_failure:
  assumes "\<And>e. returns (waiting pending) n (H e)"
  shows "returns (waiting pending) (Suc n) (on_health_failure env H f p)"
  by (rule returns_body, rule returns_at(1), simp only: on_health_failure_def Let_def)
    (auto simp: emit_defs intro!: settles_intros steady_intros returns_drive assms
      split: option.splits restart_decision.splits)

lemma returns_spawned:
  assumes "\<And>e. returns (waiting pending) n (H e)"
  shows "returns (waiting pending) (Suc n) (handle_spawned env H e)"
proof -
  define old where "old k s = fst (recovery_slot_mut k (\<lambda>slot. (rs_restart_old_pid slot, slot)) s)"
    for k and s :: "('c, 'd) converged"
  define announce where "announce k pid s = (case old k s of
      Inl _ \<Rightarrow> fop_ok () s
    | Inr old \<Rightarrow>
        fop_bind (fop_of (if_slot k (\<lambda>slot. slot\<lparr>rs_healthy_reports := 0, rs_restart_old_pid := None\<rparr>))) (\<lambda>_.
        case old of
          Some old_pid \<Rightarrow> if old_pid \<noteq> pid then fop_of (emit_restarted env k old_pid pid) else fop_ok ()
        | None \<Rightarrow> fop_ok ()) s)" for k pid and s :: "('c, 'd) converged"
  have announce: "returns (waiting pending) (Suc n) (announce k pid)" for k pid
  proof (rule returns_body)
    fix s
    show "\<exists>m. announce k pid s = m s \<and> returns (waiting pending) (Suc n) m"
      by (cases "old k s"; simp only: announce_def sum.case)
        (rule exI, rule conjI, rule refl, auto simp: emit_defs intro!: settles_intros steady_intros split: option.splits)+
  qed
  show ?thesis
    by (rule returns_body, rule returns_at(1), simp only: handle_spawned_def Let_def old_def [symmetric] announce_def [symmetric])
      (auto intro!: settles_intros steady_intros announce returns_drain assms)
qed

lemma returns_failure:
  assumes "\<And>e. returns (waiting pending) n (H e)"
  shows "returns (waiting pending) (Suc n) (handle_failure env H e)"
  by (rule returns_body, rule returns_at(1), simp only: handle_failure_def Let_def)
    (auto simp: emit_defs intro!: settles_intros steady_intros returns_health_failure assms
      split: failure_outcome.splits)

lemma returns_event_body:
  assumes "\<And>e. returns (waiting pending) n (H e)"
  shows "returns (waiting pending) (Suc n) (handle_event_body env H e)"
proof -
  have accepted: "returns (waiting pending) (Suc n) (handle_accepted env H e)"
    unfolding handle_accepted_def
    by (auto simp: emit_defs intro!: settles_intros steady_intros returns_spawned returns_failure assms
        split: event_kind.splits)
  let ?rest = "\<lambda>s. case on_supervisor (sup_handle_lifecycle_event env e) s of
       (Inr _, s') \<Rightarrow> fop_bind (handle_accepted env H e) (\<lambda>_. drive_pending_restarts env H) s'
     | (Inl (ConvSupervisor (SupRegistry (Transition _))), s') \<Rightarrow> fop_of (handle_refused env e) s'
     | (Inl err, s') \<Rightarrow> Some (Inl err, s')"
  have after: "returns (waiting pending) (Suc n) (fop_bind (handle_accepted env H e) (\<lambda>_. drive_pending_restarts env H))"
    and refused: "returns (waiting pending) (Suc n) (fop_of (handle_refused env e))"
    by (intro settles_intros steady_intros accepted returns_drive assms)+
  have rest: "returns (waiting pending) (Suc n) ?rest"
    unfolding returns_def
  proof (intro allI impI)
    fix s :: "('c, 'd) converged"
    assume s: "waiting pending s < Suc n"
    obtain r t where t: "on_supervisor (sup_handle_lifecycle_event env e) s = (r, t)" by force
    with steady_on_supervisor [OF steady_event [where env = env and e = e], where pending = pending] have le: "waiting pending t \<le> waiting pending s"
      unfolding steady_def by (metis snd_conv)
    with s have "waiting pending t < Suc n" by simp
    with after refused have
      "\<exists>r u. fop_bind (handle_accepted env H e) (\<lambda>_. drive_pending_restarts env H) t = Some (r, u) \<and>
         waiting pending u \<le> waiting pending t"
      "\<exists>r u. fop_of (handle_refused env e) t = Some (r, u) \<and> waiting pending u \<le> waiting pending t"
      unfolding returns_def by blast+
    with t le show "\<exists>r u. ?rest s = Some (r, u) \<and> waiting pending u \<le> waiting pending s"
      by (auto intro: le_trans split: sum.splits converged_error.splits supervisor_error.splits registry_error.splits)
  qed
  show ?thesis
    unfolding handle_event_body_def
    by (intro settles_intros) (auto intro!: steady_intros rest)
qed

lemma returns_handler: "returns (waiting pending) n (handle_lifecycle_event n env e)"
proof (induction n arbitrary: e)
  case (Suc n)
  have "handle_lifecycle_event (Suc n) env e = handle_event_body env (handle_lifecycle_event n env) e"
    by (rule ext) simp
  with returns_event_body [OF Suc.IH] show ?case by simp
qed (simp add: returns_def)

lemma returns_operations:
  "returns (waiting pending) (Suc n) (advance_ticks n env now)"
  "returns (waiting pending) (Suc n) (apply_health_report n env report)"
  "returns (waiting pending) (Suc n) (request_start n env k)"
proof -
  let ?H = "handle_lifecycle_event n env"
  have expiries: "returns (waiting pending) (Suc n) (fop_bind
      (fop_for es (\<lambda>event. on_health_failure env ?H event None)) (\<lambda>_. drive_pending_restarts env ?H))" for es
    by (intro settles_intros returns_health_failure returns_drive returns_handler)
  show "returns (waiting pending) (Suc n) (advance_ticks n env now)"
    unfolding returns_def
  proof (intro allI impI)
    fix s :: "('c, 'd) converged"
    let ?s = "snd (refresh_dependency_health (set_virtual_ticks now s))"
    let ?t = "?s\<lparr>cv_health := snd (poll_timeouts now (cv_health ?s))\<rparr>"
    have t: "waiting pending ?t = waiting pending s"
      by (simp add: waiting_def refresh_dependency_health_def set_virtual_ticks_def)
    assume "waiting pending s < Suc n"
    with expiries [of "take (length (cv_recovery ?s)) (fst (poll_timeouts now (cv_health ?s)))"] t
    show "\<exists>r u. advance_ticks n env now s = Some (r, u) \<and> waiting pending u \<le> waiting pending s"
      unfolding returns_def advance_ticks_def Let_def split_beta by metis
  qed
  show "returns (waiting pending) (Suc n) (apply_health_report n env report)"
    by (rule returns_body, rule returns_at(1), simp only: apply_health_report_def Let_def)
      (auto simp: emit_defs intro!: settles_intros steady_intros returns_health_failure returns_handler
        split: report_outcome.splits)
  show "returns (waiting pending) (Suc n) (request_start n env k)"
    unfolding request_start_def
    by (intro settles_intros steady_intros steady_transport returns_drain returns_handler)
qed

end

section \<open>The in-memory transport\<close>

definition fake_env :: "(string \<Rightarrow> ('d, supervisor_error, unit) op) \<Rightarrow> (fake_control, 'd) sup_env" where
  "fake_env sink = \<lparr>issue = fake_issue_control, poll = fake_poll_event, emit = sink\<rparr>"

definition pending_events :: "fake_control \<Rightarrow> nat" where
  "pending_events c = length (filter (\<lambda>entry. entry \<noteq> None) (fc_pending c))"

lemma take_pending_length:
  "take_pending k xs = Some (e, ys) \<Longrightarrow>
   Suc (length (filter (\<lambda>entry. entry \<noteq> None) ys)) = length (filter (\<lambda>entry. entry \<noteq> None) xs)"
  by (induction k xs arbitrary: ys rule: take_pending.induct) (auto split: if_splits)

interpretation fake: draining_control "fake_env sink" pending_events
  by unfold_locales
    (auto simp: fake_env_def pending_events_def fake_issue_control_def fake_poll_event_def
      dest: take_pending_length split: option.splits prod.splits)

definition sample_fault :: lifecycle_event where
  "sample_fault = lifecycle_event_new sample_instance EventFaulted"

text \<open>C16 (termination). With the in-memory transport, every operation of the converged supervisor that
  handles lifecycle events returns, whatever the sink does, and adds no event to the transport: the
  handler reaches itself only through a poll that takes an event, so a nesting one deeper than the
  number of waiting events is enough.\<close>

theorem supervisor_operations_return:
  assumes "pending_events (sv_control (cv_supervisor s)) \<le> n"
  shows "(\<exists>r t. handle_lifecycle_event (Suc n) (fake_env sink) e s = Some (r, t) \<and>
        pending_events (sv_control (cv_supervisor t)) \<le> n) \<and>
    (\<exists>r t. advance_ticks n (fake_env sink) now s = Some (r, t) \<and>
        pending_events (sv_control (cv_supervisor t)) \<le> n) \<and>
    (\<exists>r t. apply_health_report n (fake_env sink) report s = Some (r, t) \<and>
        pending_events (sv_control (cv_supervisor t)) \<le> n) \<and>
    (\<exists>r t. request_start n (fake_env sink) k s = Some (r, t) \<and>
        pending_events (sv_control (cv_supervisor t)) \<le> n)"
proof -
  have s: "waiting pending_events s < Suc n" and le: "waiting pending_events t \<le> waiting pending_events s \<Longrightarrow>
      pending_events (sv_control (cv_supervisor t)) \<le> n" for t
    using assms by (simp_all add: waiting_def)
  then have ret: "\<exists>r t. m s = Some (r, t) \<and> pending_events (sv_control (cv_supervisor t)) \<le> n"
    if "returns (waiting pending_events) (Suc n) m" for m
    using that unfolding returns_def by blast
  show ?thesis by (intro conjI ret fake.returns_handler fake.returns_operations)
qed

theorem supervisor_operations_return_witness:
  "\<exists>r t. request_start 1 (fake_env (\<lambda>_. op_ok ())) 7
      (converged_new 2 1 (snd (fake_push_pending sample_fault (fake_new 2))) () (liveness_new 5)) = Some (r, t)"
proof -
  let ?s = "converged_new 2 1 (snd (fake_push_pending sample_fault (fake_new 2))) () (liveness_new 5)"
  have "pending_events (sv_control (cv_supervisor ?s)) \<le> 1"
    by (simp add: converged_new_def supervisor_new_def fake_new_def fake_push_pending_def pending_events_def
        numeral_2_eq_2)
  from supervisor_operations_return [OF this] show ?thesis by blast
qed

end
