(* ===== verification/Blk_Device.thy ===== *)
theory Blk_Device
  imports Bytes
begin

text \<open>
  The block layer (\<open>block/src\<close>): device geometry and request validation (\<open>lib.rs\<close>), the in-memory device
  with a live and a durable image (\<open>fake.rs\<close>), and the device that injects power losses and I/O errors
  at counted operations (\<open>fault.rs\<close>). The \<open>BlockDevice\<close> trait is a record of operations; what its
  documentation promises about visibility and durability is the locale \<open>block_device\<close>, which both
  devices keep. A read hands out the bytes it copies into the caller's buffer.
\<close>

section \<open>Geometry and requests\<close>

record block_geometry =
  device_id :: u64
  logical_block_size :: u32
  block_count :: u64
  max_transfer_blocks :: u32
  read_only :: bool
  capacity_bytes :: u64

datatype geometry_error = ZeroBlockSize | ZeroBlockCount | ZeroMaxTransferBlocks | CapacityOverflow

datatype request_error =
    ZeroBlocks
  | TransferTooLarge u32 u32
  | BufferLengthNotAligned nat u32
  | BufferLengthMismatch nat nat
  | RangeOutOfBounds u64 u32 u64
  | BufferLengthOverflow

datatype unsupported_error = WriteProtected | FlushUnsupported

datatype transport_error = DeviceFault | Timeout | ResetRequired

datatype block_io_error =
    InvalidRequest request_error
  | BlkUnsupported unsupported_error
  | Transport transport_error

definition geometry_new :: "u64 \<Rightarrow> u32 \<Rightarrow> u64 \<Rightarrow> u32 \<Rightarrow> bool \<Rightarrow> geometry_error + block_geometry" where
  "geometry_new dev bsize count max_transfer ro =
    (if bsize = 0 then Inl ZeroBlockSize
     else if count = 0 then Inl ZeroBlockCount
     else if max_transfer = 0 then Inl ZeroMaxTransferBlocks
     else rbind (ok_or CapacityOverflow (checked_mul (ucast bsize) count)) (\<lambda>capacity.
       Inr \<lparr>device_id = dev, logical_block_size = bsize, block_count = count, max_transfer_blocks = max_transfer,
            read_only = ro, capacity_bytes = capacity\<rparr>))"

text \<open>The checked operations of \<open>usize\<close>, 64 bits wide.\<close>

definition usize_checked_add :: "nat \<Rightarrow> nat \<Rightarrow> nat option" where
  "usize_checked_add a b = (if a + b < 2 ^ 64 then Some (a + b) else None)"

definition usize_checked_mul :: "nat \<Rightarrow> nat \<Rightarrow> nat option" where
  "usize_checked_mul a b = (if a * b < 2 ^ 64 then Some (a * b) else None)"

definition validate_transfer :: "block_geometry \<Rightarrow> u64 \<Rightarrow> u32 \<Rightarrow> nat \<Rightarrow> bool \<Rightarrow> block_io_error + nat \<times> nat" where
  "validate_transfer g lba blocks buffer_len is_write =
    (if blocks = 0 then Inl (InvalidRequest ZeroBlocks)
     else if blocks > max_transfer_blocks g
     then Inl (InvalidRequest (TransferTooLarge blocks (max_transfer_blocks g)))
     else let bsize = unat (logical_block_size g) in
       if buffer_len mod bsize \<noteq> 0
       then Inl (InvalidRequest (BufferLengthNotAligned buffer_len (logical_block_size g)))
       else rbind (ok_or (InvalidRequest BufferLengthOverflow) (usize_checked_mul bsize (unat blocks))) (\<lambda>expected_len.
         if buffer_len \<noteq> expected_len
         then Inl (InvalidRequest (BufferLengthMismatch buffer_len expected_len))
         else rbind (ok_or (InvalidRequest (RangeOutOfBounds lba blocks (block_count g)))
                (checked_add lba (ucast blocks))) (\<lambda>end_lba.
           if end_lba > block_count g
           then Inl (InvalidRequest (RangeOutOfBounds lba blocks (block_count g)))
           else if is_write \<and> read_only g then Inl (BlkUnsupported WriteProtected)
           else rbind (ok_or (InvalidRequest BufferLengthOverflow)
                  (checked_mul lba (ucast (logical_block_size g)))) (\<lambda>byte_start.
             rbind (ok_or (InvalidRequest BufferLengthOverflow) (usize_checked_add (unat byte_start) expected_len))
               (\<lambda>byte_end. Inr (unat byte_start, byte_end))))))"

definition validate_read :: "block_geometry \<Rightarrow> u64 \<Rightarrow> u32 \<Rightarrow> nat \<Rightarrow> block_io_error + nat \<times> nat" where
  "validate_read g lba blocks buffer_len = validate_transfer g lba blocks buffer_len False"

definition validate_write :: "block_geometry \<Rightarrow> u64 \<Rightarrow> u32 \<Rightarrow> nat \<Rightarrow> block_io_error + nat \<times> nat" where
  "validate_write g lba blocks buffer_len = validate_transfer g lba blocks buffer_len True"

text \<open>A geometry that \<open>BlockGeometry::new\<close> gives.\<close>

definition geometry_ok :: "block_geometry \<Rightarrow> bool" where
  "geometry_ok g \<longleftrightarrow> logical_block_size g \<noteq> 0 \<and> block_count g \<noteq> 0 \<and> max_transfer_blocks g \<noteq> 0 \<and>
     unat (capacity_bytes g) = unat (logical_block_size g) * unat (block_count g)"

text \<open>What a transfer of the blocks needs; the last condition is for writes.\<close>

definition transfer_fits :: "block_geometry \<Rightarrow> u64 \<Rightarrow> u32 \<Rightarrow> nat \<Rightarrow> bool \<Rightarrow> bool" where
  "transfer_fits g lba blocks buffer_len is_write \<longleftrightarrow>
     0 < blocks \<and> blocks \<le> max_transfer_blocks g \<and> buffer_len = unat (logical_block_size g) * unat blocks \<and>
     unat lba + unat blocks \<le> unat (block_count g) \<and> \<not> (is_write \<and> read_only g)"

lemma unat_ucast_up [simp]: "LENGTH('a) \<le> LENGTH('b) \<Longrightarrow> unat (ucast w :: 'b::len word) = unat w" for w :: "'a::len word"
  by (simp add: unsigned_ucast_eq take_bit_nat_eq_self unsigned_less [THEN order_less_le_trans])

lemma geometry_new_ok: "geometry_new dev bsize count mt ro = Inr g \<Longrightarrow> geometry_ok g"
  by (auto simp: geometry_new_def geometry_ok_def checked_mul_Some result_simps split: if_splits)

lemma validate_transfer_eq:
  assumes "geometry_ok g" and "transfer_fits g lba blocks n w"
  shows "validate_transfer g lba blocks n w =
    Inr (unat lba * unat (logical_block_size g), unat lba * unat (logical_block_size g) + n)"
    and "unat lba * unat (logical_block_size g) + n \<le> unat (capacity_bytes g)"
proof -
  let ?bs = "unat (logical_block_size g)"
  from assms(2) have n: "n = ?bs * unat blocks" and fit: "unat lba + unat blocks \<le> unat (block_count g)"
    and pos: "0 < blocks" "blocks \<le> max_transfer_blocks g" "\<not> (w \<and> read_only g)"
    by (auto simp: transfer_fits_def)
  have bsp: "0 < ?bs" using assms(1) by (simp add: geometry_ok_def unat_gt_0)
  from fit have "?bs * (unat lba + unat blocks) \<le> ?bs * unat (block_count g)" by (rule mult_le_mono2)
  then have range: "unat lba * ?bs + n \<le> unat (capacity_bytes g)"
    using assms(1) n by (simp add: geometry_ok_def algebra_simps)
  then show "unat lba * ?bs + n \<le> unat (capacity_bytes g)" .
  have cap: "unat (capacity_bytes g) < 2 ^ 64" using unat_bound [of "capacity_bytes g"] by simp
  have count: "unat (block_count g) < 2 ^ 64" using unat_bound [of "block_count g"] by simp
  have "unat lba + unat blocks < 2 ^ 64" using fit count by linarith
  then obtain e where e': "checked_add lba (ucast blocks) = Some e" by (simp add: checked_add_def)
  then have e: "checked_add lba (ucast blocks) = Some e" "unat e = unat lba + unat blocks"
    by (auto simp: checked_add_Some [of lba])
  have "unat lba * ?bs < 2 ^ 64" using range cap by linarith
  then obtain b where b': "checked_mul lba (ucast (logical_block_size g)) = Some b" by (simp add: checked_mul_def)
  then have b: "checked_mul lba (ucast (logical_block_size g)) = Some b" "unat b = unat lba * ?bs"
    by (auto simp: checked_mul_Some [of lba])
  have m: "usize_checked_mul ?bs (unat blocks) = Some n" "usize_checked_add (unat b) n = Some (unat lba * ?bs + n)"
    using range cap n b(2) by (auto simp: usize_checked_mul_def usize_checked_add_def)
  show "validate_transfer g lba blocks n w = Inr (unat lba * ?bs, unat lba * ?bs + n)"
    using pos fit e b m n by (auto simp: validate_transfer_def ok_or_def Let_def word_less_nat_alt word_le_nat_alt not_less)
qed

lemma validate_transfer_Inr:
  assumes "validate_transfer g lba blocks n w = Inr r"
  shows "transfer_fits g lba blocks n w"
  using assms
  by (auto simp: validate_transfer_def transfer_fits_def Let_def ok_or_Inr rbind_Inr checked_add_Some
      usize_checked_mul_def word_less_nat_alt word_le_nat_alt not_less unat_gt_0 split: if_splits)

lemma validate_transfer_overflow:
  assumes "validate_transfer g lba blocks n w = Inl (InvalidRequest BufferLengthOverflow)"
  shows "transfer_fits g lba blocks n w"
proof -
  have "unat (logical_block_size g) * unat blocks < 2 ^ 32 * 2 ^ 32"
    by (rule mult_strict_mono) (use unat_bound [of "logical_block_size g"] unat_bound [of blocks] in auto)
  then have "usize_checked_mul (unat (logical_block_size g)) (unat blocks) =
      Some (unat (logical_block_size g) * unat blocks)"
    by (simp add: usize_checked_mul_def)
  with assms show ?thesis
    by (auto simp: validate_transfer_def transfer_fits_def Let_def result_simps checked_add_Some
        word_less_nat_alt word_le_nat_alt not_less unat_gt_0 split: if_splits)
qed

text \<open>C37 (bounds). On a geometry that was accepted, a transfer is accepted exactly when it names at least
  one and at most the maximal number of blocks, its buffer is exactly as long as they are, they lie on
  the device and a write is allowed; the byte range is then the one of these blocks and lies within the
  device. A refusal is never one of the overflow errors.\<close>

theorem validate_transfer_exact:
  assumes "geometry_new dev bsize count mt ro = Inr g"
  shows "(case validate_transfer g lba blocks n w of
      Inr (a, b) \<Rightarrow> transfer_fits g lba blocks n w \<and> a = unat lba * unat bsize \<and> b = a + n \<and>
        b \<le> unat bsize * unat count
    | Inl e \<Rightarrow> \<not> transfer_fits g lba blocks n w \<and> e \<noteq> InvalidRequest BufferLengthOverflow)"
proof (cases "validate_transfer g lba blocks n w")
  case (Inr r)
  note g = geometry_new_ok [OF assms]
  from Inr have fits: "transfer_fits g lba blocks n w" by (rule validate_transfer_Inr)
  have "logical_block_size g = bsize" "unat (capacity_bytes g) = unat bsize * unat count"
    using assms by (auto simp: geometry_new_def checked_mul_Some result_simps split: if_splits)
  with validate_transfer_eq [OF g fits] Inr fits show ?thesis by auto
next
  case (Inl e)
  note g = geometry_new_ok [OF assms]
  have no: "\<not> transfer_fits g lba blocks n w" using validate_transfer_eq(1) [OF g, of lba blocks n w] Inl by auto
  then have "e \<noteq> InvalidRequest BufferLengthOverflow" using Inl validate_transfer_overflow by auto
  with no Inl show ?thesis by simp
qed

theorem validate_transfer_exact_witness:
  "(case geometry_new 7 512 8 4 False of Inl _ \<Rightarrow> False | Inr g \<Rightarrow> validate_transfer g 2 3 1536 True = Inr (1024, 2560))"
proof -
  obtain g where g: "geometry_new 7 512 8 4 False = Inr g" and "transfer_fits g 2 3 1536 True"
    by (simp add: geometry_new_def checked_mul_def ok_or_def transfer_fits_def)
  with validate_transfer_exact [OF g, of 2 3 1536 True] show ?thesis by (auto split: sum.splits prod.splits)
qed

section \<open>The device interface\<close>

record 'd block_ops =
  dev_geometry :: "'d \<Rightarrow> block_geometry"
  read_blocks :: "u64 \<Rightarrow> u32 \<Rightarrow> nat \<Rightarrow> 'd \<Rightarrow> (block_io_error + bytes) \<times> 'd"
  write_blocks :: "u64 \<Rightarrow> u32 \<Rightarrow> bytes \<Rightarrow> 'd \<Rightarrow> (block_io_error + unit) \<times> 'd"
  dev_flush :: "'d \<Rightarrow> (block_io_error + unit) \<times> 'd"

abbreviation "block_bytes g \<equiv> unat (logical_block_size g)"

text \<open>The bytes of consecutive blocks of an image, and the image with blocks replaced.\<close>

definition image_blocks :: "block_geometry \<Rightarrow> bytes \<Rightarrow> u64 \<Rightarrow> nat \<Rightarrow> bytes" where
  "image_blocks g img lba n = slice img (unat lba * block_bytes g) (unat lba * block_bytes g + n)"

definition image_write :: "block_geometry \<Rightarrow> bytes \<Rightarrow> u64 \<Rightarrow> bytes \<Rightarrow> bytes" where
  "image_write g img lba buf = write_at img (unat lba * block_bytes g) buf"

text \<open>What the documentation of \<open>BlockDevice\<close> promises. \<open>live\<close> is what reads see and \<open>durable\<close> what
  survives a crash. A write that succeeds is visible; a write may become durable before the next flush,
  also one that fails after it reached the medium; a flush that succeeds makes everything durable.\<close>

locale block_device =
  fixes ops :: "'d block_ops" and live durable :: "'d \<Rightarrow> bytes" and ok :: "'d \<Rightarrow> bool"
  assumes images: "ok d \<Longrightarrow> geometry_ok (dev_geometry ops d) \<and>
      length (live d) = unat (capacity_bytes (dev_geometry ops d)) \<and>
      length (durable d) = unat (capacity_bytes (dev_geometry ops d))"
    and read_law: "ok d \<Longrightarrow> read_blocks ops lba n len d = (r, d') \<Longrightarrow>
      ok d' \<and> dev_geometry ops d' = dev_geometry ops d \<and> live d' = live d \<and> durable d' = durable d \<and>
      (\<forall>bs. r = Inr bs \<longrightarrow> transfer_fits (dev_geometry ops d) lba n len False \<and>
        bs = image_blocks (dev_geometry ops d) (live d) lba len)"
    and write_law: "ok d \<Longrightarrow> write_blocks ops lba n buf d = (w, d') \<Longrightarrow>
      ok d' \<and> dev_geometry ops d' = dev_geometry ops d \<and>
      (transfer_fits (dev_geometry ops d) lba n (length buf) True \<and>
         live d' = image_write (dev_geometry ops d) (live d) lba buf \<and>
         (durable d' = durable d \<or> durable d' = image_write (dev_geometry ops d) (durable d) lba buf) \<or>
       (\<exists>e. w = Inl e) \<and> live d' = live d \<and> durable d' = durable d)"
    and flush_law: "ok d \<Longrightarrow> dev_flush ops d = (f, d') \<Longrightarrow>
      ok d' \<and> dev_geometry ops d' = dev_geometry ops d \<and> live d' = live d \<and>
      (durable d' = live d \<or> (\<exists>e. f = Inl e) \<and> durable d' = durable d)"

text \<open>A device on which no fault is armed performs every request that fits.\<close>

locale reliable_device = block_device +
  fixes calm :: "'d \<Rightarrow> bool"
  assumes calm_read: "ok d \<Longrightarrow> calm d \<Longrightarrow> transfer_fits (dev_geometry ops d) lba n len False \<Longrightarrow>
      \<exists>bs d'. read_blocks ops lba n len d = (Inr bs, d') \<and> calm d'"
    and calm_write: "ok d \<Longrightarrow> calm d \<Longrightarrow> transfer_fits (dev_geometry ops d) lba n (length buf) True \<Longrightarrow>
      \<exists>d'. write_blocks ops lba n buf d = (Inr (), d') \<and> calm d'"
    and calm_flush: "ok d \<Longrightarrow> calm d \<Longrightarrow> \<exists>d'. dev_flush ops d = (Inr (), d') \<and> calm d'"

section \<open>The in-memory device\<close>

record fake_device =
  fd_geometry :: block_geometry
  fd_live :: bytes
  fd_durable :: bytes
  fd_flush_count :: u64

datatype fake_device_error = CapacityExceedsHostAddressSpace | DurableBytesLengthMismatch nat nat

definition fake_device_new :: "block_geometry \<Rightarrow> fake_device_error + fake_device" where
  "fake_device_new g =
    (let len = unat (capacity_bytes g) in
     Inr \<lparr>fd_geometry = g, fd_live = replicate len 0, fd_durable = replicate len 0, fd_flush_count = 0\<rparr>)"

definition from_durable_bytes :: "block_geometry \<Rightarrow> bytes \<Rightarrow> fake_device_error + fake_device" where
  "from_durable_bytes g durable =
     rbind (fake_device_new g) (\<lambda>d.
       if length (fd_durable d) \<noteq> length durable
       then Inl (DurableBytesLengthMismatch (length (fd_durable d)) (length durable))
       else Inr (d\<lparr>fd_live := durable, fd_durable := durable\<rparr>))"

definition persist_blocks :: "u64 \<Rightarrow> u32 \<Rightarrow> fake_device \<Rightarrow> (block_io_error + unit) \<times> fake_device" where
  "persist_blocks lba blocks d =
    (case validate_read (fd_geometry d) lba blocks (unat blocks * block_bytes (fd_geometry d)) of
       Inl e \<Rightarrow> (Inl e, d)
     | Inr (a, b) \<Rightarrow> (Inr (), d\<lparr>fd_durable := write_at (fd_durable d) a (slice (fd_live d) a b)\<rparr>))"

definition rebooted :: "fake_device \<Rightarrow> fake_device_error + fake_device" where
  "rebooted d = from_durable_bytes (fd_geometry d) (fd_durable d)"

definition fake_read_blocks :: "u64 \<Rightarrow> u32 \<Rightarrow> nat \<Rightarrow> fake_device \<Rightarrow> (block_io_error + bytes) \<times> fake_device" where
  "fake_read_blocks lba blocks len d =
    (case validate_read (fd_geometry d) lba blocks len of
       Inl e \<Rightarrow> (Inl e, d)
     | Inr (a, b) \<Rightarrow> (Inr (slice (fd_live d) a b), d))"

definition fake_write_blocks :: "u64 \<Rightarrow> u32 \<Rightarrow> bytes \<Rightarrow> fake_device \<Rightarrow> (block_io_error + unit) \<times> fake_device" where
  "fake_write_blocks lba blocks buffer d =
    (case validate_write (fd_geometry d) lba blocks (length buffer) of
       Inl e \<Rightarrow> (Inl e, d)
     | Inr (a, b) \<Rightarrow> (Inr (), d\<lparr>fd_live := write_at (fd_live d) a buffer\<rparr>))"

definition fake_flush :: "fake_device \<Rightarrow> (block_io_error + unit) \<times> fake_device" where
  "fake_flush d = (Inr (), d\<lparr>fd_durable := fd_live d, fd_flush_count := fd_flush_count d + 1\<rparr>)"

definition fake_ops :: "fake_device block_ops" where
  "fake_ops = \<lparr>dev_geometry = fd_geometry, read_blocks = fake_read_blocks, write_blocks = fake_write_blocks,
     dev_flush = fake_flush\<rparr>"

definition fake_ok :: "fake_device \<Rightarrow> bool" where
  "fake_ok d \<longleftrightarrow> geometry_ok (fd_geometry d) \<and> length (fd_live d) = unat (capacity_bytes (fd_geometry d)) \<and>
     length (fd_durable d) = unat (capacity_bytes (fd_geometry d))"

lemma length_image_write:
  assumes "geometry_ok g" and "transfer_fits g lba n (length buf) w" and "length img = unat (capacity_bytes g)"
  shows "length (image_write g img lba buf) = unat (capacity_bytes g)"
  using validate_transfer_eq(2) [OF assms(1,2)] assms(3) by (simp add: image_write_def)

lemma fake_read_eq:
  assumes "geometry_ok (fd_geometry d)"
  shows "fake_read_blocks lba n len d = (r, d') \<Longrightarrow> d' = d \<and>
    (\<forall>bs. r = Inr bs \<longrightarrow> transfer_fits (fd_geometry d) lba n len False \<and> bs = image_blocks (fd_geometry d) (fd_live d) lba len)"
    and "transfer_fits (fd_geometry d) lba n len False \<Longrightarrow>
      fake_read_blocks lba n len d = (Inr (image_blocks (fd_geometry d) (fd_live d) lba len), d)"
proof -
  note eq = validate_transfer_eq(1) [OF assms, of lba n len False]
  show "fake_read_blocks lba n len d = (Inr (image_blocks (fd_geometry d) (fd_live d) lba len), d)"
    if "transfer_fits (fd_geometry d) lba n len False"
    using that eq by (simp add: fake_read_blocks_def validate_read_def image_blocks_def)
  show "d' = d \<and> (\<forall>bs. r = Inr bs \<longrightarrow> transfer_fits (fd_geometry d) lba n len False \<and>
      bs = image_blocks (fd_geometry d) (fd_live d) lba len)"
    if "fake_read_blocks lba n len d = (r, d')"
    using that eq validate_transfer_Inr [of "fd_geometry d" lba n len False]
    by (auto simp: fake_read_blocks_def validate_read_def image_blocks_def split: sum.splits prod.splits)
qed

lemma fake_write_eq:
  assumes "geometry_ok (fd_geometry d)"
  shows "transfer_fits (fd_geometry d) lba n (length buf) True \<Longrightarrow>
      fake_write_blocks lba n buf d = (Inr (), d\<lparr>fd_live := image_write (fd_geometry d) (fd_live d) lba buf\<rparr>)"
    and "\<not> transfer_fits (fd_geometry d) lba n (length buf) True \<Longrightarrow> \<exists>e. fake_write_blocks lba n buf d = (Inl e, d)"
  using validate_transfer_eq(1) [OF assms, of lba n "length buf" True]
    validate_transfer_Inr [of "fd_geometry d" lba n "length buf" True]
  by (auto simp: fake_write_blocks_def validate_write_def image_write_def split: sum.splits)

lemma fake_write_law:
  assumes "fake_ok d" and "fake_write_blocks lba n buf d = (r, d')"
  shows "fake_ok d' \<and> fd_geometry d' = fd_geometry d \<and> fd_durable d' = fd_durable d \<and>
    (r = Inr () \<and> transfer_fits (fd_geometry d) lba n (length buf) True \<and>
       fd_live d' = image_write (fd_geometry d) (fd_live d) lba buf \<or> (\<exists>e. r = Inl e) \<and> fd_live d' = fd_live d)"
proof -
  from assms(1) have g: "geometry_ok (fd_geometry d)" by (simp add: fake_ok_def)
  show ?thesis
  proof (cases "transfer_fits (fd_geometry d) lba n (length buf) True")
    case True
    with fake_write_eq(1) [OF g True] length_image_write [OF g True, of "fd_live d"] assms
    show ?thesis by (auto simp: fake_ok_def)
  next
    case False
    with fake_write_eq(2) [OF g False] assms show ?thesis by auto
  qed
qed

text \<open>Persisting the blocks that were just written makes their bytes durable.\<close>

lemma persist_law:
  assumes "fake_ok d" and "transfer_fits (fd_geometry d) lba n (length buf) w"
    and "fd_live d = image_write (fd_geometry d) img lba buf" and "length img = unat (capacity_bytes (fd_geometry d))"
  shows "persist_blocks lba n d = (Inr (), d\<lparr>fd_durable := image_write (fd_geometry d) (fd_durable d) lba buf\<rparr>)"
proof -
  from assms(1) have g: "geometry_ok (fd_geometry d)" by (simp add: fake_ok_def)
  from assms(2) have len: "unat n * block_bytes (fd_geometry d) = length buf" by (simp add: transfer_fits_def)
  from assms(2) have fits: "transfer_fits (fd_geometry d) lba n (length buf) False" by (simp add: transfer_fits_def)
  from validate_transfer_eq [OF g fits] assms(3,4) show ?thesis
    by (simp add: persist_blocks_def validate_read_def len image_write_def)
qed

interpretation fake_dev: reliable_device fake_ops fd_live fd_durable fake_ok "\<lambda>_. True"
proof
  show "fake_ok d' \<and> dev_geometry fake_ops d' = dev_geometry fake_ops d \<and> fd_live d' = fd_live d \<and>
      fd_durable d' = fd_durable d \<and>
      (\<forall>bs. r = Inr bs \<longrightarrow> transfer_fits (dev_geometry fake_ops d) lba n len False \<and>
        bs = image_blocks (dev_geometry fake_ops d) (fd_live d) lba len)"
    if "fake_ok d" "read_blocks fake_ops lba n len d = (r, d')" for d d' lba n len r
    using that fake_read_eq(1) [of d lba n len r d'] by (auto simp: fake_ok_def fake_ops_def)
  show "fake_ok d' \<and> dev_geometry fake_ops d' = dev_geometry fake_ops d \<and>
      (transfer_fits (dev_geometry fake_ops d) lba n (length buf) True \<and>
         fd_live d' = image_write (dev_geometry fake_ops d) (fd_live d) lba buf \<and>
         (fd_durable d' = fd_durable d \<or> fd_durable d' = image_write (dev_geometry fake_ops d) (fd_durable d) lba buf) \<or>
       (\<exists>e. w = Inl e) \<and> fd_live d' = fd_live d \<and> fd_durable d' = fd_durable d)"
    if "fake_ok d" "write_blocks fake_ops lba n buf d = (w, d')" for d d' lba n buf w
    using fake_write_law [of d lba n buf w d'] that by (auto simp: fake_ops_def)
qed (auto simp: fake_ok_def fake_ops_def fake_flush_def fake_read_eq(2) fake_write_eq(1))

section \<open>Fault injection\<close>

datatype fault_trigger = AfterWrite u64 | AfterFlush u64

datatype fault_action = PowerLoss | IoError block_io_error

record fault_plan =
  fp_trigger :: fault_trigger
  fp_action :: fault_action

record fault_state =
  fs_write_count :: u64
  fs_flush_count :: u64
  fs_plan :: "fault_plan option"
  fs_powered_off :: bool
  fs_early_persist :: "u64 list"

definition controller_new :: fault_state where
  "controller_new = \<lparr>fs_write_count = 0, fs_flush_count = 0, fs_plan = None, fs_powered_off = False, fs_early_persist = []\<rparr>"

definition arm :: "fault_plan \<Rightarrow> fault_state \<Rightarrow> fault_state" where
  "arm plan s = s\<lparr>fs_plan := Some plan, fs_powered_off := False\<rparr>"

definition set_early_persist_writes :: "u64 list \<Rightarrow> fault_state \<Rightarrow> fault_state" where
  "set_early_persist_writes writes s = s\<lparr>fs_early_persist := writes\<rparr>"

definition power_loss_error :: block_io_error where
  "power_loss_error = Transport DeviceFault"

definition ensure_online :: "fault_state \<Rightarrow> block_io_error + unit" where
  "ensure_online s = (if fs_powered_off s then Inl power_loss_error else Inr ())"

definition next_write_plan :: "fault_state \<Rightarrow> (block_io_error + u64 \<times> bool \<times> fault_action option) \<times> fault_state" where
  "next_write_plan s =
    (if fs_powered_off s then (Inl power_loss_error, s)
     else let count = fs_write_count s + 1; s = s\<lparr>fs_write_count := count\<rparr>;
              early = count \<in> set (fs_early_persist s) in
       case fs_plan s of
         None \<Rightarrow> (Inr (count, early, None), s)
       | Some plan \<Rightarrow>
           if fp_trigger plan \<noteq> AfterWrite count then (Inr (count, early, None), s)
           else (Inr (count, early, Some (fp_action plan)), s\<lparr>fs_plan := None\<rparr>))"

definition next_flush_plan :: "fault_state \<Rightarrow> (block_io_error + fault_action option) \<times> fault_state" where
  "next_flush_plan s =
    (if fs_powered_off s then (Inl power_loss_error, s)
     else let count = fs_flush_count s + 1; s = s\<lparr>fs_flush_count := count\<rparr> in
       case fs_plan s of
         None \<Rightarrow> (Inr None, s)
       | Some plan \<Rightarrow>
           if fp_trigger plan \<noteq> AfterFlush count then (Inr None, s)
           else (Inr (Some (fp_action plan)), s\<lparr>fs_plan := None\<rparr>))"

definition power_off :: "fault_state \<Rightarrow> fault_state" where
  "power_off s = s\<lparr>fs_powered_off := True\<rparr>"

record fault_device =
  fi_inner :: fake_device
  fi_controller :: fault_state

definition fault_device_new :: "fake_device \<Rightarrow> fault_device" where
  "fault_device_new inner = \<lparr>fi_inner = inner, fi_controller = controller_new\<rparr>"

definition rebooted_from_durable :: "fault_device \<Rightarrow> fake_device_error + fault_device" where
  "rebooted_from_durable d = rbind (rebooted (fi_inner d)) (\<lambda>inner. Inr (fault_device_new inner))"

definition fault_read_blocks :: "u64 \<Rightarrow> u32 \<Rightarrow> nat \<Rightarrow> fault_device \<Rightarrow> (block_io_error + bytes) \<times> fault_device" where
  "fault_read_blocks lba blocks len d =
    (case ensure_online (fi_controller d) of
       Inl e \<Rightarrow> (Inl e, d)
     | Inr _ \<Rightarrow> (case fake_read_blocks lba blocks len (fi_inner d) of (r, inner) \<Rightarrow> (r, d\<lparr>fi_inner := inner\<rparr>)))"

text \<open>The write to the inner device followed, where the write is to persist early, by the copy to its
  durable image.\<close>

definition write_through :: "u64 \<Rightarrow> u32 \<Rightarrow> bytes \<Rightarrow> bool \<Rightarrow> fault_device \<Rightarrow> (block_io_error + unit) \<times> fault_device" where
  "write_through lba blocks buffer early d =
    (case fake_write_blocks lba blocks buffer (fi_inner d) of
       (Inl e, inner) \<Rightarrow> (Inl e, d\<lparr>fi_inner := inner\<rparr>)
     | (Inr _, inner) \<Rightarrow>
         if early then (case persist_blocks lba blocks inner of (r, inner) \<Rightarrow> (r, d\<lparr>fi_inner := inner\<rparr>))
         else (Inr (), d\<lparr>fi_inner := inner\<rparr>))"

definition fault_write_blocks :: "u64 \<Rightarrow> u32 \<Rightarrow> bytes \<Rightarrow> fault_device \<Rightarrow> (block_io_error + unit) \<times> fault_device" where
  "fault_write_blocks lba blocks buffer d =
    (case next_write_plan (fi_controller d) of
       (Inl e, c) \<Rightarrow> (Inl e, d\<lparr>fi_controller := c\<rparr>)
     | (Inr (_, early, action), c) \<Rightarrow>
         (let d = d\<lparr>fi_controller := c\<rparr> in
          case action of
            Some (IoError error) \<Rightarrow> (Inl error, d)
          | Some PowerLoss \<Rightarrow>
              (case write_through lba blocks buffer early d of
                 (Inl e, d) \<Rightarrow> (Inl e, d)
               | (Inr _, d) \<Rightarrow> (Inl power_loss_error, d\<lparr>fi_controller := power_off (fi_controller d)\<rparr>))
          | None \<Rightarrow> write_through lba blocks buffer early d))"

definition fault_flush :: "fault_device \<Rightarrow> (block_io_error + unit) \<times> fault_device" where
  "fault_flush d =
    (case next_flush_plan (fi_controller d) of
       (Inl e, c) \<Rightarrow> (Inl e, d\<lparr>fi_controller := c\<rparr>)
     | (Inr action, c) \<Rightarrow>
         (let d = d\<lparr>fi_controller := c\<rparr> in
          case action of
            Some (IoError error) \<Rightarrow> (Inl error, d)
          | Some PowerLoss \<Rightarrow>
              (case fake_flush (fi_inner d) of
                 (Inl e, inner) \<Rightarrow> (Inl e, d\<lparr>fi_inner := inner\<rparr>)
               | (Inr _, inner) \<Rightarrow>
                   (Inl power_loss_error, d\<lparr>fi_inner := inner, fi_controller := power_off (fi_controller d)\<rparr>))
          | None \<Rightarrow> (case fake_flush (fi_inner d) of (r, inner) \<Rightarrow> (r, d\<lparr>fi_inner := inner\<rparr>))))"

definition fault_ops :: "fault_device block_ops" where
  "fault_ops = \<lparr>dev_geometry = (\<lambda>d. fd_geometry (fi_inner d)), read_blocks = fault_read_blocks,
     write_blocks = fault_write_blocks, dev_flush = fault_flush\<rparr>"

definition fault_ok :: "fault_device \<Rightarrow> bool" where
  "fault_ok d \<longleftrightarrow> fake_ok (fi_inner d)"

definition fault_calm :: "fault_device \<Rightarrow> bool" where
  "fault_calm d \<longleftrightarrow> fs_plan (fi_controller d) = None \<and> \<not> fs_powered_off (fi_controller d)"

lemma write_through_law:
  assumes "fault_ok d" and "write_through lba n buf early d = (r, d')"
  shows "fault_ok d' \<and> fd_geometry (fi_inner d') = fd_geometry (fi_inner d) \<and> fi_controller d' = fi_controller d \<and>
    (r = Inr () \<and> transfer_fits (fd_geometry (fi_inner d)) lba n (length buf) True \<and>
       fd_live (fi_inner d') = image_write (fd_geometry (fi_inner d)) (fd_live (fi_inner d)) lba buf \<and>
       fd_durable (fi_inner d') = (if early then image_write (fd_geometry (fi_inner d)) (fd_durable (fi_inner d)) lba buf
         else fd_durable (fi_inner d)) \<or>
     (\<exists>e. r = Inl e) \<and> \<not> transfer_fits (fd_geometry (fi_inner d)) lba n (length buf) True \<and> fi_inner d' = fi_inner d)"
proof -
  let ?d = "fi_inner d"
  from assms(1) have ok: "fake_ok ?d" and g: "geometry_ok (fd_geometry ?d)" by (simp_all add: fault_ok_def fake_ok_def)
  show ?thesis
  proof (cases "transfer_fits (fd_geometry ?d) lba n (length buf) True")
    case True
    let ?i = "?d\<lparr>fd_live := image_write (fd_geometry ?d) (fd_live ?d) lba buf\<rparr>"
    have w: "fake_write_blocks lba n buf ?d = (Inr (), ?i)" by (rule fake_write_eq(1) [OF g True])
    with fake_write_law [OF ok this] have oki: "fake_ok ?i" by simp
    have "persist_blocks lba n ?i = (Inr (), ?i\<lparr>fd_durable := image_write (fd_geometry ?i) (fd_durable ?i) lba buf\<rparr>)"
      by (rule persist_law [OF oki, where w = True and img = "fd_live ?d"]) (use True ok in \<open>simp_all add: fake_ok_def\<close>)
    moreover have "fake_ok (?i\<lparr>fd_durable := image_write (fd_geometry ?i) (fd_durable ?i) lba buf\<rparr>)"
      using oki length_image_write [OF g True, of "fd_durable ?d"] ok by (simp add: fake_ok_def)
    ultimately show ?thesis using assms(2) True w oki
      by (auto simp: write_through_def fault_ok_def split: if_splits)
  next
    case False
    with fake_write_eq(2) [OF g False] assms show ?thesis by (auto simp: write_through_def fault_ok_def)
  qed
qed

lemma fault_write_law:
  assumes "fault_ok d" and "fault_write_blocks lba n buf d = (r, d')"
  shows "fault_ok d' \<and> fd_geometry (fi_inner d') = fd_geometry (fi_inner d) \<and>
    (transfer_fits (fd_geometry (fi_inner d)) lba n (length buf) True \<and>
       fd_live (fi_inner d') = image_write (fd_geometry (fi_inner d)) (fd_live (fi_inner d)) lba buf \<and>
       (fd_durable (fi_inner d') = fd_durable (fi_inner d) \<or>
        fd_durable (fi_inner d') = image_write (fd_geometry (fi_inner d)) (fd_durable (fi_inner d)) lba buf) \<or>
     (\<exists>e. r = Inl e) \<and> fd_live (fi_inner d') = fd_live (fi_inner d) \<and> fd_durable (fi_inner d') = fd_durable (fi_inner d))"
proof -
  obtain p c where p: "next_write_plan (fi_controller d) = (p, c)" by force
  let ?d = "d\<lparr>fi_controller := c\<rparr>"
  have ok: "fault_ok ?d" using assms(1) by (simp add: fault_ok_def)
  show ?thesis
  proof (cases p)
    case (Inr t)
    obtain k early action where t: "t = (k, early, action)" by (cases t)
    obtain r1 d1 where w: "write_through lba n buf early ?d = (r1, d1)" by force
    consider "action = None" | "action = Some PowerLoss" | e where "action = Some (IoError e)"
      by (metis fault_action.exhaust option.exhaust)
    then show ?thesis
    proof cases
      case 1
      with assms p Inr t w have "r = r1" "d' = d1" by (simp_all add: fault_write_blocks_def Let_def)
      with write_through_law [OF ok w] show ?thesis by (auto split: if_splits)
    next
      case 2
      with assms p Inr t w have "\<exists>e. r = Inl e" "fi_inner d' = fi_inner d1"
        by (auto simp: fault_write_blocks_def Let_def split: sum.splits)
      with write_through_law [OF ok w] show ?thesis by (auto simp: fault_ok_def split: if_splits)
    next
      case 3
      with assms p Inr t show ?thesis by (auto simp: fault_write_blocks_def Let_def fault_ok_def)
    qed
  qed (use assms p in \<open>auto simp: fault_write_blocks_def fault_ok_def\<close>)
qed

interpretation fault_dev: reliable_device fault_ops "\<lambda>d. fd_live (fi_inner d)" "\<lambda>d. fd_durable (fi_inner d)" fault_ok fault_calm
proof
  show "fault_ok d' \<and> dev_geometry fault_ops d' = dev_geometry fault_ops d \<and> fd_live (fi_inner d') = fd_live (fi_inner d) \<and>
      (fd_durable (fi_inner d') = fd_live (fi_inner d) \<or> (\<exists>e. f = Inl e) \<and> fd_durable (fi_inner d') = fd_durable (fi_inner d))"
    if "fault_ok d" "dev_flush fault_ops d = (f, d')" for d f d'
    using that
    by (auto simp: fault_ops_def fault_flush_def fake_flush_def fault_ok_def fake_ok_def Let_def
        split: prod.splits sum.splits option.splits fault_action.splits)
  show "\<exists>bs d'. read_blocks fault_ops lba n len d = (Inr bs, d') \<and> fault_calm d'"
    if "fault_ok d" "fault_calm d" "transfer_fits (dev_geometry fault_ops d) lba n len False" for d lba n len
    using that fake_read_eq(2) [of "fi_inner d" lba n len]
    by (auto simp: fault_ops_def fault_read_blocks_def ensure_online_def fault_calm_def fault_ok_def fake_ok_def)
  show "\<exists>d'. write_blocks fault_ops lba n buf d = (Inr (), d') \<and> fault_calm d'"
    if ok: "fault_ok d" and calm: "fault_calm d" and fits: "transfer_fits (dev_geometry fault_ops d) lba n (length buf) True"
    for d lba n buf
  proof -
    obtain k early c where p: "next_write_plan (fi_controller d) = (Inr (k, early, None), c)"
      "fs_plan c = None" "\<not> fs_powered_off c"
      using calm by (auto simp: next_write_plan_def fault_calm_def Let_def)
    obtain r1 d1 where w: "write_through lba n buf early (d\<lparr>fi_controller := c\<rparr>) = (r1, d1)" by force
    have "fault_ok (d\<lparr>fi_controller := c\<rparr>)" using ok by (simp add: fault_ok_def)
    from write_through_law [OF this w] fits p w show ?thesis
      by (auto simp: fault_ops_def fault_write_blocks_def fault_calm_def)
  qed
  show "fault_ok d' \<and> dev_geometry fault_ops d' = dev_geometry fault_ops d \<and>
      (transfer_fits (dev_geometry fault_ops d) lba n (length buf) True \<and>
         fd_live (fi_inner d') = image_write (dev_geometry fault_ops d) (fd_live (fi_inner d)) lba buf \<and>
         (fd_durable (fi_inner d') = fd_durable (fi_inner d) \<or>
          fd_durable (fi_inner d') = image_write (dev_geometry fault_ops d) (fd_durable (fi_inner d)) lba buf) \<or>
       (\<exists>e. w = Inl e) \<and> fd_live (fi_inner d') = fd_live (fi_inner d) \<and> fd_durable (fi_inner d') = fd_durable (fi_inner d))"
    if "fault_ok d" "write_blocks fault_ops lba n buf d = (w, d')" for d d' lba n buf w
    using fault_write_law [of d lba n buf w d'] that by (simp add: fault_ops_def)
  show "fault_ok d' \<and> dev_geometry fault_ops d' = dev_geometry fault_ops d \<and> fd_live (fi_inner d') = fd_live (fi_inner d) \<and>
      fd_durable (fi_inner d') = fd_durable (fi_inner d) \<and>
      (\<forall>bs. r = Inr bs \<longrightarrow> transfer_fits (dev_geometry fault_ops d) lba n len False \<and>
        bs = image_blocks (dev_geometry fault_ops d) (fd_live (fi_inner d)) lba len)"
    if "fault_ok d" "read_blocks fault_ops lba n len d = (r, d')" for d d' lba n len r
  proof -
    obtain r1 i where i: "fake_read_blocks lba n len (fi_inner d) = (r1, i)" by force
    with fake_read_eq(1) [OF _ i] that show ?thesis
      by (auto simp: fault_ops_def fault_read_blocks_def fault_ok_def fake_ok_def split: sum.splits)
  qed
qed (auto simp: fault_ops_def fault_ok_def fake_ok_def fault_calm_def fault_flush_def fake_flush_def
    next_flush_plan_def Let_def)

end
