(* ===== verification/Store_Format.thy ===== *)
theory Store_Format
  imports Blk_Device
begin

text \<open>
  The on-disk format of the object store (\<open>store/src/lib.rs\<close>): objects and errors, the superblock with its
  object table in little-endian bytes, the byte-sum checksum, the layout of the payloads in the arena of a
  slot and its validation. A Rust \<open>String\<close> is the list of its bytes; that they are UTF-8 is checked where
  the source calls \<open>from_utf8\<close>. Shown here: decoding inverts encoding, and every layout that the store
  builds passes its own validation.
\<close>

section \<open>Objects and errors\<close>

record stored_object =
  so_id :: u64
  so_name :: bytes
  so_data :: bytes

datatype incompatible_error = BadMagic | UnsupportedVersion u16

datatype corrupt_error =
    ChecksumMismatch
  | InvalidHeader
  | InvalidObjectCount u32
  | InvalidNameEncoding
  | DuplicateObjectId u64
  | DuplicateObjectName
  | InvalidObjectLength
  | InvalidObjectExtent
  | OverlappingObjectExtents
  | ObjectChecksumMismatch

datatype store_error =
    Block block_io_error
  | UnsupportedGeometry u32 u64
  | InvalidObjectName
  | ObjectNameTooLong nat nat
  | ObjectTooLarge nat u32
  | ObjectTableFull nat
  | StorageFull u64 u64
  | NotFound
  | IdentityConflict
  | GenerationExhausted
  | Incompatible incompatible_error
  | Corrupt corrupt_error

definition STORE_MAGIC :: u32 where "STORE_MAGIC = 0x43534F31"
definition STORE_VERSION :: u16 where "STORE_VERSION = 1"
definition SUPERBLOCK_SLOTS :: u64 where "SUPERBLOCK_SLOTS = 2"
definition DATA_START_LBA :: u64 where "DATA_START_LBA = SUPERBLOCK_SLOTS"
definition MAX_OBJECTS :: nat where "MAX_OBJECTS = 7"
definition MAX_OBJECT_NAME_BYTES :: nat where "MAX_OBJECT_NAME_BYTES = 32"
definition HEADER_BYTES :: nat where "HEADER_BYTES = 48"
definition ENTRY_BYTES :: nat where "ENTRY_BYTES = 64"
definition ENTRY_PRESENT_FLAG :: u8 where "ENTRY_PRESENT_FLAG = 1"

record object_layout =
  ol_id :: u64
  ol_name :: bytes
  ol_data :: bytes
  ol_data_len :: u32
  ol_start_lba :: u64
  ol_block_count :: u32
  ol_data_checksum :: u32

record superblock =
  sb_generation :: u64
  sb_object_count :: u32
  sb_objects :: "object_layout list"

datatype slot_decode_error = SlotIncompatible incompatible_error | SlotCorrupt corrupt_error

section \<open>Checksum and fields\<close>

text \<open>The bytes at 8 to 11 are skipped, where a superblock stores the checksum itself.\<close>

fun checksum_loop :: "nat \<Rightarrow> bytes \<Rightarrow> u32 \<Rightarrow> u32" where
  "checksum_loop index [] acc = acc"
| "checksum_loop index (byte # bytes) acc =
     checksum_loop (Suc index) bytes (if 8 \<le> index \<and> index < 12 then acc else acc + ucast byte)"

definition checksum :: "bytes \<Rightarrow> u32" where
  "checksum bytes = checksum_loop 0 bytes 0"

definition read_u16 :: "bytes \<Rightarrow> nat \<Rightarrow> u16" where
  "read_u16 bytes offset = from_le (slice bytes offset (offset + 2))"

definition read_u32 :: "bytes \<Rightarrow> nat \<Rightarrow> u32" where
  "read_u32 bytes offset = from_le (slice bytes offset (offset + 4))"

definition read_u64 :: "bytes \<Rightarrow> nat \<Rightarrow> u64" where
  "read_u64 bytes offset = from_le (slice bytes offset (offset + 8))"

definition write_u16 :: "bytes \<Rightarrow> nat \<Rightarrow> u16 \<Rightarrow> bytes" where
  "write_u16 bytes offset value = write_at bytes offset (to_le 2 value)"

definition write_u32 :: "bytes \<Rightarrow> nat \<Rightarrow> u32 \<Rightarrow> bytes" where
  "write_u32 bytes offset value = write_at bytes offset (to_le 4 value)"

definition write_u64 :: "bytes \<Rightarrow> nat \<Rightarrow> u64 \<Rightarrow> bytes" where
  "write_u64 bytes offset value = write_at bytes offset (to_le 8 value)"

text \<open>\<open>core::str::from_utf8\<close> accepts exactly the well-formed byte sequences of the Unicode standard.\<close>

definition utf8_cont :: "u8 \<Rightarrow> bool" where
  "utf8_cont b \<longleftrightarrow> 0x80 \<le> b \<and> b \<le> 0xBF"

fun from_utf8 :: "bytes \<Rightarrow> bool" where
  "from_utf8 [] = True"
| "from_utf8 (a # bs) =
    (if a < 0x80 then from_utf8 bs
     else if 0xC2 \<le> a \<and> a \<le> 0xDF then
       (case bs of b # rest \<Rightarrow> utf8_cont b \<and> from_utf8 rest | _ \<Rightarrow> False)
     else if 0xE0 \<le> a \<and> a \<le> 0xEF then
       (case bs of b # c # rest \<Rightarrow>
          (if a = 0xE0 then 0xA0 \<le> b \<and> b \<le> 0xBF else if a = 0xED then 0x80 \<le> b \<and> b \<le> 0x9F else utf8_cont b) \<and>
          utf8_cont c \<and> from_utf8 rest
        | _ \<Rightarrow> False)
     else if 0xF0 \<le> a \<and> a \<le> 0xF4 then
       (case bs of b # c # d # rest \<Rightarrow>
          (if a = 0xF0 then 0x90 \<le> b \<and> b \<le> 0xBF else if a = 0xF4 then 0x80 \<le> b \<and> b \<le> 0x8F else utf8_cont b) \<and>
          utf8_cont c \<and> utf8_cont d \<and> from_utf8 rest
        | _ \<Rightarrow> False)
     else False)"

section \<open>Arenas and layouts\<close>

definition data_arena_blocks :: "block_geometry \<Rightarrow> u64" where
  "data_arena_blocks g = saturating_sub (block_count g) DATA_START_LBA div SUPERBLOCK_SLOTS"

definition slot_data_arena :: "block_geometry \<Rightarrow> u64 \<Rightarrow> u64 \<times> u64" where
  "slot_data_arena g slot =
    (let arena_blocks = data_arena_blocks g; start = DATA_START_LBA + slot * arena_blocks in (start, start + arena_blocks))"

definition validate_object_name :: "bytes \<Rightarrow> store_error + unit" where
  "validate_object_name name =
    (if name = [] then Inl InvalidObjectName
     else if length name > MAX_OBJECT_NAME_BYTES then Inl (ObjectNameTooLong (length name) MAX_OBJECT_NAME_BYTES)
     else Inr ())"

definition validate_geometry :: "block_geometry \<Rightarrow> store_error + block_geometry" where
  "validate_geometry g =
    (if block_bytes g < HEADER_BYTES + ENTRY_BYTES * MAX_OBJECTS \<or> max_transfer_blocks g = 0
     then Inl (UnsupportedGeometry (logical_block_size g) (block_count g))
     else if data_arena_blocks g = 0 then Inl (UnsupportedGeometry (logical_block_size g) (block_count g))
     else Inr g)"

definition object_blocks :: "block_geometry \<Rightarrow> u32 \<Rightarrow> u32" where
  "object_blocks g data_len =
    (let bsize = ucast (logical_block_size g) :: u64 in ucast ((ucast data_len + (bsize - 1)) div bsize))"

fun layout_loop :: "block_geometry \<Rightarrow> u64 \<Rightarrow> stored_object list \<Rightarrow> store_error + object_layout list \<times> u64" where
  "layout_loop g next_lba [] = Inr ([], next_lba)"
| "layout_loop g next_lba (object # objects) =
     rbind (validate_object_name (so_name object)) (\<lambda>_.
       if length (so_data object) \<ge> 2 ^ 32 then Inl (ObjectTooLarge (length (so_data object)) (- 1))
       else let data_len = of_nat (length (so_data object));
                blocks = if so_data object = [] then 0 else object_blocks g data_len in
         rbind (ok_or (StorageFull (- 1) (data_arena_blocks g)) (checked_add next_lba (ucast blocks))) (\<lambda>lba.
         rbind (layout_loop g lba objects) (\<lambda>(layouts, end_lba).
           Inr (\<lparr>ol_id = so_id object, ol_name = so_name object, ol_data = so_data object, ol_data_len = data_len,
                 ol_start_lba = next_lba, ol_block_count = blocks, ol_data_checksum = checksum (so_data object)\<rparr> # layouts,
                end_lba))))"

definition build_object_layout :: "block_geometry \<Rightarrow> u64 \<Rightarrow> stored_object list \<Rightarrow> store_error + object_layout list" where
  "build_object_layout g slot objects =
    (let arena = slot_data_arena g slot in
     rbind (layout_loop g (fst arena) objects) (\<lambda>(layouts, next_lba).
       let required = saturating_sub next_lba (fst arena) in
       if next_lba > snd arena then Inl (StorageFull required (data_arena_blocks g)) else Inr layouts))"

text \<open>The checks of one table entry against the entries before it and the arena.\<close>

definition validate_layout :: "block_geometry \<Rightarrow> u64 \<times> u64 \<Rightarrow> object_layout list \<Rightarrow> object_layout \<Rightarrow> corrupt_error + unit" where
  "validate_layout g arena before left =
    (if \<exists>other\<in>set before. ol_id other = ol_id left then Inl (DuplicateObjectId (ol_id left))
     else if \<exists>other\<in>set before. ol_name other = ol_name left then Inl DuplicateObjectName
     else if ol_data_len left = 0 then
       (if ol_block_count left \<noteq> 0 \<or> ol_start_lba left < fst arena \<or> ol_start_lba left > snd arena
        then Inl InvalidObjectExtent else Inr ())
     else if ol_block_count left = 0 then Inl InvalidObjectExtent
     else if (ucast (ol_data_len left) :: u64) > ucast (ol_block_count left) * ucast (logical_block_size g)
     then Inl InvalidObjectLength
     else rbind (ok_or InvalidObjectExtent (checked_add (ol_start_lba left) (ucast (ol_block_count left)))) (\<lambda>end_lba.
       if ol_start_lba left < fst arena \<or> end_lba > snd arena then Inl InvalidObjectExtent else Inr ()))"

fun validate_entries :: "block_geometry \<Rightarrow> u64 \<times> u64 \<Rightarrow> object_layout list \<Rightarrow> object_layout list \<Rightarrow> corrupt_error + unit" where
  "validate_entries g arena before [] = Inr ()"
| "validate_entries g arena before (left # rest) =
     rbind (validate_layout g arena before left) (\<lambda>_. validate_entries g arena (before @ [left]) rest)"

fun windows_disjoint :: "(u64 \<times> u64) list \<Rightarrow> bool" where
  "windows_disjoint (a # b # rest) = (snd a \<le> fst b \<and> windows_disjoint (b # rest))"
| "windows_disjoint _ = True"

definition validate_layouts :: "block_geometry \<Rightarrow> u64 \<Rightarrow> object_layout list \<Rightarrow> corrupt_error + unit" where
  "validate_layouts g slot objects =
     rbind (validate_entries g (slot_data_arena g slot) [] objects) (\<lambda>_.
       let ranges = map (\<lambda>object. (ol_start_lba object, ol_start_lba object + ucast (ol_block_count object)))
             (filter (\<lambda>object. ol_block_count object \<noteq> 0) objects) in
       if windows_disjoint (sort_key fst ranges) then Inr () else Inl OverlappingObjectExtents)"

section \<open>The superblock\<close>

definition encode_header :: "block_geometry \<Rightarrow> superblock \<Rightarrow> bytes" where
  "encode_header g sb =
    (let bytes = replicate (block_bytes g) 0;
         bytes = write_u32 bytes 0 STORE_MAGIC;
         bytes = write_u16 bytes 4 STORE_VERSION;
         bytes = write_u64 bytes 12 (sb_generation sb);
         bytes = write_u32 bytes 20 (logical_block_size g);
         bytes = write_u64 bytes 24 (block_count g);
         bytes = write_u32 bytes 32 (of_nat MAX_OBJECTS);
         bytes = write_u32 bytes 36 (sb_object_count sb)
     in write_u64 bytes 40 DATA_START_LBA)"

definition encode_entry :: "nat \<Rightarrow> object_layout \<Rightarrow> bytes \<Rightarrow> bytes" where
  "encode_entry index object bytes =
    (let start = HEADER_BYTES + ENTRY_BYTES * index;
         bytes = bytes[start := ENTRY_PRESENT_FLAG];
         bytes = write_u16 bytes (start + 2) (of_nat (length (ol_name object)));
         bytes = write_u32 bytes (start + 4) (ol_data_len object);
         bytes = write_u64 bytes (start + 8) (ol_start_lba object);
         bytes = write_u32 bytes (start + 16) (ol_block_count object);
         bytes = write_u32 bytes (start + 20) (ol_data_checksum object);
         bytes = write_u64 bytes (start + 24) (ol_id object)
     in write_at bytes (start + 32) (ol_name object))"

fun encode_entries :: "nat \<Rightarrow> object_layout list \<Rightarrow> bytes \<Rightarrow> bytes" where
  "encode_entries index [] bytes = bytes"
| "encode_entries index (object # objects) bytes = encode_entries (Suc index) objects (encode_entry index object bytes)"

definition encode_superblock :: "block_geometry \<Rightarrow> superblock \<Rightarrow> bytes" where
  "encode_superblock g sb =
    (let bytes = encode_entries 0 (sb_objects sb) (encode_header g sb) in write_u32 bytes 8 (checksum bytes))"

definition decode_entry :: "bytes \<Rightarrow> nat \<Rightarrow> slot_decode_error + object_layout option" where
  "decode_entry bytes index =
    (let start = HEADER_BYTES + ENTRY_BYTES * index; flags = bytes ! start in
     if flags AND NOT ENTRY_PRESENT_FLAG \<noteq> 0 then Inl (SlotCorrupt InvalidHeader)
     else if flags AND ENTRY_PRESENT_FLAG = 0 then Inr None
     else let name_len = unat (read_u16 bytes (start + 2)) in
       if name_len = 0 \<or> name_len > MAX_OBJECT_NAME_BYTES then Inl (SlotCorrupt InvalidNameEncoding)
       else let name_bytes = slice bytes (start + 32) (start + 32 + MAX_OBJECT_NAME_BYTES) in
         if list_ex (\<lambda>byte. byte \<noteq> 0) (drop name_len name_bytes) then Inl (SlotCorrupt InvalidNameEncoding)
         else if \<not> from_utf8 (take name_len name_bytes) then Inl (SlotCorrupt InvalidNameEncoding)
         else Inr (Some \<lparr>ol_id = read_u64 bytes (start + 24), ol_name = take name_len name_bytes, ol_data = [],
           ol_data_len = read_u32 bytes (start + 4), ol_start_lba = read_u64 bytes (start + 8),
           ol_block_count = read_u32 bytes (start + 16), ol_data_checksum = read_u32 bytes (start + 20)\<rparr>))"

fun decode_entries :: "bytes \<Rightarrow> nat list \<Rightarrow> slot_decode_error + object_layout list" where
  "decode_entries bytes [] = Inr []"
| "decode_entries bytes (index # rest) =
     rbind (decode_entry bytes index) (\<lambda>entry.
     rbind (decode_entries bytes rest) (\<lambda>objects.
       Inr (case entry of None \<Rightarrow> objects | Some object \<Rightarrow> object # objects)))"

definition decode_superblock :: "block_geometry \<Rightarrow> u64 \<Rightarrow> bytes \<Rightarrow> slot_decode_error + superblock" where
  "decode_superblock g slot bytes =
    (if read_u32 bytes 0 \<noteq> STORE_MAGIC then Inl (SlotIncompatible BadMagic)
     else if read_u16 bytes 4 \<noteq> STORE_VERSION then Inl (SlotIncompatible (UnsupportedVersion (read_u16 bytes 4)))
     else if checksum bytes \<noteq> read_u32 bytes 8 then Inl (SlotCorrupt ChecksumMismatch)
     else if read_u32 bytes 20 \<noteq> logical_block_size g \<or> read_u64 bytes 24 \<noteq> block_count g \<or>
       read_u32 bytes 32 \<noteq> of_nat MAX_OBJECTS \<or> read_u64 bytes 40 \<noteq> DATA_START_LBA \<or>
       read_u32 bytes 36 > of_nat MAX_OBJECTS
     then Inl (SlotCorrupt InvalidHeader)
     else rbind (decode_entries bytes [0..<MAX_OBJECTS]) (\<lambda>objects.
       if length objects \<noteq> unat (read_u32 bytes 36) then Inl (SlotCorrupt (InvalidObjectCount (read_u32 bytes 36)))
       else rbind (map_err SlotCorrupt (validate_layouts g slot objects)) (\<lambda>_.
         Inr \<lparr>sb_generation = read_u64 bytes 12, sb_object_count = read_u32 bytes 36, sb_objects = objects\<rparr>)))"

section \<open>Checksums\<close>

lemma checksum_loop_acc: "checksum_loop i bs acc = acc + checksum_loop i bs 0"
proof (induction bs arbitrary: i acc)
  case (Cons b bs)
  show ?case
    using Cons [of "Suc i" "acc + ucast b"] Cons [of "Suc i" "ucast b"] Cons [of "Suc i" acc]
    by (simp add: add.assoc)
qed simp

lemma checksum_loop_append: "checksum_loop i (xs @ ys) acc = checksum_loop (i + length xs) ys (checksum_loop i xs acc)"
  by (induction xs arbitrary: i acc) simp_all

lemma checksum_loop_skip: "8 \<le> i \<Longrightarrow> i + length xs \<le> 12 \<Longrightarrow> checksum_loop i xs acc = acc"
  by (induction xs arbitrary: i) simp_all

lemma checksum_skip:
  assumes "length xs = 8" and "length ys = 4" and "length ys' = 4"
  shows "checksum (xs @ ys @ zs) = checksum (xs @ ys' @ zs)"
  by (simp add: checksum_def checksum_loop_append assms checksum_loop_skip)

lemma checksum_write: "12 \<le> length bs \<Longrightarrow> checksum (write_u32 bs 8 v) = checksum bs"
proof -
  assume len: "12 \<le> length bs"
  have "drop 12 bs = drop 4 (drop 8 bs)" by simp
  then have "bs = take 8 bs @ take 4 (drop 8 bs) @ drop 12 bs" by (metis append_take_drop_id)
  moreover have "write_u32 bs 8 v = take 8 bs @ to_le 4 v @ drop 12 bs" by (simp add: write_u32_def write_at_def)
  ultimately show ?thesis
    using checksum_skip [of "take 8 bs" "to_le 4 v" "take 4 (drop 8 bs)" "drop 12 bs"] len by simp
qed

section \<open>Decoding inverts encoding\<close>

lemmas store_consts = STORE_MAGIC_def STORE_VERSION_def SUPERBLOCK_SLOTS_def DATA_START_LBA_def MAX_OBJECTS_def
  MAX_OBJECT_NAME_BYTES_def HEADER_BYTES_def ENTRY_BYTES_def ENTRY_PRESENT_FLAG_def

text \<open>The 64 bytes of a table entry.\<close>

definition entry_bytes :: "object_layout \<Rightarrow> bytes" where
  "entry_bytes object =
     [ENTRY_PRESENT_FLAG, 0] @ to_le 2 (of_nat (length (ol_name object)) :: u16) @ to_le 4 (ol_data_len object) @
     to_le 8 (ol_start_lba object) @ to_le 4 (ol_block_count object) @ to_le 4 (ol_data_checksum object) @
     to_le 8 (ol_id object) @ ol_name object @ replicate (32 - length (ol_name object)) 0"

definition entry_slice :: "bytes \<Rightarrow> nat \<Rightarrow> bytes" where
  "entry_slice bytes index = slice bytes (48 + 64 * index) (48 + 64 * Suc index)"

definition name_ok :: "bytes \<Rightarrow> bool" where
  "name_ok name \<longleftrightarrow> 0 < length name \<and> length name \<le> 32 \<and> from_utf8 name"

lemma write_at_append:
  "length xs = a \<Longrightarrow> length bs = length ys \<Longrightarrow> write_at (xs @ ys @ zs) a bs = xs @ bs @ zs"
  by (simp add: write_at_def)

lemma replicate_split: "a + b = n \<Longrightarrow> replicate n x = replicate a x @ replicate b x"
  by (simp add: replicate_add [symmetric])

lemma replicate_eq: "set xs \<subseteq> {x} \<Longrightarrow> length xs = n \<Longrightarrow> replicate n x = xs"
  by (rule replicate_eqI [symmetric]) auto

lemma encode_entry_split:
  assumes "length xs = 48 + 64 * index" and "length (ol_name object) \<le> 32"
  shows "encode_entry index object (xs @ replicate 64 0 @ zs) = xs @ entry_bytes object @ zs"
proof -
  let ?n = "length (ol_name object)"
  let ?fields = "to_le 2 (of_nat ?n :: u16) @ to_le 4 (ol_data_len object) @ to_le 8 (ol_start_lba object) @
    to_le 4 (ol_block_count object) @ to_le 4 (ol_data_checksum object) @ to_le 8 (ol_id object)"
  have z: "replicate 64 (0::u8) = [0, 0] @ replicate 2 0 @ replicate 4 0 @ replicate 8 0 @ replicate 4 0 @ replicate 4 0 @
      replicate 8 0 @ replicate ?n 0 @ replicate (32 - ?n) 0"
    by (rule replicate_eq) (use assms(2) in auto)
  have "encode_entry index object (xs @ replicate 64 0 @ zs) =
      write_at ((xs @ [1, 0] @ ?fields) @ replicate ?n 0 @ (replicate (32 - ?n) 0 @ zs)) (48 + 64 * index + 32) (ol_name object)"
    unfolding encode_entry_def Let_def store_consts z
    using assms(1) by (simp add: write_u16_def write_u32_def write_u64_def list_update_append write_at_def)
  also have "\<dots> = (xs @ [1, 0] @ ?fields) @ ol_name object @ (replicate (32 - ?n) 0 @ zs)"
    by (rule write_at_append) (simp_all add: assms)
  finally show ?thesis by (simp add: entry_bytes_def store_consts)
qed

lemma length_entry_bytes: "length (ol_name object) \<le> 32 \<Longrightarrow> length (entry_bytes object) = 64"
  by (simp add: entry_bytes_def)

lemma encode_entries_split:
  assumes "\<forall>object\<in>set objects. length (ol_name object) \<le> 32"
    and "length xs = 48 + 64 * index"
  shows "encode_entries index objects (xs @ replicate (64 * length objects) 0 @ zs) =
    xs @ concat (map entry_bytes objects) @ zs"
  using assms
proof (induction objects arbitrary: index xs)
  case (Cons object objects)
  have z: "replicate (64 * length (object # objects)) (0::u8) = replicate 64 0 @ replicate (64 * length objects) 0"
    by (rule replicate_split) simp
  have "length (xs @ entry_bytes object) = 48 + 64 * Suc index"
    using Cons.prems by (simp add: length_entry_bytes)
  from Cons.IH [OF _ this] Cons.prems(1)
  have "encode_entries (Suc index) objects ((xs @ entry_bytes object) @ replicate (64 * length objects) 0 @ zs) =
      (xs @ entry_bytes object) @ concat (map entry_bytes objects) @ zs" by simp
  moreover have "encode_entry index object (xs @ replicate 64 0 @ (replicate (64 * length objects) 0 @ zs)) =
      xs @ entry_bytes object @ (replicate (64 * length objects) 0 @ zs)"
    by (rule encode_entry_split) (use Cons.prems in simp_all)
  ultimately show ?case unfolding z encode_entries.simps append_assoc by simp
qed simp

definition header_bytes :: "block_geometry \<Rightarrow> superblock \<Rightarrow> u32 \<Rightarrow> bytes" where
  "header_bytes g sb ck =
     to_le 4 STORE_MAGIC @ to_le 2 STORE_VERSION @ [0, 0] @ to_le 4 ck @ to_le 8 (sb_generation sb) @
     to_le 4 (logical_block_size g) @ to_le 8 (block_count g) @ to_le 4 (of_nat MAX_OBJECTS :: u32) @
     to_le 4 (sb_object_count sb) @ to_le 8 DATA_START_LBA"

lemma length_header_bytes [simp]: "length (header_bytes g sb ck) = 48"
  by (simp add: header_bytes_def)

lemma checksum_header: "checksum (header_bytes g sb a @ rest) = checksum (header_bytes g sb b @ rest)"
  using checksum_skip [of "to_le 4 STORE_MAGIC @ to_le 2 STORE_VERSION @ [0, 0]" "to_le 4 a" "to_le 4 b"
      "to_le 8 (sb_generation sb) @ to_le 4 (logical_block_size g) @ to_le 8 (block_count g) @
       to_le 4 (of_nat MAX_OBJECTS :: u32) @ to_le 4 (sb_object_count sb) @ to_le 8 DATA_START_LBA @ rest"]
  by (simp add: header_bytes_def)

lemma to_le_0: "to_le n (0 :: 'a::len word) = replicate n 0"
  by (induction n) simp_all

lemma encode_header_eq:
  assumes "48 \<le> block_bytes g"
  shows "encode_header g sb = header_bytes g sb 0 @ replicate (block_bytes g - 48) 0"
proof -
  have z: "replicate (block_bytes g) (0::u8) = replicate 4 0 @ replicate 2 0 @ [0, 0] @ replicate 4 0 @ replicate 8 0 @
      replicate 4 0 @ replicate 8 0 @ replicate 4 0 @ replicate 4 0 @ replicate 8 0 @ replicate (block_bytes g - 48) 0"
    by (rule replicate_eq) (use assms in auto)
  show ?thesis
    unfolding encode_header_def Let_def z
    by (simp add: write_u16_def write_u32_def write_u64_def write_at_def header_bytes_def to_le_0)
qed

lemma encode_superblock_eq:
  assumes "496 \<le> block_bytes g" and "length (sb_objects sb) \<le> 7"
    and "\<forall>object\<in>set (sb_objects sb). length (ol_name object) \<le> 32"
  defines "rest \<equiv> concat (map entry_bytes (sb_objects sb)) @ replicate (block_bytes g - 48 - 64 * length (sb_objects sb)) 0"
  shows "encode_superblock g sb = header_bytes g sb (checksum (header_bytes g sb 0 @ rest)) @ rest"
proof -
  have "replicate (block_bytes g - 48) (0::u8) =
      replicate (64 * length (sb_objects sb)) 0 @ replicate (block_bytes g - 48 - 64 * length (sb_objects sb)) 0"
    by (rule replicate_split) (use assms(1,2) in simp)
  with encode_entries_split [OF assms(3), of "header_bytes g sb 0" 0]
  have "encode_entries 0 (sb_objects sb) (encode_header g sb) = header_bytes g sb 0 @ rest"
    using assms(1) by (simp add: encode_header_eq rest_def)
  then show ?thesis
    by (simp add: encode_superblock_def Let_def write_u32_def write_at_def header_bytes_def to_le_0)
qed

text \<open>Reading an entry back.\<close>

lemma slice_append_right: "length xs \<le> a \<Longrightarrow> slice (xs @ ys) a b = slice ys (a - length xs) (b - length xs)"
  by (simp add: slice_def)

lemma slice_append_left: "b \<le> length xs \<Longrightarrow> slice (xs @ ys) a b = slice xs a b"
  by (cases "a \<le> b") (simp_all add: slice_def)

lemma decode_entry_split:
  assumes "length xs = 48 + 64 * index" and "name_ok (ol_name object)"
  shows "decode_entry (xs @ entry_bytes object @ zs) index = Inr (Some (object\<lparr>ol_data := []\<rparr>))"
proof -
  let ?n = "length (ol_name object)"
  let ?b = "xs @ entry_bytes object @ zs"
  from assms(2) have n: "0 < ?n" "?n \<le> 32" and u: "from_utf8 (ol_name object)" by (simp_all add: name_ok_def)
  note e = entry_bytes_def store_consts slice_def read_u16_def read_u32_def read_u64_def assms(1)
  have flag: "?b ! (48 + 64 * index) = 1" by (simp add: e nth_append)
  have len: "unat (read_u16 ?b (48 + 64 * index + 2)) = ?n"
    using n by (simp add: e unsigned_of_nat take_bit_nat_eq_self)
  have fields: "read_u32 ?b (48 + 64 * index + 4) = ol_data_len object"
      "read_u64 ?b (48 + 64 * index + 8) = ol_start_lba object"
      "read_u32 ?b (48 + 64 * index + 16) = ol_block_count object"
      "read_u32 ?b (48 + 64 * index + 20) = ol_data_checksum object"
      "read_u64 ?b (48 + 64 * index + 24) = ol_id object"
    by (simp_all add: e)
  have name: "slice ?b (48 + 64 * index + 32) (48 + 64 * index + 32 + 32) = ol_name object @ replicate (32 - ?n) 0"
    using n by (simp add: e)
  have tail: "\<not> list_ex (\<lambda>b. b \<noteq> 0) (replicate (32 - ?n) (0::u8))" by (simp add: list_ex_iff)
  show ?thesis
    unfolding decode_entry_def Let_def store_consts flag len fields name
    using n u tail by simp
qed

lemma decode_entry_empty:
  assumes "length xs = 48 + 64 * index"
  shows "decode_entry (xs @ 0 # zs) index = Inr None"
  using assms by (simp add: decode_entry_def Let_def store_consts nth_append)

lemma decode_entries_none:
  "(\<And>j. j \<in> set js \<Longrightarrow> decode_entry bytes j = Inr None) \<Longrightarrow> decode_entries bytes js = Inr []"
  by (induction js) simp_all

lemma decode_entries_split:
  assumes "length xs = 48 + 64 * i" and "\<forall>object\<in>set objects. name_ok (ol_name object)" and "64 * k \<le> z"
  shows "decode_entries (xs @ concat (map entry_bytes objects) @ replicate z 0) [i..<i + length objects + k] =
    Inr (map (ol_data_update (\<lambda>_. [])) objects)"
  using assms
proof (induction objects arbitrary: xs i)
  case Nil
  have "decode_entry (xs @ replicate z 0) j = Inr None" if j: "i \<le> j" "j < i + k" for j
  proof -
    have "replicate z (0::u8) = replicate (64 * (j - i)) 0 @ 0 # replicate (z - 64 * (j - i) - 1) 0"
      by (rule replicate_eq) (use Nil.prems(3) j in auto)
    with decode_entry_empty [of "xs @ replicate (64 * (j - i)) 0" j "replicate (z - 64 * (j - i) - 1) 0"]
    show ?thesis using Nil.prems(1) j by simp
  qed
  then have "decode_entries (xs @ replicate z 0) [i..<i + k] = Inr []" by (intro decode_entries_none) auto
  then show ?case by simp
next
  case (Cons object objects)
  let ?rest = "concat (map entry_bytes objects) @ replicate z 0"
  have ok: "name_ok (ol_name object)" and oks: "\<forall>object\<in>set objects. name_ok (ol_name object)" using Cons.prems(2) by simp_all
  then have "length (xs @ entry_bytes object) = 48 + 64 * Suc i"
    using Cons.prems(1) by (simp add: length_entry_bytes name_ok_def)
  from Cons.IH [OF this oks Cons.prems(3)]
  have "decode_entries (xs @ entry_bytes object @ ?rest) [Suc i..<Suc (i + length objects) + k] =
      Inr (map (ol_data_update (\<lambda>_. [])) objects)" by simp
  moreover have "[i..<i + length (object # objects) + k] = i # [Suc i..<Suc (i + length objects) + k]"
    by (subst upt_conv_Cons) simp_all
  ultimately show ?case
    using decode_entry_split [OF Cons.prems(1) ok, of ?rest] by simp
qed

lemma length_entries:
  "\<forall>object\<in>set objects. length (ol_name object) \<le> 32 \<Longrightarrow> length (concat (map entry_bytes objects)) = 64 * length objects"
  by (induction objects) (simp_all add: length_entry_bytes)

definition superblock_ok :: "block_geometry \<Rightarrow> u64 \<Rightarrow> superblock \<Rightarrow> bool" where
  "superblock_ok g slot sb \<longleftrightarrow>
     unat (sb_object_count sb) = length (sb_objects sb) \<and> length (sb_objects sb) \<le> 7 \<and>
     (\<forall>object\<in>set (sb_objects sb). name_ok (ol_name object)) \<and> validate_layouts g slot (sb_objects sb) = Inr ()"

definition stripped :: "superblock \<Rightarrow> superblock" where
  "stripped sb = sb\<lparr>sb_objects := map (ol_data_update (\<lambda>_. [])) (sb_objects sb)\<rparr>"

lemma validate_entries_strip:
  "validate_entries g arena (map (ol_data_update (\<lambda>_. [])) before) (map (ol_data_update (\<lambda>_. [])) objects) =
    validate_entries g arena before objects"
proof (induction objects arbitrary: before)
  case (Cons left objects)
  have "validate_layout g arena (map (ol_data_update (\<lambda>_. [])) before) (ol_data_update (\<lambda>_. []) left) =
      validate_layout g arena before left" by (simp add: validate_layout_def)
  with Cons [of "before @ [left]"] show ?case by simp
qed simp

lemma validate_layouts_strip:
  "validate_layouts g slot (map (ol_data_update (\<lambda>_. [])) objects) = validate_layouts g slot objects"
  using validate_entries_strip [of g _ "[]" objects]
  by (simp add: validate_layouts_def filter_map comp_def)

lemma superblock_roundtrip:
  assumes "496 \<le> block_bytes g" and "superblock_ok g slot sb"
  shows "length (encode_superblock g sb) = block_bytes g \<and>
    decode_superblock g slot (encode_superblock g sb) = Inr (stripped sb)"
proof -
  let ?objs = "sb_objects sb"
  from assms(2) have ok: "unat (sb_object_count sb) = length ?objs" "length ?objs \<le> 7"
      "\<forall>object\<in>set ?objs. name_ok (ol_name object)" "validate_layouts g slot ?objs = Inr ()"
    by (simp_all add: superblock_ok_def)
  then have names: "\<forall>object\<in>set ?objs. length (ol_name object) \<le> 32" by (simp add: name_ok_def)
  let ?z = "block_bytes g - 48 - 64 * length ?objs"
  let ?rest = "concat (map entry_bytes ?objs) @ replicate ?z 0"
  let ?ck = "checksum (header_bytes g sb 0 @ ?rest)"
  let ?b = "header_bytes g sb ?ck @ ?rest"
  have b: "encode_superblock g sb = ?b" by (rule encode_superblock_eq [OF assms(1) ok(2) names])
  have len: "length ?b = block_bytes g" using assms(1) ok(2) length_entries [OF names] by simp
  note h = header_bytes_def slice_def read_u16_def read_u32_def read_u64_def
  have fields: "read_u32 ?b 0 = STORE_MAGIC" "read_u16 ?b 4 = STORE_VERSION" "read_u32 ?b 8 = ?ck"
      "read_u64 ?b 12 = sb_generation sb" "read_u32 ?b 20 = logical_block_size g" "read_u64 ?b 24 = block_count g"
      "read_u32 ?b 32 = of_nat MAX_OBJECTS" "read_u32 ?b 36 = sb_object_count sb" "read_u64 ?b 40 = DATA_START_LBA"
    by (simp_all add: h)
  have "checksum ?b = ?ck"
    by (rule checksum_header)
  moreover have "decode_entries ?b [0..<MAX_OBJECTS] = Inr (map (ol_data_update (\<lambda>_. [])) ?objs)"
    using decode_entries_split [of "header_bytes g sb ?ck" 0 ?objs "7 - length ?objs" ?z] ok assms(1)
    by (simp add: MAX_OBJECTS_def)
  moreover have "sb_object_count sb \<le> of_nat MAX_OBJECTS"
    using ok(1,2) by (simp add: word_le_nat_alt MAX_OBJECTS_def)
  ultimately have "decode_superblock g slot ?b = Inr (stripped sb)"
    unfolding decode_superblock_def fields by (simp add: ok validate_layouts_strip stripped_def not_less)
  with b len show ?thesis by simp
qed

section \<open>Layouts that the store builds\<close>

lemma unat_object_blocks:
  assumes "logical_block_size g \<noteq> 0"
  shows "unat (object_blocks g n) = (unat n + (block_bytes g - 1)) div block_bytes g"
proof -
  let ?bs = "block_bytes g"
  have bs: "0 < ?bs" using assms by (simp add: unat_gt_0)
  have b: "?bs < 2 ^ 32" "unat n < 2 ^ 32" using unat_bound [of "logical_block_size g"] unat_bound [of n] by simp_all
  have one: "unat (ucast (logical_block_size g) - 1 :: u64) = ?bs - 1"
    using bs by (simp add: unat_sub word_le_nat_alt)
  have "unat (ucast n + (ucast (logical_block_size g) - 1) :: u64) = unat n + (?bs - 1)"
    by (subst unat_add_lem [THEN iffD1]) (use b one in simp_all)
  then have q: "unat ((ucast n + (ucast (logical_block_size g) - 1)) div (ucast (logical_block_size g)) :: u64) =
      (unat n + (?bs - 1)) div ?bs" by (simp add: unat_div)
  have "(unat n + (?bs - 1)) div ?bs \<le> unat n"
  proof (cases "unat n")
    case (Suc m)
    have "unat n + (?bs - 1) < (unat n + 1) * ?bs" using bs Suc by (cases ?bs) simp_all
    then show ?thesis using bs by (simp add: div_less_iff_less_mult less_Suc_eq_le [symmetric])
  qed (use bs in simp)
  with b have "(unat n + (?bs - 1)) div ?bs < 2 ^ 32" by linarith
  with q show ?thesis by (simp add: object_blocks_def Let_def unsigned_ucast_eq take_bit_nat_eq_self)
qed

lemma object_blocks_bounds:
  assumes "logical_block_size g \<noteq> 0"
  shows "unat n \<le> unat (object_blocks g n) * block_bytes g" and "n \<noteq> 0 \<Longrightarrow> object_blocks g n \<noteq> 0"
proof -
  let ?bs = "block_bytes g"
  have bs: "0 < ?bs" using assms by (simp add: unat_gt_0)
  have "unat n + (?bs - 1) < ((unat n + (?bs - 1)) div ?bs + 1) * ?bs"
    using bs by (metis Suc_eq_plus1 lessI dividend_less_div_times mult.commute mult_Suc_right add.commute)
  then show le: "unat n \<le> unat (object_blocks g n) * ?bs"
    using bs by (simp add: unat_object_blocks [OF assms] algebra_simps)
  show "object_blocks g n \<noteq> 0" if "n \<noteq> 0"
    using le that by (auto simp: unat_eq_0)
qed

text \<open>Layouts that follow each other without gaps from one block to another.\<close>

fun chained :: "u64 \<Rightarrow> object_layout list \<Rightarrow> u64 \<Rightarrow> bool" where
  "chained lba [] end_lba \<longleftrightarrow> lba = end_lba"
| "chained lba (l # ls) end_lba \<longleftrightarrow>
     ol_start_lba l = lba \<and> unat lba + unat (ol_block_count l) < 2 ^ 64 \<and> chained (lba + ucast (ol_block_count l)) ls end_lba"

text \<open>What the layout of an object records.\<close>

definition layout_of :: "block_geometry \<Rightarrow> stored_object \<Rightarrow> object_layout \<Rightarrow> bool" where
  "layout_of g object l \<longleftrightarrow>
     ol_id l = so_id object \<and> ol_name l = so_name object \<and> ol_data l = so_data object \<and>
     unat (ol_data_len l) = length (so_data object) \<and> (ol_block_count l = 0 \<longleftrightarrow> so_data object = []) \<and>
     length (so_data object) \<le> unat (ol_block_count l) * block_bytes g \<and>
     ol_data_checksum l = checksum (so_data object) \<and> 0 < length (so_name object) \<and> length (so_name object) \<le> 32"

lemma layout_loop_ok:
  assumes "logical_block_size g \<noteq> 0"
  shows "layout_loop g lba objects = Inr (ls, e) \<Longrightarrow> chained lba ls e \<and> list_all2 (layout_of g) objects ls"
proof (induction objects arbitrary: lba ls e)
  case (Cons object objects)
  let ?n = "of_nat (length (so_data object)) :: u32"
  let ?blocks = "if so_data object = [] then 0 else object_blocks g ?n"
  from Cons.prems have name: "0 < length (so_name object)" "length (so_name object) \<le> 32"
    and small: "length (so_data object) < 2 ^ 32"
    by (auto simp: validate_object_name_def store_consts split: if_splits)
  from Cons.prems small obtain lba' ls' where
    next_lba: "checked_add lba (ucast ?blocks) = Some lba'" and rest: "layout_loop g lba' objects = Inr (ls', e)"
    and ls: "ls = \<lparr>ol_id = so_id object, ol_name = so_name object, ol_data = so_data object, ol_data_len = ?n,
      ol_start_lba = lba, ol_block_count = ?blocks, ol_data_checksum = checksum (so_data object)\<rparr> # ls'"
    by (auto simp: result_simps Let_def split: if_splits)
  have n: "unat ?n = length (so_data object)" using small by (simp add: unsigned_of_nat take_bit_nat_eq_self)
  then have nz: "?n \<noteq> 0" if "so_data object \<noteq> []" using that by (auto simp: unat_eq_0 [symmetric])
  from next_lba have step: "lba' = lba + ucast ?blocks" "unat lba + unat ?blocks < 2 ^ 64"
    using unat_bound [of lba'] by (auto simp: checked_add_Some simp del: unat_bound)
  have "layout_of g object (hd ls)"
    using object_blocks_bounds [OF assms, of ?n] n nz name ls by (auto simp: layout_of_def)
  with Cons.IH [OF rest] step ls show ?case by simp
qed (simp add: layout_of_def)

lemma chained_step:
  fixes lba :: u64 and bc :: u32
  assumes "unat lba + unat bc < 2 ^ 64"
  shows "unat (lba + ucast bc) = unat lba + unat bc"
  by (subst unat_add_lem [THEN iffD1]) (use assms in simp_all)

definition extent_in :: "u64 \<Rightarrow> u64 \<Rightarrow> object_layout \<Rightarrow> bool" where
  "extent_in lba e l \<longleftrightarrow> lba \<le> ol_start_lba l \<and>
     checked_add (ol_start_lba l) (ucast (ol_block_count l)) = Some (ol_start_lba l + ucast (ol_block_count l)) \<and>
     unat (ol_start_lba l + ucast (ol_block_count l)) = unat (ol_start_lba l) + unat (ol_block_count l) \<and>
     ol_start_lba l + ucast (ol_block_count l) \<le> e"

lemma chained_mem: "chained lba ls e \<Longrightarrow> lba \<le> e \<and> (\<forall>l\<in>set ls. extent_in lba e l)"
proof (induction ls arbitrary: lba)
  case (Cons l ls)
  let ?n = "lba + ucast (ol_block_count l) :: u64"
  from Cons.prems have c: "ol_start_lba l = lba" "unat lba + unat (ol_block_count l) < 2 ^ 64" and rest: "chained ?n ls e"
    by simp_all
  note u = chained_step [OF c(2)]
  then have le: "lba \<le> ?n" by (simp add: word_le_nat_alt)
  from Cons.IH [OF rest] have ih: "?n \<le> e" "\<forall>l\<in>set ls. extent_in ?n e l" by simp_all
  have "extent_in lba e l" using c u ih(1) by (simp add: extent_in_def checked_add_def)
  moreover have "\<forall>l\<in>set ls. extent_in lba e l" using ih(2) le by (auto simp: extent_in_def)
  ultimately show ?case using le ih(1) by simp
qed simp

abbreviation "extent object \<equiv> (ol_start_lba object, ol_start_lba object + ucast (ol_block_count object) :: u64)"
abbreviation "extents objects \<equiv> map extent (filter (\<lambda>object. ol_block_count object \<noteq> 0) objects)"

lemma chained_extents:
  "chained lba ls e \<Longrightarrow> windows_disjoint (extents ls) \<and> sorted (map fst (extents ls))"
proof (induction ls arbitrary: lba)
  case (Cons l ls)
  let ?n = "lba + ucast (ol_block_count l) :: u64"
  from Cons.prems have l: "ol_start_lba l = lba" and c: "chained ?n ls e" by simp_all
  from chained_mem [OF Cons.prems] l have le: "lba \<le> ?n" by (simp add: extent_in_def word_le_nat_alt)
  from chained_mem [OF c] have ge: "\<forall>r\<in>set (extents ls). ?n \<le> fst r" by (auto simp: extent_in_def)
  then have "sorted (map fst (extent l # extents ls))"
    using Cons.IH [OF c] le l by (fastforce intro: order_trans)
  moreover have "windows_disjoint (extent l # extents ls)"
    using Cons.IH [OF c] ge l by (cases "extents ls") auto
  ultimately show ?case using Cons.IH [OF c] by simp
qed simp

lemma validate_entriesI:
  assumes "distinct (map ol_id (before @ ls))" and "distinct (map ol_name (before @ ls))"
    and "\<forall>l\<in>set ls. validate_layout g arena [] l = Inr ()"
  shows "validate_entries g arena before ls = Inr ()"
  using assms
proof (induction ls arbitrary: before)
  case (Cons l ls)
  have "\<not> (\<exists>other\<in>set before. ol_id other = ol_id l)" "\<not> (\<exists>other\<in>set before. ol_name other = ol_name l)"
    using Cons.prems(1,2) by (auto simp: rev_image_eqI)
  then have "validate_layout g arena before l = validate_layout g arena [] l"
    unfolding validate_layout_def by simp
  with Cons.IH [of "before @ [l]"] Cons.prems show ?case by simp
qed simp

lemma built_layouts_valid:
  assumes "logical_block_size g \<noteq> 0" and "build_object_layout g slot objects = Inr ls"
    and "distinct (map so_id objects)" and "distinct (map so_name objects)"
  shows "validate_layouts g slot ls = Inr ()"
proof -
  obtain a b where arena: "slot_data_arena g slot = (a, b)" by force
  from assms(2) arena obtain e where loop: "layout_loop g a objects = Inr (ls, e)" and e: "e \<le> b"
    by (auto simp: build_object_layout_def Let_def result_simps not_less split: if_splits)
  note ok = layout_loop_ok [OF assms(1) loop]
  then have objs: "map ol_id ls = map so_id objects" "map ol_name ls = map so_name objects"
    by (auto simp: list_all2_conv_all_nth layout_of_def intro!: nth_equalityI)
  have entry: "validate_layout g (a, b) [] l = Inr ()" if "l \<in> set ls" for l
  proof -
    from ok that obtain object where l: "layout_of g object l" by (auto simp: list_all2_conv_all_nth in_set_conv_nth)
    from ok that chained_mem have "extent_in a e l" by blast
    then have m: "a \<le> ol_start_lba l"
        "checked_add (ol_start_lba l) (ucast (ol_block_count l)) = Some (ol_start_lba l + ucast (ol_block_count l))"
        "ol_start_lba l + ucast (ol_block_count l) \<le> e"
        "unat (ol_start_lba l + ucast (ol_block_count l)) = unat (ol_start_lba l) + unat (ol_block_count l)"
      by (simp_all add: extent_in_def)
    have len: "unat (ol_data_len l) = length (so_data object)" "length (so_data object) \<le> unat (ol_block_count l) * block_bytes g"
      using l by (simp_all add: layout_of_def)
    have "unat (ol_block_count l) * block_bytes g < 2 ^ 32 * 2 ^ 32"
      by (rule mult_strict_mono) (use unat_bound [of "logical_block_size g"] unat_bound [of "ol_block_count l"] in auto)
    then have "unat (ucast (ol_block_count l) * ucast (logical_block_size g) :: u64) = unat (ol_block_count l) * block_bytes g"
      by (subst unat_mult_lem [THEN iffD1]) simp_all
    with len have "(ucast (ol_data_len l) :: u64) \<le> ucast (ol_block_count l) * ucast (logical_block_size g)"
      by (simp add: word_le_nat_alt)
    moreover have "ol_data_len l = 0 \<longleftrightarrow> ol_block_count l = 0"
      using l len(1) by (auto simp: layout_of_def unat_eq_0)
    moreover have "ol_start_lba l \<le> b" using m(3,4) e by (auto simp: word_le_nat_alt)
    ultimately show ?thesis using m e by (auto simp: validate_layout_def ok_or_def not_less)
  qed
  then have "validate_entries g (a, b) [] ls = Inr ()"
    using assms(3,4) objs by (intro validate_entriesI) simp_all
  moreover have "windows_disjoint (sort_key fst (extents ls))"
    using chained_extents [of a ls e] ok by (simp add: sort_key_id_if_sorted)
  ultimately show ?thesis by (simp add: validate_layouts_def arena)
qed

end
