(* ===== verification/Obj_Store.thy ===== *)
theory Obj_Store
  imports Store_Format
begin

text \<open>
  The operations of the object store (\<open>store/src/lib.rs\<close>): formatting, mounting with the choice between
  the two superblock slots, staging and reading objects, and the commit that writes the payloads to the
  arena of the other slot, then its superblock, then flushes. Devices are given by a record of operations.
\<close>

record 'd object_store =
  st_device :: 'd
  st_geometry :: block_geometry
  st_generation :: u64
  st_active_slot :: u64
  st_objects :: "stored_object list"

datatype slot_load_error = LoadBlock block_io_error | LoadDecode slot_decode_error

section \<open>Device access\<close>

definition write_superblock :: "'d block_ops \<Rightarrow> block_geometry \<Rightarrow> u64 \<Rightarrow> superblock \<Rightarrow> 'd \<Rightarrow> (store_error + unit) \<times> 'd" where
  "write_superblock ops g slot sb d =
    (case write_blocks ops slot 1 (encode_superblock g sb) d of (r, d') \<Rightarrow> (map_err Block r, d'))"

definition read_superblock_slot :: "'d block_ops \<Rightarrow> block_geometry \<Rightarrow> u64 \<Rightarrow> 'd \<Rightarrow> (slot_load_error + superblock) \<times> 'd" where
  "read_superblock_slot ops g slot d =
    (case read_blocks ops slot 1 (block_bytes g) d of
       (Inl e, d') \<Rightarrow> (Inl (LoadBlock e), d')
     | (Inr bytes, d') \<Rightarrow> (map_err LoadDecode (decode_superblock g slot bytes), d'))"

text \<open>The chunks of a transfer: \<open>0..total_blocks.div_ceil(max_blocks)\<close>.\<close>

definition chunk_indices :: "block_geometry \<Rightarrow> nat \<Rightarrow> nat list" where
  "chunk_indices g blocks =
    (let max_blocks = unat (max_transfer_blocks g) in [0..<(blocks + max_blocks - 1) div max_blocks])"

fun write_chunks :: "'d block_ops \<Rightarrow> block_geometry \<Rightarrow> object_layout \<Rightarrow> nat list \<Rightarrow> 'd \<Rightarrow> (store_error + unit) \<times> 'd" where
  "write_chunks ops g object [] d = (Inr (), d)"
| "write_chunks ops g object (chunk_index # rest) d =
    (let max_blocks = unat (max_transfer_blocks g); total_blocks = unat (ol_block_count object);
         chunk_start = chunk_index * max_blocks; chunk_blocks = min max_blocks (total_blocks - chunk_start);
         buffer = replicate (chunk_blocks * block_bytes g) 0;
         data_start = chunk_start * block_bytes g; data_end = min (length (ol_data object)) (data_start + length buffer);
         buffer = (if data_start < data_end then write_at buffer 0 (slice (ol_data object) data_start data_end) else buffer)
     in case write_blocks ops (ol_start_lba object + of_nat chunk_start) (of_nat chunk_blocks) buffer d of
          (Inl e, d') \<Rightarrow> (Inl (Block e), d')
        | (Inr _, d') \<Rightarrow> write_chunks ops g object rest d')"

definition write_object_data :: "'d block_ops \<Rightarrow> block_geometry \<Rightarrow> object_layout \<Rightarrow> 'd \<Rightarrow> (store_error + unit) \<times> 'd" where
  "write_object_data ops g object d =
    (if ol_block_count object = 0 then (Inr (), d)
     else write_chunks ops g object (chunk_indices g (unat (ol_block_count object))) d)"

fun write_all_data :: "'d block_ops \<Rightarrow> block_geometry \<Rightarrow> object_layout list \<Rightarrow> 'd \<Rightarrow> (store_error + unit) \<times> 'd" where
  "write_all_data ops g [] d = (Inr (), d)"
| "write_all_data ops g (object # objects) d =
    (case write_object_data ops g object d of
       (Inl e, d') \<Rightarrow> (Inl e, d')
     | (Inr _, d') \<Rightarrow> write_all_data ops g objects d')"

fun read_chunks :: "'d block_ops \<Rightarrow> block_geometry \<Rightarrow> u64 \<Rightarrow> nat \<Rightarrow> nat list \<Rightarrow> bytes \<Rightarrow> 'd \<Rightarrow> (store_error + bytes) \<times> 'd" where
  "read_chunks ops g start_lba total_blocks [] buffer d = (Inr buffer, d)"
| "read_chunks ops g start_lba total_blocks (chunk_index # rest) buffer d =
    (let max_blocks = unat (max_transfer_blocks g);
         chunk_start = chunk_index * max_blocks; chunk_blocks = min max_blocks (total_blocks - chunk_start);
         byte_start = chunk_start * block_bytes g; byte_end = byte_start + chunk_blocks * block_bytes g
     in case read_blocks ops (start_lba + of_nat chunk_start) (of_nat chunk_blocks) (byte_end - byte_start) d of
          (Inl e, d') \<Rightarrow> (Inl (Block e), d')
        | (Inr bytes, d') \<Rightarrow> read_chunks ops g start_lba total_blocks rest (write_at buffer byte_start bytes) d')"

definition read_blocks_chunked :: "'d block_ops \<Rightarrow> block_geometry \<Rightarrow> u64 \<Rightarrow> u32 \<Rightarrow> bytes \<Rightarrow> 'd \<Rightarrow> (store_error + bytes) \<times> 'd" where
  "read_blocks_chunked ops g start_lba total_blocks buffer d =
     read_chunks ops g start_lba (unat total_blocks) (chunk_indices g (unat total_blocks)) buffer d"

definition read_object_data :: "'d block_ops \<Rightarrow> block_geometry \<Rightarrow> object_layout \<Rightarrow> 'd \<Rightarrow> (store_error + bytes) \<times> 'd" where
  "read_object_data ops g object d =
    (if ol_block_count object = 0 then (Inr [], d)
     else case read_blocks_chunked ops g (ol_start_lba object) (ol_block_count object)
                 (replicate (unat (ol_block_count object) * block_bytes g) 0) d of
         (Inl e, d') \<Rightarrow> (Inl e, d')
       | (Inr bytes, d') \<Rightarrow>
           (let bytes = take (unat (ol_data_len object)) bytes in
            if checksum bytes \<noteq> ol_data_checksum object then (Inl (Corrupt ObjectChecksumMismatch), d')
            else (Inr bytes, d')))"

fun load_objects :: "'d block_ops \<Rightarrow> block_geometry \<Rightarrow> object_layout list \<Rightarrow> 'd \<Rightarrow> (store_error + stored_object list) \<times> 'd" where
  "load_objects ops g [] d = (Inr [], d)"
| "load_objects ops g (layout # layouts) d =
    (case read_object_data ops g layout d of
       (Inl e, d') \<Rightarrow> (Inl e, d')
     | (Inr data, d') \<Rightarrow>
         (case load_objects ops g layouts d' of
            (Inl e, d'') \<Rightarrow> (Inl e, d'')
          | (Inr objects, d'') \<Rightarrow> (Inr (\<lparr>so_id = ol_id layout, so_name = ol_name layout, so_data = data\<rparr> # objects), d'')))"

section \<open>Selection of the committed state\<close>

text \<open>The last error of each kind met so far.\<close>

record select_errors =
  block_error :: "block_io_error option"
  incompatible_error :: "incompatible_error option"
  corrupt_error :: "corrupt_error option"

definition no_errors :: select_errors where
  "no_errors = \<lparr>block_error = None, incompatible_error = None, corrupt_error = None\<rparr>"

fun collect_candidates :: "(u64 \<times> (slot_load_error + superblock)) list \<Rightarrow> (u64 \<times> superblock) list \<Rightarrow> select_errors
    \<Rightarrow> (u64 \<times> superblock) list \<times> select_errors" where
  "collect_candidates [] candidates errors = (candidates, errors)"
| "collect_candidates ((slot, result) # rest) candidates errors =
    (case result of
       Inr sb \<Rightarrow> collect_candidates rest (candidates @ [(slot, sb)]) errors
     | Inl (LoadBlock e) \<Rightarrow> collect_candidates rest candidates (errors\<lparr>block_error := Some e\<rparr>)
     | Inl (LoadDecode (SlotIncompatible e)) \<Rightarrow> collect_candidates rest candidates (errors\<lparr>incompatible_error := Some e\<rparr>)
     | Inl (LoadDecode (SlotCorrupt e)) \<Rightarrow> collect_candidates rest candidates (errors\<lparr>corrupt_error := Some e\<rparr>))"

text \<open>Later generations first, the lower slot first among equal ones.\<close>

definition candidate_before :: "u64 \<times> superblock \<Rightarrow> u64 \<times> superblock \<Rightarrow> bool" where
  "candidate_before left right \<longleftrightarrow>
     sb_generation (snd right) < sb_generation (snd left) \<or>
     sb_generation (snd right) = sb_generation (snd left) \<and> fst left \<le> fst right"

fun insert_candidate :: "u64 \<times> superblock \<Rightarrow> (u64 \<times> superblock) list \<Rightarrow> (u64 \<times> superblock) list" where
  "insert_candidate c [] = [c]"
| "insert_candidate c (x # xs) = (if candidate_before c x then c # x # xs else x # insert_candidate c xs)"

definition sort_candidates :: "(u64 \<times> superblock) list \<Rightarrow> (u64 \<times> superblock) list" where
  "sort_candidates cs = foldr insert_candidate cs []"

fun select_error :: "select_errors \<Rightarrow> store_error" where
  "select_error errors =
    (case block_error errors of
       Some e \<Rightarrow> Block e
     | None \<Rightarrow>
         (case incompatible_error errors of
            Some e \<Rightarrow> Incompatible e
          | None \<Rightarrow> (case corrupt_error errors of Some e \<Rightarrow> Corrupt e | None \<Rightarrow> Incompatible BadMagic)))"

fun try_candidates :: "'d block_ops \<Rightarrow> block_geometry \<Rightarrow> (u64 \<times> superblock) list \<Rightarrow> select_errors \<Rightarrow> 'd
    \<Rightarrow> (store_error + u64 \<times> superblock \<times> stored_object list) \<times> 'd" where
  "try_candidates ops g [] errors d = (Inl (select_error errors), d)"
| "try_candidates ops g ((slot, sb) # rest) errors d =
    (case load_objects ops g (sb_objects sb) d of
       (Inr objects, d') \<Rightarrow> (Inr (slot, sb, objects), d')
     | (Inl (Corrupt e), d') \<Rightarrow> try_candidates ops g rest (errors\<lparr>corrupt_error := Some e\<rparr>) d'
     | (Inl (Block e), d') \<Rightarrow> try_candidates ops g rest (errors\<lparr>block_error := Some e\<rparr>) d'
     | (Inl (Incompatible e), d') \<Rightarrow> try_candidates ops g rest (errors\<lparr>incompatible_error := Some e\<rparr>) d'
     | (Inl e, d') \<Rightarrow> (Inl e, d'))"

definition select_committed_state :: "'d block_ops \<Rightarrow> block_geometry \<Rightarrow> 'd
    \<Rightarrow> (store_error + u64 \<times> superblock \<times> stored_object list) \<times> 'd" where
  "select_committed_state ops g d =
    (let (slot0, d) = read_superblock_slot ops g 0 d; (slot1, d) = read_superblock_slot ops g 1 d;
         (candidates, errors) = collect_candidates [(0, slot0), (1, slot1)] [] no_errors
     in try_candidates ops g (sort_candidates candidates) errors d)"

section \<open>Operations\<close>

definition store_format :: "'d block_ops \<Rightarrow> 'd \<Rightarrow> store_error + 'd object_store" where
  "store_format ops d =
     rbind (validate_geometry (dev_geometry ops d)) (\<lambda>g.
       let sb = \<lparr>sb_generation = 0, sb_object_count = 0, sb_objects = []\<rparr> in
       case write_superblock ops g 0 sb d of
         (Inl e, _) \<Rightarrow> Inl e
       | (Inr _, d) \<Rightarrow>
           (case write_superblock ops g 1 sb d of
              (Inl e, _) \<Rightarrow> Inl e
            | (Inr _, d) \<Rightarrow>
                (case dev_flush ops d of
                   (Inl e, _) \<Rightarrow> Inl (Block e)
                 | (Inr _, d) \<Rightarrow>
                     Inr \<lparr>st_device = d, st_geometry = g, st_generation = 0, st_active_slot = 0, st_objects = []\<rparr>)))"

definition mount :: "'d block_ops \<Rightarrow> 'd \<Rightarrow> store_error + 'd object_store" where
  "mount ops d =
     rbind (validate_geometry (dev_geometry ops d)) (\<lambda>g.
       case select_committed_state ops g d of
         (Inl e, _) \<Rightarrow> Inl e
       | (Inr (slot, sb, objects), d) \<Rightarrow>
           Inr \<lparr>st_device = d, st_geometry = g, st_generation = sb_generation sb, st_active_slot = slot, st_objects = objects\<rparr>)"

text \<open>The position of the object that a write replaces, if any.\<close>

fun target_index :: "nat option \<Rightarrow> nat option \<Rightarrow> store_error + nat option" where
  "target_index (Some left) (Some right) = (if left = right then Inr (Some left) else Inl IdentityConflict)"
| "target_index (Some index) None = Inr (Some index)"
| "target_index None (Some index) = Inr (Some index)"
| "target_index None None = Inr None"

definition write_object :: "u64 \<Rightarrow> bytes \<Rightarrow> bytes \<Rightarrow> 'd object_store \<Rightarrow> (store_error + unit) \<times> 'd object_store" where
  "write_object oid name data st =
    (case validate_object_name name of
       Inl e \<Rightarrow> (Inl e, st)
     | Inr _ \<Rightarrow>
         if length data \<ge> 2 ^ 32 then (Inl (ObjectTooLarge (length data) (- 1)), st)
         else let object = \<lparr>so_id = oid, so_name = name, so_data = data\<rparr> in
           (case target_index (position (\<lambda>x. so_id x = oid) (st_objects st)) (position (\<lambda>x. so_name x = name) (st_objects st)) of
              Inl e \<Rightarrow> (Inl e, st)
            | Inr (Some index) \<Rightarrow> (Inr (), st\<lparr>st_objects := (st_objects st)[index := object]\<rparr>)
            | Inr None \<Rightarrow>
                if length (st_objects st) = MAX_OBJECTS then (Inl (ObjectTableFull MAX_OBJECTS), st)
                else (Inr (), st\<lparr>st_objects := st_objects st @ [object]\<rparr>)))"

definition read_object_by_id :: "u64 \<Rightarrow> 'd object_store \<Rightarrow> store_error + bytes" where
  "read_object_by_id oid st = ok_or NotFound (map_option so_data (List.find (\<lambda>x. so_id x = oid) (st_objects st)))"

definition read_object_by_name :: "bytes \<Rightarrow> 'd object_store \<Rightarrow> store_error + bytes" where
  "read_object_by_name name st = ok_or NotFound (map_option so_data (List.find (\<lambda>x. so_name x = name) (st_objects st)))"

definition commit :: "'d block_ops \<Rightarrow> 'd object_store \<Rightarrow> (store_error + unit) \<times> 'd object_store" where
  "commit ops st =
    (let next_slot = (st_active_slot st + 1) mod SUPERBLOCK_SLOTS in
     case checked_add (st_generation st) 1 of
       None \<Rightarrow> (Inl GenerationExhausted, st)
     | Some next_generation \<Rightarrow>
         (case build_object_layout (st_geometry st) next_slot (st_objects st) of
            Inl e \<Rightarrow> (Inl e, st)
          | Inr layout \<Rightarrow>
              (case write_all_data ops (st_geometry st) layout (st_device st) of
                 (Inl e, d) \<Rightarrow> (Inl e, st\<lparr>st_device := d\<rparr>)
               | (Inr _, d) \<Rightarrow>
                   let sb = \<lparr>sb_generation = next_generation, sb_object_count = of_nat (length layout), sb_objects = layout\<rparr> in
                   (case write_superblock ops (st_geometry st) next_slot sb d of
                      (Inl e, d) \<Rightarrow> (Inl e, st\<lparr>st_device := d\<rparr>)
                    | (Inr _, d) \<Rightarrow>
                        (case dev_flush ops d of
                           (Inl e, d) \<Rightarrow> (Inl (Block e), st\<lparr>st_device := d\<rparr>)
                         | (Inr _, d) \<Rightarrow>
                             (Inr (), st\<lparr>st_device := d, st_generation := next_generation, st_active_slot := next_slot\<rparr>))))))"

section \<open>Staged objects\<close>

text \<open>Identifiers and names are unique, names are well formed and the table has room for all objects.\<close>

definition objects_ok :: "stored_object list \<Rightarrow> bool" where
  "objects_ok objects \<longleftrightarrow> length objects \<le> 7 \<and> distinct (map so_id objects) \<and> distinct (map so_name objects) \<and>
     (\<forall>object\<in>set objects. name_ok (so_name object) \<and> length (so_data object) < 2 ^ 32)"

lemma position_map_distinct:
  assumes "distinct (map f xs)" and "i < length xs" and "position (\<lambda>x. f x = v) xs = Some i \<or> position (\<lambda>x. f x = v) xs = None"
    and "f y = v"
  shows "distinct (map f (xs[i := y]))"
proof -
  have other: "f (xs ! j) \<noteq> v" if "j < length xs" "j \<noteq> i" for j
  proof (cases "position (\<lambda>x. f x = v) xs")
    case None
    then show ?thesis using that by (auto simp: position_None)
  next
    case (Some k)
    with assms(3) have "k = i" by simp
    with Some have "f (xs ! i) = v" using position_SomeD by fastforce
    with assms(1,2) that show ?thesis by (auto simp: distinct_conv_nth)
  qed
  show ?thesis
    unfolding distinct_conv_nth
  proof (intro allI impI)
    fix j k
    assume "j < length (map f (xs[i := y]))" "k < length (map f (xs[i := y]))" "j \<noteq> k"
    then show "map f (xs[i := y]) ! j \<noteq> map f (xs[i := y]) ! k"
      using assms(1,2,4) other [of j] other [of k] by (auto simp: nth_list_update distinct_conv_nth)
  qed
qed

lemma write_object_cases:
  obtains (refused) e where "write_object oid name data st = (Inl e, st)"
  | (replaced) i where "i < length (st_objects st)" and "length name \<le> 32" "name \<noteq> []" "length data < 2 ^ 32"
      and "position (\<lambda>x. so_id x = oid) (st_objects st) \<in> {Some i, None}"
      and "position (\<lambda>x. so_name x = name) (st_objects st) \<in> {Some i, None}"
      and "position (\<lambda>x. so_id x = oid) (st_objects st) = Some i \<or> position (\<lambda>x. so_name x = name) (st_objects st) = Some i"
      and "write_object oid name data st =
        (Inr (), st\<lparr>st_objects := (st_objects st)[i := \<lparr>so_id = oid, so_name = name, so_data = data\<rparr>]\<rparr>)"
  | (added) "length (st_objects st) \<noteq> 7" and "length name \<le> 32" "name \<noteq> []" "length data < 2 ^ 32"
      and "position (\<lambda>x. so_id x = oid) (st_objects st) = None" and "position (\<lambda>x. so_name x = name) (st_objects st) = None"
      and "write_object oid name data st =
        (Inr (), st\<lparr>st_objects := st_objects st @ [\<lparr>so_id = oid, so_name = name, so_data = data\<rparr>]\<rparr>)"
proof (cases "name \<noteq> [] \<and> length name \<le> 32 \<and> length data < 2 ^ 32")
  case True
  let ?p = "position (\<lambda>x. so_id x = oid) (st_objects st)" and ?q = "position (\<lambda>x. so_name x = name) (st_objects st)"
  have bound: "i < length (st_objects st)" if "?p = Some i \<or> ?q = Some i" for i
    using that position_SomeD by fastforce
  from True have w: "write_object oid name data st =
      (let object = \<lparr>so_id = oid, so_name = name, so_data = data\<rparr> in case target_index ?p ?q of
         Inl e \<Rightarrow> (Inl e, st)
       | Inr (Some index) \<Rightarrow> (Inr (), st\<lparr>st_objects := (st_objects st)[index := object]\<rparr>)
       | Inr None \<Rightarrow> if length (st_objects st) = MAX_OBJECTS then (Inl (ObjectTableFull MAX_OBJECTS), st)
           else (Inr (), st\<lparr>st_objects := st_objects st @ [object]\<rparr>))"
    by (simp add: write_object_def validate_object_name_def MAX_OBJECT_NAME_BYTES_def)
  show ?thesis
  proof (cases "target_index ?p ?q")
    case (Inl e)
    with w refused show ?thesis by (simp add: Let_def)
  next
    case (Inr t)
    show ?thesis
    proof (cases t)
      case None
      with Inr have pq: "?p = None" "?q = None" by (cases ?p; cases ?q; simp split: if_splits)+
      show ?thesis
      proof (cases "length (st_objects st) = 7")
        case True
        with w Inr None refused show ?thesis by (simp add: Let_def MAX_OBJECTS_def)
      next
        case False
        with w Inr None added pq \<open>name \<noteq> [] \<and> length name \<le> 32 \<and> length data < 2 ^ 32\<close> show ?thesis
          by (simp add: Let_def MAX_OBJECTS_def)
      qed
    next
      case (Some i)
      with Inr have pq: "?p \<in> {Some i, None}" "?q \<in> {Some i, None}" "?p = Some i \<or> ?q = Some i"
        by (cases ?p; cases ?q; simp split: if_splits)+
      show ?thesis by (rule replaced [of i]) (use w Inr Some bound True pq in \<open>simp_all add: Let_def\<close>)
    qed
  qed
next
  case False
  then have "\<exists>e. write_object oid name data st = (Inl e, st)"
    by (cases "name = []"; cases "length name \<le> 32")
      (simp_all add: write_object_def validate_object_name_def MAX_OBJECT_NAME_BYTES_def not_less)
  then show ?thesis using refused by blast
qed

lemma write_object_ok:
  assumes "objects_ok (st_objects st)" and "from_utf8 name"
  shows "objects_ok (st_objects (snd (write_object oid name data st)))"
proof (cases rule: write_object_cases [of oid name data st])
  case (refused e)
  with assms show ?thesis by simp
next
  case (replaced i)
  let ?o = "\<lparr>so_id = oid, so_name = name, so_data = data\<rparr>" and ?xs = "st_objects st"
  from assms(1) have ok: "distinct (map so_id ?xs)" "distinct (map so_name ?xs)" by (simp_all add: objects_ok_def)
  have "distinct (map so_id (?xs[i := ?o]))"
    by (rule position_map_distinct [OF ok(1) replaced(1)]) (use replaced in auto)
  moreover have "distinct (map so_name (?xs[i := ?o]))"
    by (rule position_map_distinct [OF ok(2) replaced(1)]) (use replaced in auto)
  moreover have "name_ok (so_name x) \<and> length (so_data x) < 2 ^ 32" if "x \<in> set (?xs[i := ?o])" for x
    using set_update_subset_insert [of ?xs i ?o] that assms replaced
    by (auto simp: objects_ok_def name_ok_def)
  ultimately show ?thesis using assms(1) replaced by (simp add: objects_ok_def)
next
  case added
  with assms show ?thesis by (auto simp: objects_ok_def name_ok_def position_None)
qed

end
