(* ===== verification/Store_Crash.thy ===== *)
theory Store_Crash
  imports Obj_Store
begin

text \<open>
  Durability of the object store. A commit touches only the arena and the superblock block of the slot
  that is not active, on the live and on the durable image, wherever it stops. From this follow that a
  commit that reports success is what the next mount finds, and that a crash at any point of a commit
  leaves either the committed state or a newer one whose payloads pass their checksums. The results hold
  for every device that keeps the contract \<open>block_device\<close>.
\<close>

section \<open>Images\<close>

definition same_outside :: "(nat \<Rightarrow> bool) \<Rightarrow> bytes \<Rightarrow> bytes \<Rightarrow> bool" where
  "same_outside P img img' \<longleftrightarrow> length img' = length img \<and> (\<forall>i<length img. \<not> P i \<longrightarrow> img' ! i = img ! i)"

lemma same_outside_refl [simp]: "same_outside P img img"
  by (simp add: same_outside_def)

lemma same_outside_trans: "same_outside P a b \<Longrightarrow> same_outside P b c \<Longrightarrow> same_outside P a c"
  by (simp add: same_outside_def)

lemma same_outside_mono: "same_outside P a b \<Longrightarrow> (\<And>i. P i \<Longrightarrow> Q i) \<Longrightarrow> same_outside Q a b"
  by (auto simp: same_outside_def)

lemma same_outside_write:
  "a + length bs \<le> length img \<Longrightarrow> (\<And>i. a \<le> i \<Longrightarrow> i < a + length bs \<Longrightarrow> P i) \<Longrightarrow> same_outside P img (write_at img a bs)"
  by (auto simp: same_outside_def nth_write_at)

lemma same_outside_slice:
  assumes "same_outside P img img'" and "\<And>i. a \<le> i \<Longrightarrow> i < b \<Longrightarrow> \<not> P i"
  shows "slice img' a b = slice img a b"
proof (rule nth_equalityI)
  show "length (slice img' a b) = length (slice img a b)" using assms(1) by (simp add: same_outside_def)
  fix i assume "i < length (slice img' a b)"
  then have i: "i < b - a" "i < length img - a" "a + i < b" using assms(1) by (auto simp: same_outside_def)
  with assms show "slice img' a b ! i = slice img a b ! i"
    by (simp add: slice_def same_outside_def)
qed

lemma slice_slice: "k + j \<le> n \<Longrightarrow> slice (slice xs a (a + n)) k (k + j) = slice xs (a + k) (a + k + j)"
  by (simp add: slice_def drop_take min_def ac_simps)

lemma take_write_at: "a + length bs \<le> length buf \<Longrightarrow> take (a + length bs) (write_at buf a bs) = take a buf @ bs"
  by (simp add: write_at_def)

lemma slice_drop: "slice xs k (k + j) @ drop (k + j) xs = drop k xs"
  using append_take_drop_id [of j "drop k xs"] by (simp add: slice_def add.commute)

lemma write_at_write_at:
  "a + length xs + length ys \<le> length img \<Longrightarrow> write_at (write_at img a xs) (a + length xs) ys = write_at img a (xs @ ys)"
  by (simp add: write_at_def ac_simps)

lemma write_at_Nil [simp]: "a \<le> length img \<Longrightarrow> write_at img a [] = img"
  by (simp add: write_at_def)

section \<open>Chunks\<close>

lemma chunk_bound:
  fixes c m n :: nat
  assumes "0 < m" and "c < (n + m - 1) div m"
  shows "c * m < n"
proof -
  have "Suc c * m \<le> n + m - 1" using assms by (metis Suc_leI div_times_less_eq_dividend le_trans mult_le_mono1)
  then show ?thesis using assms(1) by simp
qed

lemma chunk_cover: "0 < m \<Longrightarrow> n \<le> (n + m - 1) div m * m" for m n :: nat
proof -
  assume m: "0 < m"
  have "n + m - 1 < Suc ((n + m - 1) div m) * m" using m by (metis dividend_less_div_times mult.commute mult_Suc add.commute)
  then show ?thesis using m by simp
qed

definition padded :: "block_geometry \<Rightarrow> object_layout \<Rightarrow> bytes" where
  "padded g object = ol_data object @ replicate (unat (ol_block_count object) * block_bytes g - length (ol_data object)) 0"

definition chunk_buffer :: "block_geometry \<Rightarrow> object_layout \<Rightarrow> nat \<Rightarrow> bytes" where
  "chunk_buffer g object c =
    (let m = unat (max_transfer_blocks g); n = min m (unat (ol_block_count object) - c * m) in
     slice (padded g object) (c * m * block_bytes g) ((c * m + n) * block_bytes g))"

lemma chunk_buffer_eq:
  assumes "length (ol_data object) \<le> unat (ol_block_count object) * block_bytes g"
    and "c * unat (max_transfer_blocks g) < unat (ol_block_count object)"
  defines "m \<equiv> unat (max_transfer_blocks g)"
  defines "n \<equiv> min m (unat (ol_block_count object) - c * m)"
  defines "buffer \<equiv> replicate (n * block_bytes g) 0"
  defines "s \<equiv> c * m * block_bytes g"
  defines "e \<equiv> min (length (ol_data object)) (s + length buffer)"
  shows "(if s < e then write_at buffer 0 (slice (ol_data object) s e) else buffer) = chunk_buffer g object c"
    and "length (chunk_buffer g object c) = n * block_bytes g"
proof -
  let ?bs = "block_bytes g" and ?d = "ol_data object"
  have "(c * m + n) * ?bs \<le> unat (ol_block_count object) * ?bs"
    using assms(2) by (intro mult_le_mono1) (simp add: n_def m_def)
  then have le: "s + n * ?bs \<le> unat (ol_block_count object) * ?bs" by (simp add: s_def algebra_simps)
  then have len: "s + n * ?bs \<le> length (padded g object)" using assms(1) by (simp add: padded_def)
  have cb: "chunk_buffer g object c = slice (padded g object) s (s + n * ?bs)"
    by (simp add: chunk_buffer_def Let_def s_def n_def m_def algebra_simps)
  then show "length (chunk_buffer g object c) = n * ?bs" using len by simp
  show "(if s < e then write_at buffer 0 (slice ?d s e) else buffer) = chunk_buffer g object c"
  proof (rule nth_equalityI)
    show "length (if s < e then write_at buffer 0 (slice ?d s e) else buffer) = length (chunk_buffer g object c)"
      using len by (simp add: cb e_def buffer_def)
    fix i assume "i < length (if s < e then write_at buffer 0 (slice ?d s e) else buffer)"
    then have i: "i < n * ?bs" by (simp add: buffer_def e_def split: if_splits)
    with len have "chunk_buffer g object c ! i = padded g object ! (s + i)" by (simp add: cb slice_nth)
    also have "\<dots> = (if s + i < length ?d then ?d ! (s + i) else 0)"
      using i le by (simp add: padded_def nth_append)
    finally show "(if s < e then write_at buffer 0 (slice ?d s e) else buffer) ! i = chunk_buffer g object c ! i"
      using i by (auto simp: e_def buffer_def nth_write_at slice_nth)
  qed
qed

lemma take_chunk:
  assumes "length (ol_data object) \<le> unat (ol_block_count object) * block_bytes g"
    and "c * unat (max_transfer_blocks g) < unat (ol_block_count object)"
  shows "take (c * unat (max_transfer_blocks g) * block_bytes g) (padded g object) @ chunk_buffer g object c =
    take (Suc c * unat (max_transfer_blocks g) * block_bytes g) (padded g object)"
proof -
  let ?bs = "block_bytes g" and ?m = "unat (max_transfer_blocks g)" and ?b = "unat (ol_block_count object)"
  let ?n = "min ?m (?b - c * ?m)"
  have "take (c * ?m * ?bs) (padded g object) @ chunk_buffer g object c = take ((c * ?m + ?n) * ?bs) (padded g object)"
    by (simp add: chunk_buffer_def Let_def slice_def algebra_simps take_add [symmetric])
  also have "\<dots> = take (Suc c * ?m * ?bs) (padded g object)"
  proof (cases "?m \<le> ?b - c * ?m")
    case False
    then have "?b * ?bs \<le> Suc c * ?m * ?bs" "c * ?m + ?n = ?b" using assms(2) by (auto intro!: mult_le_mono1)
    moreover have "length (padded g object) = ?b * ?bs" using assms(1) by (simp add: padded_def)
    ultimately show ?thesis by simp
  qed (simp add: algebra_simps)
  finally show ?thesis .
qed

section \<open>Writing payloads\<close>

text \<open>The bytes of an object's extent.\<close>

definition in_extent :: "block_geometry \<Rightarrow> object_layout \<Rightarrow> nat \<Rightarrow> bool" where
  "in_extent g object i \<longleftrightarrow> unat (ol_start_lba object) * block_bytes g \<le> i \<and>
     i < (unat (ol_start_lba object) + unat (ol_block_count object)) * block_bytes g"

definition extent_ok :: "block_geometry \<Rightarrow> object_layout \<Rightarrow> bool" where
  "extent_ok g object \<longleftrightarrow> length (ol_data object) \<le> unat (ol_block_count object) * block_bytes g \<and>
     unat (ol_start_lba object) + unat (ol_block_count object) \<le> unat (block_count g)"

lemma chunk_lba:
  fixes lba :: u64
  assumes "unat lba + n \<le> unat (block_count g)" and "k \<le> n"
  shows "unat (lba + of_nat k) = unat lba + k"
proof -
  have "unat lba + k < 2 ^ 64" using assms unat_bound [of "block_count g"] by simp
  then show ?thesis by (subst unat_add_lem [THEN iffD1]) (simp_all add: unsigned_of_nat take_bit_nat_eq_self)
qed

lemma chunk_range:
  fixes c m b s t bs :: nat
  assumes "c * m < b"
  shows "s * bs \<le> (s + c * m) * bs" and "(s + c * m) * bs + min m (b - c * m) * bs \<le> (s + b) * bs"
proof -
  have "s + c * m + min m (b - c * m) \<le> s + b" using assms by simp
  then have "(s + c * m + min m (b - c * m)) * bs \<le> (s + b) * bs" by (rule mult_le_mono1)
  then show "(s + c * m) * bs + min m (b - c * m) * bs \<le> (s + b) * bs" by (simp add: add_mult_distrib)
qed simp

abbreviation "max_blocks g \<equiv> unat (max_transfer_blocks g)"
abbreviation "chunk_count g n \<equiv> (n + max_blocks g - 1) div max_blocks g"

lemma write_chunks_step:
  assumes "extent_ok g object" and "max_transfer_blocks g \<noteq> 0" and "c < chunk_count g (unat (ol_block_count object))"
  shows "write_chunks ops g object [c..<chunk_count g (unat (ol_block_count object))] d =
    (case write_blocks ops (ol_start_lba object + of_nat (c * max_blocks g))
            (of_nat (min (max_blocks g) (unat (ol_block_count object) - c * max_blocks g))) (chunk_buffer g object c) d of
       (Inl e, d') \<Rightarrow> (Inl (Block e), d')
     | (Inr _, d') \<Rightarrow> write_chunks ops g object [Suc c..<chunk_count g (unat (ol_block_count object))] d')"
proof -
  have "0 < max_blocks g" using assms(2) by (simp add: unat_gt_0)
  with assms(3) have c: "c * max_blocks g < unat (ol_block_count object)" by (rule chunk_bound [rotated])
  have l: "length (ol_data object) \<le> unat (ol_block_count object) * block_bytes g" using assms(1) by (simp add: extent_ok_def)
  show ?thesis
    unfolding upt_conv_Cons [OF assms(3)] write_chunks.simps Let_def chunk_buffer_eq(1) [OF l c] by (rule refl)
qed

context block_device
begin

lemma write_frame:
  assumes "ok d" and "write_blocks ops lba n buf d = (r, d')" and "dev_geometry ops d = g"
    and "\<And>i. unat lba * block_bytes g \<le> i \<Longrightarrow> i < unat lba * block_bytes g + length buf \<Longrightarrow> P i"
  shows "ok d' \<and> dev_geometry ops d' = g \<and> same_outside P (live d) (live d') \<and> same_outside P (durable d) (durable d')"
proof -
  note im = images [OF assms(1), unfolded assms(3)] and w = write_law [OF assms(1,2), unfolded assms(3)]
  have "same_outside P img (image_write g img lba buf)"
    if "transfer_fits g lba n (length buf) True" "length img = unat (capacity_bytes g)" for img
    unfolding image_write_def
    by (rule same_outside_write) (use validate_transfer_eq(2) [of g lba n "length buf" True] im that assms(4) in auto)
  with w im show ?thesis by auto
qed

lemma write_chunks_law:
  assumes "ok d" and "dev_geometry ops d = g" and "extent_ok g object" and "max_transfer_blocks g \<noteq> 0"
    and "write_chunks ops g object [c..<chunk_count g (unat (ol_block_count object))] d = (r, d')"
  shows "ok d' \<and> dev_geometry ops d' = g \<and> same_outside (in_extent g object) (live d) (live d') \<and>
    same_outside (in_extent g object) (durable d) (durable d') \<and>
    (r = Inr () \<longrightarrow> live d = write_at img (unat (ol_start_lba object) * block_bytes g)
        (take (c * max_blocks g * block_bytes g) (padded g object)) \<longrightarrow> length img = unat (capacity_bytes g) \<longrightarrow>
      live d' = write_at img (unat (ol_start_lba object) * block_bytes g) (padded g object))"
  using assms
proof (induction "chunk_count g (unat (ol_block_count object)) - c" arbitrary: c d)
  case 0
  have "0 < max_blocks g" using 0(5) by (simp add: unat_gt_0)
  note chunk_cover [OF this, of "unat (ol_block_count object)"]
  also have "chunk_count g (unat (ol_block_count object)) * max_blocks g \<le> c * max_blocks g"
    by (rule mult_le_mono1) (use 0(1) in linarith)
  finally have "unat (ol_block_count object) * block_bytes g \<le> c * max_blocks g * block_bytes g" by (rule mult_le_mono1)
  moreover have "length (padded g object) = unat (ol_block_count object) * block_bytes g"
    using 0(4) by (simp add: padded_def extent_ok_def)
  ultimately show ?case using 0 by simp
next
  case (Suc x)
  let ?b = "unat (ol_block_count object)" and ?m = "max_blocks g" and ?bs = "block_bytes g"
  let ?s = "unat (ol_start_lba object)" and ?buf = "chunk_buffer g object c"
  have c: "c < chunk_count g ?b" using Suc(2) by simp
  have m: "0 < ?m" using Suc.prems(4) by (simp add: unat_gt_0)
  have cm: "c * ?m < ?b" by (rule chunk_bound [OF m c])
  have ext: "length (ol_data object) \<le> ?b * ?bs" "?s + ?b \<le> unat (block_count g)"
    using Suc.prems(3) by (simp_all add: extent_ok_def)
  then have pl: "length (padded g object) = ?b * ?bs" by (simp add: padded_def)
  note lba = chunk_lba [OF ext(2) less_imp_le [OF cm]] and range = chunk_range [OF cm, of ?s ?bs]
  have len: "length ?buf = min ?m (?b - c * ?m) * ?bs" by (rule chunk_buffer_eq(2) [OF ext(1) cm])
  obtain r1 d1 where w: "write_blocks ops (ol_start_lba object + of_nat (c * ?m)) (of_nat (min ?m (?b - c * ?m))) ?buf d = (r1, d1)"
    by force
  have f: "ok d1 \<and> dev_geometry ops d1 = g \<and> same_outside (in_extent g object) (live d) (live d1) \<and>
      same_outside (in_extent g object) (durable d) (durable d1)"
    by (rule write_frame [OF Suc.prems(1) w Suc.prems(2)]) (unfold in_extent_def lba len, use range in linarith)
  note step = Suc.prems(5) [unfolded write_chunks_step [OF Suc.prems(3,4) c] w]
  show ?case
  proof (cases r1)
    case (Inl e)
    with step have "r = Inl (Block e)" "d' = d1" by simp_all
    with f show ?thesis by simp
  next
    case (Inr u)
    with step have rest: "write_chunks ops g object [Suc c..<chunk_count g ?b] d1 = (r, d')" by simp
    from Suc.hyps(1) [of "Suc c" d1] f Suc.prems(3,4) rest Suc.hyps(2)
    have ih: "ok d' \<and> dev_geometry ops d' = g \<and> same_outside (in_extent g object) (live d1) (live d') \<and>
        same_outside (in_extent g object) (durable d1) (durable d') \<and>
        (r = Inr () \<longrightarrow> live d1 = write_at img (?s * ?bs) (take (Suc c * ?m * ?bs) (padded g object)) \<longrightarrow>
          length img = unat (capacity_bytes g) \<longrightarrow> live d' = write_at img (?s * ?bs) (padded g object))" by simp
    have "live d1 = write_at img (?s * ?bs) (take (Suc c * ?m * ?bs) (padded g object))"
      if l: "live d = write_at img (?s * ?bs) (take (c * ?m * ?bs) (padded g object))" and i: "length img = unat (capacity_bytes g)"
    proof -
      have "live d1 = write_at (live d) ((?s + c * ?m) * ?bs) ?buf"
        using write_law [OF Suc.prems(1) w] Suc.prems(2) Inr lba by (auto simp: image_write_def)
      moreover have "length (take (c * ?m * ?bs) (padded g object)) = c * ?m * ?bs"
        using pl mult_le_mono1 [OF less_imp_le [OF cm], of ?bs] by simp
      moreover have "?s * ?bs + c * ?m * ?bs + length ?buf \<le> length img"
      proof -
        have "(?s + ?b) * ?bs \<le> unat (block_count g) * ?bs" using ext(2) by (rule mult_le_mono1)
        moreover have "length img = unat (block_count g) * ?bs"
          using i images [OF Suc.prems(1)] Suc.prems(2) by (simp add: geometry_ok_def mult.commute)
        moreover have "(?s + c * ?m) * ?bs = ?s * ?bs + c * ?m * ?bs" by (rule add_mult_distrib)
        ultimately show ?thesis using range(2) len by linarith
      qed
      ultimately show ?thesis
        using write_at_write_at [of "?s * ?bs" "take (c * ?m * ?bs) (padded g object)" ?buf img]
        by (simp add: l take_chunk [OF ext(1) cm] add_mult_distrib)
    qed
    with ih f show ?thesis by (meson same_outside_trans)
  qed
qed

lemma write_object_data_law:
  assumes "ok d" and "dev_geometry ops d = g" and "extent_ok g object" and "max_transfer_blocks g \<noteq> 0"
    and "write_object_data ops g object d = (r, d')"
  shows "ok d' \<and> dev_geometry ops d' = g \<and> same_outside (in_extent g object) (live d) (live d') \<and>
    same_outside (in_extent g object) (durable d) (durable d') \<and>
    (r = Inr () \<longrightarrow> live d' = write_at (live d) (unat (ol_start_lba object) * block_bytes g) (padded g object))"
proof -
  have im: "length (live d) = unat (block_count g) * block_bytes g"
    using images [OF assms(1)] assms(2) by (simp add: geometry_ok_def mult.commute)
  have s: "unat (ol_start_lba object) * block_bytes g \<le> length (live d)"
    unfolding im by (rule mult_le_mono1) (use assms(3) in \<open>simp add: extent_ok_def\<close>)
  show ?thesis
  proof (cases "ol_block_count object = 0")
    case True
    with assms have "d' = d" "padded g object = []" by (simp_all add: write_object_data_def padded_def extent_ok_def)
    with assms s show ?thesis by simp
  next
    case False
    with assms(5) have w: "write_chunks ops g object [0..<chunk_count g (unat (ol_block_count object))] d = (r, d')"
      by (simp add: write_object_data_def chunk_indices_def Let_def)
    from write_chunks_law [OF assms(1-4) w, of "live d"] s im images [OF assms(1)] assms(2) show ?thesis by simp
  qed
qed

text \<open>The payloads of a chain of layouts, written one after the other.\<close>

lemma write_all_data_law:
  assumes "ok d" and "dev_geometry ops d = g" and "\<forall>l\<in>set ls. extent_ok g l" and "max_transfer_blocks g \<noteq> 0"
    and "chained lba ls e" and "write_all_data ops g ls d = (r, d')"
  defines "P \<equiv> \<lambda>i. unat lba * block_bytes g \<le> i \<and> i < unat e * block_bytes g"
  shows "ok d' \<and> dev_geometry ops d' = g \<and> same_outside P (live d) (live d') \<and> same_outside P (durable d) (durable d') \<and>
    (r = Inr () \<longrightarrow> (\<forall>l\<in>set ls. image_blocks g (live d') (ol_start_lba l) (unat (ol_block_count l) * block_bytes g) = padded g l))"
  using assms(1-6) unfolding P_def
proof (induction ls arbitrary: lba d)
  case (Cons l ls)
  let ?bs = "block_bytes g" and ?n = "lba + ucast (ol_block_count l) :: u64"
  from Cons.prems(5) have l: "ol_start_lba l = lba" "unat lba + unat (ol_block_count l) < 2 ^ 64" and c: "chained ?n ls e"
    by simp_all
  note n = chained_step [OF l(2)]
  from chained_mem [OF c] have ne: "unat ?n \<le> unat e" by (simp add: word_le_nat_alt)
  obtain r1 d1 where w: "write_object_data ops g l d = (r1, d1)" by force
  from Cons.prems(3) have xl: "extent_ok g l" by simp
  note law = write_object_data_law [OF Cons.prems(1,2) xl Cons.prems(4) w]
  have inside: "unat lba * ?bs \<le> i \<and> i < unat e * ?bs" if "in_extent g l i" for i
  proof -
    from that l n have "unat lba * ?bs \<le> i" "i < unat ?n * ?bs" by (simp_all add: in_extent_def)
    then show ?thesis using mult_le_mono1 [OF ne, of ?bs] by linarith
  qed
  have f: "same_outside (\<lambda>i. unat lba * ?bs \<le> i \<and> i < unat e * ?bs) (live d) (live d1)"
      "same_outside (\<lambda>i. unat lba * ?bs \<le> i \<and> i < unat e * ?bs) (durable d) (durable d1)"
    by (rule same_outside_mono [OF _ inside]; use law in blast)+
  show ?case
  proof (cases r1)
    case (Inl x)
    with Cons.prems(6) w have "d' = d1" "r = Inl x" by simp_all
    with f law show ?thesis by simp
  next
    case (Inr u)
    with Cons.prems(6) w have w2: "write_all_data ops g ls d1 = (r, d')" by simp
    have ih: "ok d' \<and> dev_geometry ops d' = g \<and>
        same_outside (\<lambda>i. unat ?n * ?bs \<le> i \<and> i < unat e * ?bs) (live d1) (live d') \<and>
        same_outside (\<lambda>i. unat ?n * ?bs \<le> i \<and> i < unat e * ?bs) (durable d1) (durable d') \<and>
        (r = Inr () \<longrightarrow> (\<forall>l\<in>set ls. image_blocks g (live d') (ol_start_lba l) (unat (ol_block_count l) * ?bs) = padded g l))"
      by (rule Cons.IH) (use law Cons.prems c w2 in simp_all)
    have lb: "unat lba * ?bs \<le> unat ?n * ?bs" using n by simp
    then have wider: "unat lba * ?bs \<le> i \<and> i < unat e * ?bs" if "unat ?n * ?bs \<le> i \<and> i < unat e * ?bs" for i
      using that by linarith
    have tail: "same_outside (\<lambda>i. unat lba * ?bs \<le> i \<and> i < unat e * ?bs) (live d1) (live d')"
        "same_outside (\<lambda>i. unat lba * ?bs \<le> i \<and> i < unat e * ?bs) (durable d1) (durable d')"
      by (rule same_outside_mono [OF _ wider]; use ih in blast)+
    have "image_blocks g (live d') lba (unat (ol_block_count l) * ?bs) = padded g l"
    proof -
      have pl: "length (padded g l) = unat (ol_block_count l) * ?bs" using xl by (simp add: padded_def extent_ok_def)
      have fit: "unat lba * ?bs + unat (ol_block_count l) * ?bs \<le> length (live d)"
      proof -
        have "(unat lba + unat (ol_block_count l)) * ?bs \<le> unat (block_count g) * ?bs"
          by (rule mult_le_mono1) (use xl l(1) in \<open>simp add: extent_ok_def\<close>)
        moreover have "length (live d) = unat (block_count g) * ?bs"
          using images [OF Cons.prems(1)] Cons.prems(2) by (simp add: geometry_ok_def mult.commute)
        ultimately show ?thesis by (simp only: add_mult_distrib)
      qed
      have "image_blocks g (live d') lba (unat (ol_block_count l) * ?bs) =
          image_blocks g (live d1) lba (unat (ol_block_count l) * ?bs)"
        unfolding image_blocks_def
        by (rule same_outside_slice [where P = "\<lambda>i. unat ?n * ?bs \<le> i \<and> i < unat e * ?bs"])
          (use ih n in \<open>auto simp: add_mult_distrib\<close>)
      also have "\<dots> = padded g l" using law Inr l(1) fit pl by (simp add: image_blocks_def)
      finally show ?thesis .
    qed
    with ih l(1) tail f show ?thesis by (auto intro: same_outside_trans)
  qed
qed simp

end

section \<open>Slots and arenas\<close>

definition store_geometry :: "block_geometry \<Rightarrow> bool" where
  "store_geometry g \<longleftrightarrow> geometry_ok g \<and> validate_geometry g = Inr g"

definition arena_size :: "block_geometry \<Rightarrow> nat" where
  "arena_size g = (unat (block_count g) - 2) div 2"

lemma store_geometryD:
  assumes "store_geometry g"
  shows "496 \<le> block_bytes g" and "max_transfer_blocks g \<noteq> 0" and "logical_block_size g \<noteq> 0"
    and "unat (data_arena_blocks g) = arena_size g" and "0 < arena_size g" and "2 + 2 * arena_size g \<le> unat (block_count g)"
proof -
  show "unat (data_arena_blocks g) = arena_size g"
    by (simp add: data_arena_blocks_def arena_size_def DATA_START_LBA_def SUPERBLOCK_SLOTS_def unat_div unat_saturating_sub)
  with assms show "0 < arena_size g"
    by (auto simp: store_geometry_def validate_geometry_def unat_eq_0 [symmetric] simp del: unat_eq_0 split: if_splits)
  then show "2 + 2 * arena_size g \<le> unat (block_count g)" by (simp add: arena_size_def)
qed (use assms in \<open>auto simp: store_geometry_def validate_geometry_def geometry_ok_def store_consts split: if_splits\<close>)

lemma slot_arena:
  assumes "store_geometry g" and "slot < 2"
  shows "unat (fst (slot_data_arena g slot)) = 2 + unat slot * arena_size g"
    and "unat (snd (slot_data_arena g slot)) = 2 + unat slot * arena_size g + arena_size g"
proof -
  note g = store_geometryD [OF assms(1)]
  have s: "unat slot \<le> 1" using assms(2) by (simp add: word_less_nat_alt)
  have b: "2 + 2 * arena_size g < 2 ^ 64" using g(6) unat_bound [of "block_count g"] by simp
  have sa: "unat slot * arena_size g \<le> arena_size g" using s mult_le_mono1 [OF s, of "arena_size g"] by simp
  have lt: "2 + unat slot * arena_size g + arena_size g < 2 ^ 64" using sa b by linarith
  then have m: "unat (slot * data_arena_blocks g) = unat slot * arena_size g"
    by (subst unat_mult_lem [THEN iffD1]) (simp_all add: g(4))
  then have start: "unat (DATA_START_LBA + slot * data_arena_blocks g) = 2 + unat slot * arena_size g"
    by (subst unat_add_lem [THEN iffD1]) (use lt in \<open>simp_all add: DATA_START_LBA_def SUPERBLOCK_SLOTS_def\<close>)
  then have "unat (DATA_START_LBA + slot * data_arena_blocks g + data_arena_blocks g) =
      2 + unat slot * arena_size g + arena_size g"
    by (subst unat_add_lem [THEN iffD1]) (use lt in \<open>simp_all add: g(4)\<close>)
  with start show "unat (fst (slot_data_arena g slot)) = 2 + unat slot * arena_size g"
    "unat (snd (slot_data_arena g slot)) = 2 + unat slot * arena_size g + arena_size g"
    by (simp_all add: slot_data_arena_def Let_def)
qed

text \<open>The bytes that a commit to a slot may touch.\<close>

definition commit_region :: "block_geometry \<Rightarrow> u64 \<Rightarrow> nat \<Rightarrow> bool" where
  "commit_region g slot i \<longleftrightarrow>
     unat slot * block_bytes g \<le> i \<and> i < (unat slot + 1) * block_bytes g \<or>
     (2 + unat slot * arena_size g) * block_bytes g \<le> i \<and>
     i < (2 + unat slot * arena_size g + arena_size g) * block_bytes g"

abbreviation "slot_block g img slot \<equiv> image_blocks g img slot (block_bytes g)"

text \<open>What an image can be once a commit that started from image \<open>base\<close> has begun: untouched outside the
  region of the slot, with the old or the new superblock in the slot.\<close>

definition commit_image :: "block_geometry \<Rightarrow> u64 \<Rightarrow> bytes \<Rightarrow> bytes \<Rightarrow> bytes \<Rightarrow> bool" where
  "commit_image g slot new base img \<longleftrightarrow>
     same_outside (commit_region g slot) base img \<and>
     (slot_block g img slot = slot_block g base slot \<or> slot_block g img slot = new)"

lemma commit_image_base [simp]: "commit_image g slot new base base"
  by (simp add: commit_image_def)

lemma block_end: "(n + 1) * b = n * b + b" for n b :: nat
  by simp

lemma arena_above_slot:
  fixes slot :: u64 and n b i :: nat
  assumes "slot < 2" and "(2 + n) * b \<le> i"
  shows "(unat slot + 1) * b \<le> i"
proof -
  have "unat slot + 1 \<le> 2 + n" using assms(1) by (simp add: word_less_nat_alt)
  then have "(unat slot + 1) * b \<le> (2 + n) * b" by (rule mult_le_mono1)
  with assms(2) show ?thesis by linarith
qed

lemma commit_image_arena:
  assumes "commit_image g slot new base img" and "slot < 2"
    and "same_outside (\<lambda>i. (2 + unat slot * arena_size g) * block_bytes g \<le> i \<and>
      i < (2 + unat slot * arena_size g + arena_size g) * block_bytes g) img img'"
  shows "commit_image g slot new base img'"
proof -
  have "slot_block g img' slot = slot_block g img slot"
    unfolding image_blocks_def
    by (rule same_outside_slice [OF assms(3)])
      (use arena_above_slot [OF assms(2), of "unat slot * arena_size g" "block_bytes g"] in fastforce)
  moreover have "same_outside (commit_region g slot) img img'"
    by (rule same_outside_mono [OF assms(3)]) (auto simp: commit_region_def)
  ultimately show ?thesis using assms(1) by (auto simp: commit_image_def intro: same_outside_trans)
qed

lemma commit_image_superblock:
  assumes "commit_image g slot new base img" and "length new = block_bytes g"
    and "unat slot * block_bytes g + block_bytes g \<le> length img"
  shows "commit_image g slot new base (image_write g img slot new)"
proof -
  have "same_outside (commit_region g slot) img (image_write g img slot new)"
    unfolding image_write_def
    by (rule same_outside_write) (use assms(2,3) in \<open>auto simp: commit_region_def\<close>)
  moreover have "slot_block g (image_write g img slot new) slot = new"
    using assms(2,3) by (simp add: image_blocks_def image_write_def)
  ultimately show ?thesis using assms(1) by (auto simp: commit_image_def intro: same_outside_trans)
qed

section \<open>Commits\<close>

definition other_slot :: "u64 \<Rightarrow> u64" where
  "other_slot slot = (slot + 1) mod SUPERBLOCK_SLOTS"

lemma slot_cases:
  fixes slot :: u64
  assumes "slot < 2"
  obtains "slot = 0" "other_slot slot = 1" | "slot = 1" "other_slot slot = 0"
proof -
  from assms have "unat slot = 0 \<or> unat slot = 1" by (auto simp: word_less_nat_alt)
  then have "slot = 0 \<or> slot = 1" by (metis unat_0 unat_1 word_unat_eq_iff)
  then show ?thesis using that by (auto simp: other_slot_def SUPERBLOCK_SLOTS_def)
qed

lemma other_slot_less: "slot < 2 \<Longrightarrow> other_slot slot < 2"
  by (erule slot_cases) simp_all

definition new_superblock :: "u64 \<Rightarrow> object_layout list \<Rightarrow> superblock" where
  "new_superblock gen layout = \<lparr>sb_generation = gen, sb_object_count = of_nat (length layout), sb_objects = layout\<rparr>"

lemma built_layouts:
  assumes "store_geometry g" and "slot < 2" and "build_object_layout g slot objects = Inr ls"
  obtains e where "chained (fst (slot_data_arena g slot)) ls e" and "unat e \<le> 2 + unat slot * arena_size g + arena_size g"
    and "list_all2 (layout_of g) objects ls" and "\<forall>l\<in>set ls. extent_ok g l"
proof -
  note g = store_geometryD [OF assms(1)] and a = slot_arena [OF assms(1,2)]
  from assms(3) obtain e where loop: "layout_loop g (fst (slot_data_arena g slot)) objects = Inr (ls, e)"
      and e: "e \<le> snd (slot_data_arena g slot)"
    by (auto simp: build_object_layout_def Let_def result_simps not_less split: if_splits)
  note ok = layout_loop_ok [OF g(3) loop]
  have le: "unat e \<le> 2 + unat slot * arena_size g + arena_size g" using e a by (simp add: word_le_nat_alt)
  have "unat slot * arena_size g \<le> 1 * arena_size g"
    by (rule mult_le_mono1) (use assms(2) in \<open>simp add: word_less_nat_alt\<close>)
  then have count: "unat e \<le> unat (block_count g)" using le g(6) by linarith
  have "extent_ok g l" if "l \<in> set ls" for l
  proof -
    from ok that obtain object where "layout_of g object l" by (auto simp: list_all2_conv_all_nth in_set_conv_nth)
    moreover from ok that chained_mem have "extent_in (fst (slot_data_arena g slot)) e l" by blast
    ultimately show ?thesis using count by (auto simp: extent_ok_def layout_of_def extent_in_def word_le_nat_alt)
  qed
  with ok le that show ?thesis by blast
qed

lemma new_superblock_ok:
  assumes "store_geometry g" and "slot < 2" and "objects_ok objects" and "build_object_layout g slot objects = Inr ls"
  shows "superblock_ok g slot (new_superblock gen ls)"
proof -
  from built_layouts [OF assms(1,2,4)] obtain e where l: "list_all2 (layout_of g) objects ls" by blast
  then have len: "length ls = length objects" by (simp add: list_all2_lengthD)
  have "name_ok (ol_name x)" if "x \<in> set ls" for x
  proof -
    from that l obtain object where "object \<in> set objects" "layout_of g object x"
      by (metis in_set_conv_nth list_all2_conv_all_nth)
    with assms(3) show ?thesis by (auto simp: objects_ok_def layout_of_def)
  qed
  moreover have "validate_layouts g slot ls = Inr ()"
    by (rule built_layouts_valid [OF _ assms(4)]) (use assms(1,3) in \<open>auto simp: store_geometryD(3) objects_ok_def\<close>)
  ultimately show ?thesis
    using assms(3) len by (simp add: superblock_ok_def new_superblock_def objects_ok_def unsigned_of_nat take_bit_nat_eq_self)
qed

context block_device
begin

lemma superblock_write:
  assumes "ok d" and "dev_geometry ops d = g" and "commit_image g slot new base (live d)" and "commit_image g slot new base (durable d)"
    and "new = encode_superblock g sb" and "length new = block_bytes g" and "write_superblock ops g slot sb d = (r, d')"
  shows "ok d' \<and> dev_geometry ops d' = g \<and> commit_image g slot new base (live d') \<and> commit_image g slot new base (durable d') \<and>
    (r = Inr () \<longrightarrow> live d' = image_write g (live d) slot new \<and> unat slot * block_bytes g + block_bytes g \<le> length (live d))"
proof -
  obtain r1 where w: "write_blocks ops slot 1 new d = (r1, d')" and r: "r = map_err Block r1"
    using assms(5,7) by (auto simp: write_superblock_def split: prod.splits)
  note im = images [OF assms(1), unfolded assms(2)] and law = write_law [OF assms(1) w, unfolded assms(2)]
  have fit: "unat slot * block_bytes g + block_bytes g \<le> length (live d) \<and>
      unat slot * block_bytes g + block_bytes g \<le> length (durable d)" if "transfer_fits g slot 1 (length new) True"
    using validate_transfer_eq(2) [OF _ that] im assms(6) by simp
  from law show ?thesis
  proof (elim conjE disjE)
    assume "\<exists>e. r1 = Inl e" "live d' = live d" "durable d' = durable d"
    with law assms(3,4) r show ?thesis by auto
  qed (use law fit commit_image_superblock [OF _ assms(6)] assms(3,4) in auto)
qed

lemma commit_law:
  assumes "ok (st_device st)" and "dev_geometry ops (st_device st) = g" and "st_geometry st = g" and "store_geometry g"
    and "st_active_slot st < 2" and "objects_ok (st_objects st)" and "live (st_device st) = durable (st_device st)"
    and "checked_add (st_generation st) 1 = Some gen" and "build_object_layout g (other_slot (st_active_slot st)) (st_objects st) = Inr ls"
    and "commit ops st = (r, st')"
  defines "slot \<equiv> other_slot (st_active_slot st)" and "base \<equiv> durable (st_device st)" and "d' \<equiv> st_device st'"
  defines "new \<equiv> encode_superblock g (new_superblock gen ls)"
  shows "ok d' \<and> dev_geometry ops d' = g \<and> commit_image g slot new base (durable d') \<and> length new = block_bytes g \<and>
    (r = Inr () \<longrightarrow> live d' = durable d' \<and> slot_block g (durable d') slot = new \<and>
      st' = st\<lparr>st_device := d', st_generation := gen, st_active_slot := slot\<rparr> \<and>
      (\<forall>l\<in>set ls. image_blocks g (durable d') (ol_start_lba l) (unat (ol_block_count l) * block_bytes g) = padded g l))"
proof -
  let ?d = "st_device st" and ?bs = "block_bytes g"
  have slot: "slot < 2" using assms(5) by (simp add: slot_def other_slot_less)
  note build = assms(9) [folded slot_def]
  from built_layouts [OF assms(4) slot build] obtain e where
    ch: "chained (fst (slot_data_arena g slot)) ls e" and e: "unat e \<le> 2 + unat slot * arena_size g + arena_size g"
    and ext: "\<forall>l\<in>set ls. extent_ok g l" .
  note g = store_geometryD [OF assms(4)] and arena = slot_arena [OF assms(4) slot]
  have len: "length new = ?bs"
    unfolding new_def using superblock_roundtrip [OF g(1) new_superblock_ok [OF assms(4) slot assms(6) build]] by blast
  have inside: "(2 + unat slot * arena_size g) * ?bs \<le> i \<and> i < (2 + unat slot * arena_size g + arena_size g) * ?bs"
    if "unat (fst (slot_data_arena g slot)) * ?bs \<le> i \<and> i < unat e * ?bs" for i
  proof -
    from that have "(2 + unat slot * arena_size g) * ?bs \<le> i" unfolding arena(1) by blast
    moreover from that mult_le_mono1 [OF e, of ?bs] have "i < (2 + unat slot * arena_size g + arena_size g) * ?bs" by linarith
    ultimately show ?thesis by blast
  qed
  obtain r1 d1 where w1: "write_all_data ops g ls ?d = (r1, d1)" by force
  note law1 = write_all_data_law [OF assms(1,2) ext g(2) ch w1]
  let ?arena = "\<lambda>i. (2 + unat slot * arena_size g) * ?bs \<le> i \<and> i < (2 + unat slot * arena_size g + arena_size g) * ?bs"
  have l1: "same_outside ?arena base (live d1)" and v1: "same_outside ?arena base (durable d1)"
    using law1 assms(7) inside unfolding base_def by (auto elim!: same_outside_mono)
  note i1 = commit_image_arena [OF commit_image_base slot l1, of new] commit_image_arena [OF commit_image_base slot v1, of new]
  have ne: "new = encode_superblock g (new_superblock gen ls)" by (simp add: new_def)
  obtain r2 d2 where w2: "write_superblock ops g slot (new_superblock gen ls) d1 = (r2, d2)" by force
  have law2: "ok d2 \<and> dev_geometry ops d2 = g \<and> commit_image g slot new base (live d2) \<and> commit_image g slot new base (durable d2) \<and>
      (r2 = Inr () \<longrightarrow> live d2 = image_write g (live d1) slot new \<and> unat slot * ?bs + ?bs \<le> length (live d1))"
    by (rule superblock_write [OF _ _ i1 ne len w2]) (use law1 in simp_all)
  obtain r3 d3 where w3: "dev_flush ops d2 = (r3, d3)" by force
  from law2 have "ok d2" by simp
  note law3 = flush_law [OF this w3]
  note c = assms(10) [unfolded commit_def Let_def assms(3) other_slot_def [symmetric] assms(8,9)
    new_superblock_def [symmetric], folded slot_def]
  show ?thesis
  proof (cases "r1 = Inr () \<and> r2 = Inr ()")
    case False
    then have "(\<exists>x. r1 = Inl x) \<or> r1 = Inr () \<and> (\<exists>x. r2 = Inl x)" by (metis old.unit.exhaust sum.exhaust)
    with c w1 w2 have "(\<exists>x. r = Inl x) \<and> (st' = st\<lparr>st_device := d1\<rparr> \<or> st' = st\<lparr>st_device := d2\<rparr>)" by auto
    with law1 law2 i1 len show ?thesis by (auto simp: d'_def)
  next
    case True
    with c w1 w2 w3 have cases: "st_device st' = d3 \<and> (r = Inr () \<longrightarrow> (\<exists>x. r3 = Inr x) \<and>
        st' = st\<lparr>st_device := d3, st_generation := gen, st_active_slot := slot\<rparr>)"
      by (cases r3) auto
    have pay: "image_blocks g (live d2) (ol_start_lba l) (unat (ol_block_count l) * ?bs) = padded g l" if l: "l \<in> set ls" for l
    proof -
      have "extent_in (fst (slot_data_arena g slot)) e l" using chained_mem [OF ch] l by blast
      then have "2 + unat slot * arena_size g \<le> unat (ol_start_lba l)" using arena by (simp add: extent_in_def word_le_nat_alt)
      then have "(unat slot + 1) * ?bs \<le> unat (ol_start_lba l) * ?bs"
        by (intro arena_above_slot [OF slot]) (rule mult_le_mono1)
      then have "slice (write_at (live d1) (unat slot * ?bs) new) (unat (ol_start_lba l) * ?bs) x =
          slice (live d1) (unat (ol_start_lba l) * ?bs) x" for x
        using law2 True len by (intro slice_write_at_other) auto
      with law1 law2 True l show ?thesis by (simp add: image_blocks_def image_write_def)
    qed
    have sb: "slot_block g (live d2) slot = new"
      using law2 True len by (simp add: image_blocks_def image_write_def)
    from law3 law2 have "durable d3 = live d2 \<or> (\<exists>x. r3 = Inl x) \<and> durable d3 = durable d2" by simp
    with cases law2 law3 pay sb len show ?thesis unfolding d'_def by auto
  qed
qed

end

section \<open>Reading an image\<close>

definition image_slot :: "block_geometry \<Rightarrow> bytes \<Rightarrow> u64 \<Rightarrow> slot_decode_error + superblock" where
  "image_slot g img slot = decode_superblock g slot (slot_block g img slot)"

definition image_object :: "block_geometry \<Rightarrow> bytes \<Rightarrow> object_layout \<Rightarrow> store_error + bytes" where
  "image_object g img l =
    (if ol_block_count l = 0 then Inr []
     else let bytes = take (unat (ol_data_len l)) (image_blocks g img (ol_start_lba l) (unat (ol_block_count l) * block_bytes g)) in
       if checksum bytes \<noteq> ol_data_checksum l then Inl (Corrupt ObjectChecksumMismatch) else Inr bytes)"

fun image_objects :: "block_geometry \<Rightarrow> bytes \<Rightarrow> object_layout list \<Rightarrow> store_error + stored_object list" where
  "image_objects g img [] = Inr []"
| "image_objects g img (l # ls) =
     rbind (image_object g img l) (\<lambda>data. rbind (image_objects g img ls) (\<lambda>objects.
       Inr (\<lparr>so_id = ol_id l, so_name = ol_name l, so_data = data\<rparr> # objects)))"

text \<open>A layout within an arena, as validation accepts it.\<close>

definition layout_within :: "block_geometry \<Rightarrow> u64 \<Rightarrow> object_layout \<Rightarrow> bool" where
  "layout_within g slot l \<longleftrightarrow> ol_block_count l \<noteq> 0 \<longrightarrow>
     2 + unat slot * arena_size g \<le> unat (ol_start_lba l) \<and>
     unat (ol_start_lba l) + unat (ol_block_count l) \<le> 2 + unat slot * arena_size g + arena_size g \<and>
     unat (ol_data_len l) \<le> unat (ol_block_count l) * block_bytes g"

lemma validate_entries_mem:
  "validate_entries g arena before ls = Inr () \<Longrightarrow> l \<in> set ls \<Longrightarrow> \<exists>before. validate_layout g arena before l = Inr ()"
  by (induction ls arbitrary: before) (auto simp: result_simps)

lemma decoded_layouts:
  assumes "store_geometry g" and "slot < 2" and "decode_superblock g slot bytes = Inr sb"
  shows "\<forall>l\<in>set (sb_objects sb). layout_within g slot l"
proof
  fix l assume l: "l \<in> set (sb_objects sb)"
  from assms(3) have "validate_layouts g slot (sb_objects sb) = Inr ()"
    by (auto simp: decode_superblock_def result_simps split: if_splits)
  then have "validate_entries g (slot_data_arena g slot) [] (sb_objects sb) = Inr ()"
    by (auto simp: validate_layouts_def result_simps)
  from validate_entries_mem [OF this l] obtain before where v: "validate_layout g (slot_data_arena g slot) before l = Inr ()" ..
  have "unat (ol_block_count l) * block_bytes g < 2 ^ 32 * 2 ^ 32"
    by (rule mult_strict_mono) (use unat_bound [of "logical_block_size g"] unat_bound [of "ol_block_count l"] in auto)
  then have m: "unat (ucast (ol_block_count l) * ucast (logical_block_size g) :: u64) = unat (ol_block_count l) * block_bytes g"
    by (subst unat_mult_lem [THEN iffD1]) simp_all
  from v m slot_arena [OF assms(1,2)] show "layout_within g slot l"
    by (auto simp: validate_layout_def layout_within_def result_simps checked_add_Some word_le_nat_alt word_less_nat_alt not_less
        split: if_splits)
qed

context reliable_device
begin

definition unchanged :: "'d \<Rightarrow> 'd \<Rightarrow> bool" where
  "unchanged d d' \<longleftrightarrow> ok d' \<and> calm d' \<and> dev_geometry ops d' = dev_geometry ops d \<and> live d' = live d \<and> durable d' = durable d"

lemma unchanged_trans: "unchanged a b \<Longrightarrow> unchanged b c \<Longrightarrow> unchanged a c"
  by (simp add: unchanged_def)

lemma read_fits:
  assumes "ok d" and "calm d" and "transfer_fits (dev_geometry ops d) lba n len False"
  shows "\<exists>d'. read_blocks ops lba n len d = (Inr (image_blocks (dev_geometry ops d) (live d) lba len), d') \<and> unchanged d d'"
proof -
  from calm_read [OF assms] obtain bs d' where r: "read_blocks ops lba n len d = (Inr bs, d')" "calm d'" by blast
  from read_law [OF assms(1) r(1)] r(2) have "bs = image_blocks (dev_geometry ops d) (live d) lba len \<and> unchanged d d'"
    by (simp add: unchanged_def)
  with r(1) show ?thesis by blast
qed

lemma read_slot:
  assumes "ok d" and "calm d" and "dev_geometry ops d = g" and "store_geometry g" and "slot < 2"
  shows "\<exists>d'. read_superblock_slot ops g slot d = (map_err LoadDecode (image_slot g (live d) slot), d') \<and> unchanged d d'"
proof -
  note gd = store_geometryD [OF assms(4)]
  have "transfer_fits g slot 1 (block_bytes g) False"
    using gd assms(5) by (auto simp: transfer_fits_def word_le_nat_alt word_less_nat_alt unat_eq_0 [symmetric] Suc_le_eq simp del: unat_eq_0)
  with read_fits [OF assms(1,2)] assms(3) obtain d' where
    "read_blocks ops slot 1 (block_bytes g) d = (Inr (slot_block g (live d) slot), d')" "unchanged d d'" by blast
  then show ?thesis by (simp add: read_superblock_slot_def image_slot_def)
qed

lemma read_chunks_image:
  assumes "ok d" and "calm d" and "dev_geometry ops d = g" and "max_transfer_blocks g \<noteq> 0"
    and "unat lba + b \<le> unat (block_count g)" and "b < 2 ^ 32" and "length buffer = b * block_bytes g"
  defines "img \<equiv> image_blocks g (live d) lba (b * block_bytes g)"
  shows "\<exists>d'. read_chunks ops g lba b [c..<chunk_count g b] buffer d =
    (Inr (take (c * max_blocks g * block_bytes g) buffer @ drop (c * max_blocks g * block_bytes g) img), d') \<and> unchanged d d'"
  using assms(1-7) unfolding img_def
proof (induction "chunk_count g b - c" arbitrary: c d buffer)
  case 0
  have "0 < max_blocks g" using 0(5) by (simp add: unat_gt_0)
  note chunk_cover [OF this, of b]
  also have "chunk_count g b * max_blocks g \<le> c * max_blocks g" by (rule mult_le_mono1) (use 0(1) in linarith)
  finally have le: "b * block_bytes g \<le> c * max_blocks g * block_bytes g" by (rule mult_le_mono1)
  have "length (image_blocks g (live d) lba (b * block_bytes g)) \<le> b * block_bytes g" by (simp add: image_blocks_def)
  from order_trans [OF this le] have "drop (c * max_blocks g * block_bytes g) (image_blocks g (live d) lba (b * block_bytes g)) = []"
    by (rule drop_all)
  with 0 le show ?case by (simp add: unchanged_def)
next
  case (Suc x)
  let ?m = "max_blocks g" and ?bs = "block_bytes g"
  let ?n = "min ?m (b - c * ?m)" and ?i = "image_blocks g (live d) lba (b * ?bs)"
  have c: "c < chunk_count g b" using Suc(2) by simp
  have m: "0 < ?m" using Suc.prems(4) by (simp add: unat_gt_0)
  have cm: "c * ?m < b" by (rule chunk_bound [OF m c])
  note l = chunk_lba [OF Suc.prems(5) less_imp_le [OF cm]] and range = chunk_range [OF cm, of "unat lba" ?bs]
  have un: "unat (of_nat ?n :: u32) = ?n"
  proof -
    have "?n < 2 ^ 32" using Suc.prems(6) by simp
    then show ?thesis by (simp add: unsigned_of_nat take_bit_nat_eq_self del: min_less_iff_conj)
  qed
  have "transfer_fits g (lba + of_nat (c * ?m)) (of_nat ?n) (?n * ?bs) False"
    unfolding transfer_fits_def word_less_nat_alt word_le_nat_alt un l
    using cm m Suc.prems(5) by auto
  with read_fits [OF Suc.prems(1,2)] Suc.prems(3) obtain d1 where
    rd: "read_blocks ops (lba + of_nat (c * ?m)) (of_nat ?n) (?n * ?bs) d =
      (Inr (image_blocks g (live d) (lba + of_nat (c * ?m)) (?n * ?bs)), d1)" and un1: "unchanged d d1" by blast
  let ?chunk = "slice ?i (c * ?m * ?bs) (c * ?m * ?bs + ?n * ?bs)"
  have ib: "length (live d) = unat (block_count g) * ?bs"
    using images [OF Suc.prems(1)] Suc.prems(3) by (simp add: geometry_ok_def mult.commute)
  have cnt: "(unat lba + b) * ?bs \<le> unat (block_count g) * ?bs" using Suc.prems(5) by (rule mult_le_mono1)
  have il: "length ?i = b * ?bs" using ib cnt by (simp add: image_blocks_def add_mult_distrib)
  have kb: "c * ?m * ?bs + ?n * ?bs \<le> b * ?bs"
    unfolding add_mult_distrib [symmetric] by (rule mult_le_mono1) (use cm in simp)
  have chunk: "image_blocks g (live d) (lba + of_nat (c * ?m)) (?n * ?bs) = ?chunk"
    unfolding image_blocks_def l add_mult_distrib by (rule slice_slice [symmetric]) (rule kb)
  have lc: "length ?chunk = ?n * ?bs" using il kb by simp
  let ?buf = "write_at buffer (c * ?m * ?bs) ?chunk"
  have step: "read_chunks ops g lba b [c..<chunk_count g b] buffer d = read_chunks ops g lba b [Suc c..<chunk_count g b] ?buf d1"
    unfolding upt_conv_Cons [OF c] read_chunks.simps Let_def by (simp only: diff_add_inverse rd chunk prod.case sum.case)
  have lb: "length ?buf = b * ?bs" using Suc.prems(7) lc kb by simp
  have ih: "\<exists>d'. read_chunks ops g lba b [Suc c..<chunk_count g b] ?buf d1 =
      (Inr (take (Suc c * ?m * ?bs) ?buf @ drop (Suc c * ?m * ?bs) (image_blocks g (live d1) lba (b * ?bs))), d') \<and> unchanged d1 d'"
    by (rule Suc.hyps(1)) (use Suc.hyps(2) un1 Suc.prems lb in \<open>simp_all add: unchanged_def\<close>)
  have eq: "take (Suc c * ?m * ?bs) ?buf @ drop (Suc c * ?m * ?bs) ?i = take (c * ?m * ?bs) buffer @ drop (c * ?m * ?bs) ?i"
  proof -
    let ?k = "c * ?m * ?bs"
    have "?k + ?n * ?bs = Suc c * ?m * ?bs \<or> ?k + ?n * ?bs = b * ?bs \<and> b * ?bs \<le> Suc c * ?m * ?bs"
    proof (cases "?m \<le> b - c * ?m")
      case False
      then have "c * ?m + ?n = b" "b \<le> Suc c * ?m" using cm by simp_all
      then show ?thesis unfolding add_mult_distrib [symmetric] by (metis mult_le_mono1)
    qed (simp add: add_mult_distrib)
    with lb il have "take (Suc c * ?m * ?bs) ?buf = take (?k + ?n * ?bs) ?buf" "drop (Suc c * ?m * ?bs) ?i = drop (?k + ?n * ?bs) ?i"
      by auto
    moreover have "take (?k + ?n * ?bs) ?buf = take ?k buffer @ ?chunk"
      using take_write_at [of ?k ?chunk buffer, unfolded lc] kb Suc.prems(7) by simp
    moreover have "?chunk @ drop (?k + ?n * ?bs) ?i = drop ?k ?i"
      by (rule slice_drop)
    ultimately show ?thesis by (simp only: append_assoc)
  qed
  have same: "live d1 = live d" using un1 by (simp add: unchanged_def)
  from ih obtain d' where r: "read_chunks ops g lba b [Suc c..<chunk_count g b] ?buf d1 =
      (Inr (take (Suc c * ?m * ?bs) ?buf @ drop (Suc c * ?m * ?bs) ?i), d')" and u: "unchanged d1 d'"
    unfolding same by blast
  from unchanged_trans [OF un1 u] show ?case unfolding step r eq by blast
qed

lemma read_object_image:
  assumes "ok d" and "calm d" and "dev_geometry ops d = g" and "store_geometry g" and "slot < 2" and "layout_within g slot l"
  shows "\<exists>d'. read_object_data ops g l d = (image_object g (live d) l, d') \<and> unchanged d d'"
proof (cases "ol_block_count l = 0")
  case True
  with assms show ?thesis by (simp add: read_object_data_def image_object_def unchanged_def)
next
  case False
  let ?b = "unat (ol_block_count l)"
  note g = store_geometryD [OF assms(4)]
  have "unat slot * arena_size g \<le> 1 * arena_size g"
    by (rule mult_le_mono1) (use assms(5) in \<open>simp add: word_less_nat_alt\<close>)
  moreover have "unat (ol_start_lba l) + ?b \<le> 2 + unat slot * arena_size g + arena_size g"
    using assms(6) False by (simp add: layout_within_def)
  ultimately have "unat (ol_start_lba l) + ?b \<le> unat (block_count g)" using g(6) by linarith
  from read_chunks_image [OF assms(1-3) g(2) this, of "replicate (?b * block_bytes g) 0" 0] unat_bound [of "ol_block_count l"]
  obtain d' where "read_blocks_chunked ops g (ol_start_lba l) (ol_block_count l) (replicate (?b * block_bytes g) 0) d =
      (Inr (image_blocks g (live d) (ol_start_lba l) (?b * block_bytes g)), d')" "unchanged d d'"
    by (auto simp: read_blocks_chunked_def chunk_indices_def Let_def)
  with False show ?thesis by (auto simp: read_object_data_def image_object_def Let_def)
qed

lemma load_objects_image:
  assumes "ok d" and "calm d" and "dev_geometry ops d = g" and "store_geometry g" and "slot < 2"
    and "\<forall>l\<in>set ls. layout_within g slot l"
  shows "\<exists>d'. load_objects ops g ls d = (image_objects g (live d) ls, d') \<and> unchanged d d'"
  using assms
proof (induction ls arbitrary: d)
  case (Cons l ls)
  from read_object_image [OF Cons.prems(1-5)] Cons.prems(6) obtain d1 where
    r: "read_object_data ops g l d = (image_object g (live d) l, d1)" and u: "unchanged d d1" by force
  from u have l: "live d1 = live d" by (simp add: unchanged_def)
  have "\<exists>d'. load_objects ops g ls d1 = (image_objects g (live d1) ls, d') \<and> unchanged d1 d'"
    by (rule Cons.IH) (use u Cons.prems in \<open>simp_all add: unchanged_def\<close>)
  then obtain d2 where r2: "load_objects ops g ls d1 = (image_objects g (live d) ls, d2)" and u2: "unchanged d1 d2"
    unfolding l by blast
  from r r2 u unchanged_trans [OF u u2] show ?case
    by (cases "image_object g (live d) l"; cases "image_objects g (live d) ls") auto
qed (simp add: unchanged_def)

end

lemma image_objects_Inl: "image_objects g img ls = Inl e \<Longrightarrow> \<exists>c. e = Corrupt c"
  by (induction ls) (auto simp: image_object_def Let_def result_simps split: if_splits)

text \<open>The state that a mount finds in an image: the superblock of the slot decodes, its payloads pass, and
  the other slot holds nothing newer whose payloads pass as well.\<close>

definition committed :: "block_geometry \<Rightarrow> bytes \<Rightarrow> u64 \<Rightarrow> superblock \<Rightarrow> stored_object list \<Rightarrow> bool" where
  "committed g img slot sb objects \<longleftrightarrow>
     slot < 2 \<and> image_slot g img slot = Inr sb \<and> image_objects g img (sb_objects sb) = Inr objects \<and>
     (case image_slot g img (other_slot slot) of
        Inl _ \<Rightarrow> True
      | Inr sb' \<Rightarrow> candidate_before (slot, sb) (other_slot slot, sb') \<or> \<not> is_ok (image_objects g img (sb_objects sb')))"

lemma candidate_total:
  "fst a \<noteq> fst b \<Longrightarrow> candidate_before a b \<longleftrightarrow> \<not> candidate_before b a"
  by (auto simp: candidate_before_def)

lemma sort_two:
  assumes "fst a \<noteq> fst b"
  shows "sort_candidates [a, b] = (if candidate_before a b then [a, b] else [b, a])"
    and "candidate_before a b \<Longrightarrow> sort_candidates [b, a] = [a, b]"
  using candidate_total [OF assms] by (auto simp: sort_candidates_def)

context reliable_device
begin

text \<open>Trying the candidates in order loads the committed one.\<close>

lemma try_committed:
  assumes "ok d" and "calm d" and "dev_geometry ops d = g" and "store_geometry g" and "committed g (live d) slot sb objects"
    and "image_slot g (live d) (other_slot slot) = Inr sb'"
  shows "\<exists>d'. try_candidates ops g (sort_candidates [(slot, sb), (other_slot slot, sb')]) errors d = (Inr (slot, sb, objects), d') \<and> unchanged d d'"
proof -
  from assms(5) have slot: "slot < 2" and sb: "image_slot g (live d) slot = Inr sb" "image_objects g (live d) (sb_objects sb) = Inr objects"
    and order: "candidate_before (slot, sb) (other_slot slot, sb') \<or> \<not> is_ok (image_objects g (live d) (sb_objects sb'))"
    using assms(6) by (auto simp: committed_def)
  from slot have ne: "slot \<noteq> other_slot slot" by (cases rule: slot_cases) auto
  have load: "\<exists>d'. load_objects ops g (sb_objects sb) d = (Inr objects, d') \<and> unchanged d d'" if "ok d" "calm d" "dev_geometry ops d = g" "live d = img"
      "image_objects g img (sb_objects sb) = Inr objects" for d img
    using load_objects_image [OF that(1-3) assms(4) slot, of "sb_objects sb"] decoded_layouts [OF assms(4) slot] sb(1) that(4,5)
    by (auto simp: image_slot_def)
  show ?thesis
  proof (cases "candidate_before (slot, sb) (other_slot slot, sb')")
    case True
    with ne load [OF assms(1-3) refl sb(2)] show ?thesis by (auto simp: sort_two)
  next
    case False
    with order obtain c where bad: "image_objects g (live d) (sb_objects sb') = Inl (Corrupt c)"
      by (metis image_objects_Inl is_ok_simps(1) sum.exhaust)
    have "\<forall>l\<in>set (sb_objects sb'). layout_within g (other_slot slot) l"
      using assms(6) by (intro decoded_layouts [OF assms(4) other_slot_less [OF slot]]) (simp add: image_slot_def)
    from load_objects_image [OF assms(1-4) other_slot_less [OF slot] this] bad obtain d1 where
      l1: "load_objects ops g (sb_objects sb') d = (Inl (Corrupt c), d1)" and u1: "unchanged d d1" by auto
    from u1 have "ok d1" "calm d1" "dev_geometry ops d1 = g" "live d1 = live d" using assms(3) by (simp_all add: unchanged_def)
    from load [OF this sb(2)] l1 u1 ne False show ?thesis by (auto simp: sort_two intro: unchanged_trans)
  qed
qed

lemma select_committed:
  assumes "ok d" and "calm d" and "dev_geometry ops d = g" and "store_geometry g" and "committed g (live d) slot sb objects"
  shows "\<exists>d'. select_committed_state ops g d = (Inr (slot, sb, objects), d') \<and> unchanged d d'"
proof -
  from assms(5) have slot: "slot < 2" and sb: "image_slot g (live d) slot = Inr sb" "image_objects g (live d) (sb_objects sb) = Inr objects"
    by (auto simp: committed_def)
  from read_slot [OF assms(1-4), of 0] obtain d0 where
    r0: "read_superblock_slot ops g 0 d = (map_err LoadDecode (image_slot g (live d) 0), d0)" and u0: "unchanged d d0" by auto
  then have "ok d0" "calm d0" "dev_geometry ops d0 = g" and l0: "live d0 = live d" using assms(3) by (simp_all add: unchanged_def)
  from read_slot [OF this(1-3) assms(4), of 1] obtain d1 where
    r1: "read_superblock_slot ops g 1 d0 = (map_err LoadDecode (image_slot g (live d) 1), d1)" and u1: "unchanged d0 d1"
    using l0 by auto
  note u = unchanged_trans [OF u0 u1]
  then have dev: "ok d1" "calm d1" "dev_geometry ops d1 = g" and l: "live d1 = live d" using assms(3) by (simp_all add: unchanged_def)
  define results where "results = [(0 :: u64, map_err LoadDecode (image_slot g (live d) 0)), (1, map_err LoadDecode (image_slot g (live d) 1))]"
  obtain cs errs where c: "collect_candidates results [] no_errors = (cs, errs)" by force
  have sel: "select_committed_state ops g d = try_candidates ops g (sort_candidates cs) errs d1"
    using r0 r1 c by (simp add: select_committed_state_def results_def)
  have "\<exists>d'. try_candidates ops g (sort_candidates cs) errs d1 = (Inr (slot, sb, objects), d') \<and> unchanged d1 d'"
  proof (cases "image_slot g (live d) (other_slot slot)")
    case (Inr sb')
    from slot have "cs = [(slot, sb), (other_slot slot, sb')] \<or> cs = [(other_slot slot, sb'), (slot, sb)]"
      by (cases rule: slot_cases) (use c sb Inr in \<open>auto simp: results_def\<close>)
    moreover from slot have "slot \<noteq> other_slot slot" by (cases rule: slot_cases) auto
    then have "sort_candidates [(other_slot slot, sb'), (slot, sb)] = sort_candidates [(slot, sb), (other_slot slot, sb')]"
      using candidate_total [of "(slot, sb)" "(other_slot slot, sb')"] by (auto simp: sort_candidates_def)
    ultimately show ?thesis
      using try_committed [OF dev assms(4), of slot sb objects sb' errs] assms(5) Inr unfolding l by auto
  next
    case (Inl e)
    from slot have "cs = [(slot, sb)]"
      by (cases rule: slot_cases; cases e) (use c sb Inl in \<open>auto simp: results_def\<close>)
    moreover have "\<forall>l\<in>set (sb_objects sb). layout_within g slot l"
      by (rule decoded_layouts [OF assms(4) slot]) (use sb(1) in \<open>simp add: image_slot_def\<close>)
    ultimately show ?thesis
      using load_objects_image [OF dev assms(4) slot, of "sb_objects sb"] sb(2) l by (auto simp: sort_candidates_def)
  qed
  with sel u show ?thesis by (auto intro: unchanged_trans)
qed

lemma mount_committed:
  assumes "ok d" and "calm d" and "dev_geometry ops d = g" and "store_geometry g" and "committed g (live d) slot sb objects"
  shows "\<exists>d'. mount ops d = Inr \<lparr>st_device = d', st_geometry = g, st_generation = sb_generation sb, st_active_slot = slot,
    st_objects = objects\<rparr> \<and> unchanged d d'"
  using select_committed [OF assms] assms(3,4) by (auto simp: mount_def store_geometry_def)

end

end
