(* ===== verification/Store_Atomic.thy ===== *)
theory Store_Atomic
  imports Store_Crash
begin

text \<open>
  Atomicity and durability of commits on a device that may lose power or fail at any operation. A store is
  followed from formatting through staging, successful commits, reboots and arbitrary fault plans; a crash
  during a commit is a reboot of whatever durable image the interrupted commit has left.
\<close>

section \<open>Images during a commit\<close>

text \<open>Nothing newer than the committed superblock is on the device.\<close>

definition settled :: "block_geometry \<Rightarrow> bytes \<Rightarrow> u64 \<Rightarrow> superblock \<Rightarrow> stored_object list \<Rightarrow> bool" where
  "settled g img slot sb objects \<longleftrightarrow>
     slot < 2 \<and> image_slot g img slot = Inr sb \<and> image_objects g img (sb_objects sb) = Inr objects \<and>
     (case image_slot g img (other_slot slot) of
        Inl _ \<Rightarrow> True | Inr sb' \<Rightarrow> candidate_before (slot, sb) (other_slot slot, sb'))"

lemma settled_committed: "settled g img slot sb objects \<Longrightarrow> committed g img slot sb objects"
  by (auto simp: settled_def committed_def split: sum.splits)

lemma region_avoids_slot:
  assumes "slot < 2" and "unat slot * block_bytes g \<le> i" and "i < unat slot * block_bytes g + block_bytes g"
  shows "\<not> commit_region g (other_slot slot) i"
proof -
  from assms(1) have "unat slot = 0 \<and> unat (other_slot slot) = 1 \<or> unat slot = 1 \<and> unat (other_slot slot) = 0"
    by (cases rule: slot_cases) simp_all
  moreover from calculation have "i < 2 * block_bytes g" using assms(3) by auto
  moreover have "2 * block_bytes g \<le> (2 + n) * block_bytes g" for n by simp
  ultimately show ?thesis using assms(2,3) by (fastforce simp: commit_region_def not_less)
qed

lemma region_avoids_arena:
  assumes "slot < 2" and "(2 + unat slot * arena_size g) * block_bytes g \<le> i"
    and "i < (2 + unat slot * arena_size g + arena_size g) * block_bytes g"
  shows "\<not> commit_region g (other_slot slot) i"
proof -
  from assms(1) have c: "unat slot = 0 \<and> unat (other_slot slot) = 1 \<or> unat slot = 1 \<and> unat (other_slot slot) = 0"
    by (cases rule: slot_cases) simp_all
  have "2 * block_bytes g \<le> (2 + unat slot * arena_size g) * block_bytes g" by (rule mult_le_mono1) simp
  with assms(2) have "2 * block_bytes g \<le> i" by linarith
  moreover have "(unat (other_slot slot) + 1) * block_bytes g \<le> 2 * block_bytes g" by (rule mult_le_mono1) (use c in auto)
  ultimately show ?thesis using assms(2,3) c by (auto simp: commit_region_def)
qed

lemma commit_keeps_slot:
  assumes "slot < 2" and "same_outside (commit_region g (other_slot slot)) base img"
  shows "image_slot g img slot = image_slot g base slot"
proof -
  have "slot_block g img slot = slot_block g base slot"
    unfolding image_blocks_def
    by (rule same_outside_slice [OF assms(2)]) (use region_avoids_slot [OF assms(1)] in blast)
  then show ?thesis by (simp add: image_slot_def)
qed

lemma commit_keeps_objects:
  assumes "slot < 2" and "same_outside (commit_region g (other_slot slot)) base img" and "\<forall>l\<in>set ls. layout_within g slot l"
  shows "image_objects g img ls = image_objects g base ls"
  using assms(3)
proof (induction ls)
  case (Cons l ls)
  have "image_object g img l = image_object g base l"
  proof (cases "ol_block_count l = 0")
    case False
    let ?s = "unat (ol_start_lba l)" and ?b = "unat (ol_block_count l)" and ?bs = "block_bytes g"
    from Cons.prems False have w: "2 + unat slot * arena_size g \<le> ?s" "?s + ?b \<le> 2 + unat slot * arena_size g + arena_size g"
      by (simp_all add: layout_within_def)
    have "image_blocks g img (ol_start_lba l) (?b * ?bs) = image_blocks g base (ol_start_lba l) (?b * ?bs)"
      unfolding image_blocks_def
    proof (rule same_outside_slice [OF assms(2)])
      fix i assume i: "?s * ?bs \<le> i" "i < ?s * ?bs + ?b * ?bs"
      have "(2 + unat slot * arena_size g) * ?bs \<le> i" using mult_le_mono1 [OF w(1), of ?bs] i(1) by linarith
      moreover have "i < (2 + unat slot * arena_size g + arena_size g) * ?bs"
        using mult_le_mono1 [OF w(2), of ?bs] i(2) unfolding add_mult_distrib by linarith
      ultimately show "\<not> commit_region g (other_slot slot) i" by (rule region_avoids_arena [OF assms(1)])
    qed
    then show ?thesis by (simp add: image_object_def)
  qed (simp add: image_object_def)
  with Cons show ?case by simp
qed simp

lemma settled_layouts:
  "store_geometry g \<Longrightarrow> settled g img slot sb objects \<Longrightarrow> \<forall>l\<in>set (sb_objects sb). layout_within g slot l"
  by (rule decoded_layouts [of g slot "slot_block g img slot"]) (simp_all add: settled_def image_slot_def)

lemma other_other: "slot < 2 \<Longrightarrow> other_slot (other_slot slot) = slot"
  by (erule slot_cases) (simp_all add: other_slot_def SUPERBLOCK_SLOTS_def)

text \<open>The old state survives in every image that a commit may leave.\<close>

lemma commit_keeps_old:
  assumes "store_geometry g" and "settled g base slot sb objects" and "same_outside (commit_region g (other_slot slot)) base img"
  shows "image_slot g img slot = Inr sb" and "image_objects g img (sb_objects sb) = Inr objects"
  using assms(2) commit_keeps_slot [OF _ assms(3)] commit_keeps_objects [OF _ assms(3) settled_layouts [OF assms(1,2)]]
  by (simp_all add: settled_def)

text \<open>What a loaded object has in common with its layout.\<close>

definition loaded_as :: "object_layout \<Rightarrow> stored_object \<Rightarrow> bool" where
  "loaded_as l object \<longleftrightarrow> so_id object = ol_id l \<and> so_name object = ol_name l \<and>
     length (so_data object) = (if ol_block_count l = 0 then 0 else unat (ol_data_len l)) \<and>
     (ol_block_count l \<noteq> 0 \<longrightarrow> checksum (so_data object) = ol_data_checksum l)"

lemma image_objects_loaded:
  assumes "store_geometry g" and "slot < 2" and "length img = unat (capacity_bytes g)"
  shows "image_objects g img ls = Inr objects \<Longrightarrow> \<forall>l\<in>set ls. layout_within g slot l \<Longrightarrow> list_all2 loaded_as ls objects"
proof (induction ls arbitrary: objects)
  case (Cons l ls)
  then obtain data rest where d: "image_object g img l = Inr data" and r: "image_objects g img ls = Inr rest"
    and o: "objects = \<lparr>so_id = ol_id l, so_name = ol_name l, so_data = data\<rparr> # rest"
    by (auto simp: result_simps)
  have "loaded_as l \<lparr>so_id = ol_id l, so_name = ol_name l, so_data = data\<rparr>"
  proof (cases "ol_block_count l = 0")
    case False
    let ?s = "unat (ol_start_lba l)" and ?b = "unat (ol_block_count l)" and ?bs = "block_bytes g"
    from Cons.prems(2) False have w: "?s + ?b \<le> 2 + unat slot * arena_size g + arena_size g" "unat (ol_data_len l) \<le> ?b * ?bs"
      by (simp_all add: layout_within_def)
    have "unat slot * arena_size g \<le> 1 * arena_size g"
      by (rule mult_le_mono1) (use assms(2) in \<open>simp add: word_less_nat_alt\<close>)
    with w(1) store_geometryD(6) [OF assms(1)] have "?s + ?b \<le> unat (block_count g)" by linarith
    then have "(?s + ?b) * ?bs \<le> unat (block_count g) * ?bs" by (rule mult_le_mono1)
    moreover have "length img = unat (block_count g) * ?bs"
      using assms(1,3) by (simp add: store_geometry_def geometry_ok_def mult.commute)
    ultimately have "length (image_blocks g img (ol_start_lba l) (?b * ?bs)) = ?b * ?bs"
      by (simp add: image_blocks_def add_mult_distrib)
    with d w False show ?thesis by (auto simp: image_object_def Let_def loaded_as_def split: if_splits)
  qed (use d in \<open>simp add: image_object_def loaded_as_def\<close>)
  with Cons.IH [OF r] Cons.prems(2) o show ?case by simp
qed simp


lemma stripped_simps [simp]:
  "sb_generation (stripped sb) = sb_generation sb"
  "sb_objects (stripped sb) = map (ol_data_update (\<lambda>_. [])) (sb_objects sb)"
  by (simp_all add: stripped_def)

lemma loaded_as_strip [simp]: "loaded_as (ol_data_update f l) = loaded_as l"
  by (rule ext) (simp add: loaded_as_def)

lemma new_superblock_simps [simp]:
  "sb_generation (new_superblock gen ls) = gen" "sb_objects (new_superblock gen ls) = ls"
  by (simp_all add: new_superblock_def)

lemma checked_succ_less: "checked_add a 1 = Some b \<Longrightarrow> a < b" for a b :: u64
  unfolding checked_add_Some word_less_nat_alt unat_1 by linarith

lemma new_slot:
  assumes "store_geometry g" and "superblock_ok g slot sb" and "slot_block g img slot = encode_superblock g sb"
  shows "image_slot g img slot = Inr (stripped sb)"
  using superblock_roundtrip [OF store_geometryD(1) [OF assms(1)] assms(2)] assms(3) by (simp add: image_slot_def)

text \<open>An image left by an interrupted commit holds the old state or a complete new one.\<close>

lemma commit_outcome:
  assumes "store_geometry g" and "settled g base slot sb objects" and "checked_add (sb_generation sb) 1 = Some gen"
    and "superblock_ok g (other_slot slot) (new_superblock gen ls)"
    and "commit_image g (other_slot slot) (encode_superblock g (new_superblock gen ls)) base img"
    and "length img = unat (capacity_bytes g)"
  shows "committed g img slot sb objects \<or>
    (\<exists>objects'. settled g img (other_slot slot) (stripped (new_superblock gen ls)) objects' \<and> list_all2 loaded_as ls objects')"
proof -
  let ?o = "other_slot slot" and ?new = "stripped (new_superblock gen ls)"
  from assms(2) have slot: "slot < 2" "?o < 2" by (simp_all add: settled_def other_slot_less)
  from assms(5) have same: "same_outside (commit_region g ?o) base img" by (simp add: commit_image_def)
  note old = commit_keeps_old [OF assms(1,2) same]
  from assms(5) consider "slot_block g img ?o = slot_block g base ?o" | "slot_block g img ?o = encode_superblock g (new_superblock gen ls)"
    by (auto simp: commit_image_def)
  then show ?thesis
  proof cases
    case 1
    then have "image_slot g img ?o = image_slot g base ?o" by (simp add: image_slot_def)
    with old assms(2) show ?thesis by (auto simp: settled_def committed_def split: sum.splits)
  next
    case 2
    from new_slot [OF assms(1,4) 2] have new: "image_slot g img ?o = Inr ?new" .
    have before: "candidate_before (?o, ?new) (slot, sb)"
      using checked_succ_less [OF assms(3)] by (simp add: candidate_before_def)
    show ?thesis
    proof (cases "image_objects g img (sb_objects ?new)")
      case (Inl e)
      with old new slot show ?thesis by (simp add: committed_def)
    next
      case (Inr objects')
      have "\<forall>l\<in>set (sb_objects ?new). layout_within g ?o l"
        by (rule decoded_layouts [OF assms(1) slot(2)]) (use new in \<open>simp add: image_slot_def\<close>)
      from image_objects_loaded [OF assms(1) slot(2) assms(6) Inr this] have "list_all2 loaded_as ls objects'"
        by (simp add: list_all2_map1)
      with new Inr before old slot show ?thesis by (auto simp: settled_def other_other)
    qed
  qed
qed

text \<open>A payload that was written completely loads as it was staged.\<close>

lemma image_object_exact:
  assumes "layout_of g object l"
    and "image_blocks g img (ol_start_lba l) (unat (ol_block_count l) * block_bytes g) = padded g l"
  shows "image_object g img (ol_data_update (\<lambda>_. []) l) = Inr (so_data object)"
  using assms by (simp add: image_object_def layout_of_def padded_def)

lemma image_objects_exact:
  assumes "list_all2 (layout_of g) objects ls"
    and "\<forall>l\<in>set ls. image_blocks g img (ol_start_lba l) (unat (ol_block_count l) * block_bytes g) = padded g l"
  shows "image_objects g img (map (ol_data_update (\<lambda>_. [])) ls) = Inr objects"
  using assms by (induction rule: list_all2_induct) (simp_all add: image_object_exact, simp add: layout_of_def)

lemma commit_complete:
  assumes "store_geometry g" and "settled g base slot sb old" and "checked_add (sb_generation sb) 1 = Some gen"
    and "superblock_ok g (other_slot slot) (new_superblock gen ls)"
    and "same_outside (commit_region g (other_slot slot)) base img"
    and "slot_block g img (other_slot slot) = encode_superblock g (new_superblock gen ls)"
    and "list_all2 (layout_of g) objects ls"
    and "\<forall>l\<in>set ls. image_blocks g img (ol_start_lba l) (unat (ol_block_count l) * block_bytes g) = padded g l"
  shows "settled g img (other_slot slot) (stripped (new_superblock gen ls)) objects"
  using assms(2) commit_keeps_old(1) [OF assms(1,2,5)] new_slot [OF assms(1,4,6)] image_objects_exact [OF assms(7,8)]
    checked_succ_less [OF assms(3)]
  by (auto simp: settled_def other_other other_slot_less candidate_before_def)


section \<open>Formatting\<close>

definition empty_superblock :: superblock where
  "empty_superblock = \<lparr>sb_generation = 0, sb_object_count = 0, sb_objects = []\<rparr>"

lemma empty_superblock_ok: "superblock_ok g slot empty_superblock"
  by (simp add: superblock_ok_def empty_superblock_def validate_layouts_def)

lemma slot_block_written:
  assumes "unat slot * block_bytes g + length new \<le> length img" and "length new = block_bytes g"
  shows "slot_block g (image_write g img slot new) slot = new"
  using assms by (simp add: image_blocks_def image_write_def)

context block_device
begin

lemma write_superblock_ok:
  assumes "ok d" and "dev_geometry ops d = g" and "length (encode_superblock g sb) = block_bytes g"
    and "write_superblock ops g slot sb d = (Inr u, d')"
  shows "ok d' \<and> dev_geometry ops d' = g \<and> live d' = image_write g (live d) slot (encode_superblock g sb) \<and>
    unat slot * block_bytes g + block_bytes g \<le> length (live d) \<and> \<not> read_only g"
proof -
  have w: "write_blocks ops slot 1 (encode_superblock g sb) d = (Inr (), d')"
    using assms(4) by (auto simp: write_superblock_def result_simps split: prod.splits)
  note law = write_law [OF assms(1) w, unfolded assms(2)]
  then have fit: "transfer_fits g slot 1 (length (encode_superblock g sb)) True" by simp
  note im = images [OF assms(1), unfolded assms(2)]
  from validate_transfer_eq(2) [OF _ fit] im assms(3) law fit show ?thesis by (simp add: transfer_fits_def)
qed

lemma format_settled:
  assumes "ok d" and "store_format ops d = Inr st"
  defines "g \<equiv> dev_geometry ops d" and "d' \<equiv> st_device st"
  shows "ok d' \<and> dev_geometry ops d' = g \<and> store_geometry g \<and> \<not> read_only g \<and> live d' = durable d' \<and>
    st_geometry st = g \<and> st_generation st = 0 \<and> st_active_slot st = 0 \<and> st_objects st = [] \<and>
    settled g (durable d') 0 (stripped empty_superblock) []"
proof -
  let ?new = "encode_superblock g empty_superblock"
  from assms(2) have v: "validate_geometry g = Inr g"
    by (auto simp: store_format_def g_def validate_geometry_def result_simps split: if_splits)
  with images [OF assms(1)] have g: "store_geometry g" by (simp add: store_geometry_def g_def)
  have len: "length ?new = block_bytes g"
    using superblock_roundtrip [OF store_geometryD(1) [OF g] empty_superblock_ok] by blast
  from assms(2) v obtain u1 d1 u2 d2 u3 where
    w: "write_superblock ops g 0 empty_superblock d = (Inr u1, d1)" "write_superblock ops g 1 empty_superblock d1 = (Inr u2, d2)"
      "dev_flush ops d2 = (Inr u3, d')" and st: "st_geometry st = g" "st_generation st = 0" "st_active_slot st = 0" "st_objects st = []"
    by (auto simp: store_format_def Let_def empty_superblock_def d'_def g_def [symmetric] result_simps
        split: prod.splits sum.splits)
  note l1 = write_superblock_ok [OF assms(1) meta_eq_to_obj_eq [OF g_def, symmetric] len w(1)]
  then have d1: "ok d1" "dev_geometry ops d1 = g" by simp_all
  note l2 = write_superblock_ok [OF d1 len w(2)]
  then have d2: "ok d2" by simp
  note l3 = flush_law [OF d2 w(3)]
  have img: "durable d' = image_write g (image_write g (live d) 0 ?new) 1 ?new" "live d' = durable d'" using l1 l2 l3 by auto
  have "slot_block g (durable d') 1 = ?new"
    unfolding img by (rule slot_block_written) (use l1 l2 len in simp_all)
  moreover have "slot_block g (durable d') 0 = slot_block g (image_write g (live d) 0 ?new) 0"
    unfolding img using l1 l2 len by (simp add: image_blocks_def image_write_def slice_def write_at_def)
  moreover have "slot_block g (image_write g (live d) 0 ?new) 0 = ?new"
    by (rule slot_block_written) (use l1 len in simp_all)
  ultimately have "image_slot g (durable d') 0 = Inr (stripped empty_superblock)" "image_slot g (durable d') 1 = Inr (stripped empty_superblock)"
    using new_slot [OF g empty_superblock_ok] by simp_all
  moreover have "other_slot 0 = 1" by (simp add: other_slot_def SUPERBLOCK_SLOTS_def)
  ultimately have "settled g (durable d') 0 (stripped empty_superblock) []"
    by (simp add: settled_def candidate_before_def empty_superblock_def stripped_def)
  with g l1 l2 l3 img st show ?thesis by simp
qed

end


section \<open>Stores in use\<close>

text \<open>A store between two commits: nothing is waiting for a flush, and the device holds \<open>objects\<close> under the
  generation and the slot that the store remembers.\<close>

definition at_rest :: "fault_device object_store \<Rightarrow> stored_object list \<Rightarrow> bool" where
  "at_rest st objects \<longleftrightarrow>
    (let d = st_device st; g = st_geometry st in
     fault_ok d \<and> fd_geometry (fi_inner d) = g \<and> store_geometry g \<and> \<not> read_only g \<and>
     fd_live (fi_inner d) = fd_durable (fi_inner d) \<and> objects_ok (st_objects st) \<and> objects_ok objects \<and>
     (\<exists>sb. settled g (fd_durable (fi_inner d)) (st_active_slot st) sb objects \<and> sb_generation sb = st_generation st))"

lemma fault_geometry [simp]: "dev_geometry fault_ops d = fd_geometry (fi_inner d)"
  by (simp add: fault_ops_def)

lemma objects_ok_Nil [simp]: "objects_ok []"
  by (simp add: objects_ok_def)

lemma reboot_ok:
  assumes "fault_ok d"
  obtains d' where "rebooted_from_durable d = Inr d'" and "fault_ok d'" and "fault_calm d'"
    and "fd_geometry (fi_inner d') = fd_geometry (fi_inner d)" and "fd_live (fi_inner d') = fd_durable (fi_inner d)"
    and "fd_durable (fi_inner d') = fd_durable (fi_inner d)"
  using assms
  by (force simp: rebooted_from_durable_def rebooted_def from_durable_bytes_def fake_device_new_def Let_def fault_ok_def fake_ok_def
      fault_calm_def fault_device_new_def controller_new_def)

lemma reboot_mount:
  assumes "fault_ok d" and "fd_geometry (fi_inner d) = g" and "store_geometry g"
    and "committed g (fd_durable (fi_inner d)) slot sb objects"
  obtains d1 d2 where "rebooted_from_durable d = Inr d1"
    and "mount fault_ops d1 = Inr \<lparr>st_device = d2, st_geometry = g, st_generation = sb_generation sb, st_active_slot = slot,
      st_objects = objects\<rparr>"
    and "fault_ok d2" and "fault_calm d2" and "fd_geometry (fi_inner d2) = g"
    and "fd_live (fi_inner d2) = fd_durable (fi_inner d)" and "fd_durable (fi_inner d2) = fd_durable (fi_inner d)"
proof -
  from reboot_ok [OF assms(1)] obtain d1 where d1: "rebooted_from_durable d = Inr d1" "fault_ok d1" "fault_calm d1"
    "fd_geometry (fi_inner d1) = g" "fd_live (fi_inner d1) = fd_durable (fi_inner d)"
    "fd_durable (fi_inner d1) = fd_durable (fi_inner d)" using assms(2) by metis
  from fault_dev.mount_committed [OF d1(2,3) _ assms(3), of slot sb objects] d1 assms(4) obtain d2 where
    "mount fault_ops d1 = Inr \<lparr>st_device = d2, st_geometry = g, st_generation = sb_generation sb, st_active_slot = slot,
      st_objects = objects\<rparr>" "fault_dev.unchanged d1 d2" by auto
  with d1 show ?thesis by (intro that [of d1 d2]) (simp_all add: fault_dev.unchanged_def)
qed

lemma format_at_rest: "fault_ok d \<Longrightarrow> store_format fault_ops d = Inr st \<Longrightarrow> at_rest st []"
  using fault_dev.format_settled [of d st] by (auto simp: at_rest_def Let_def empty_superblock_def stripped_def)

lemma write_object_at_rest:
  assumes "at_rest st objects" and "from_utf8 name"
  shows "at_rest (snd (write_object oid name data st)) objects"
proof -
  have "\<exists>xs. snd (write_object oid name data st) = st\<lparr>st_objects := xs\<rparr>"
    by (cases rule: write_object_cases [of oid name data st]) (auto intro: exI [of _ "st_objects st"])
  then obtain xs where "snd (write_object oid name data st) = st\<lparr>st_objects := xs\<rparr>" ..
  with write_object_ok [OF _ assms(2), of st oid data] assms(1) show ?thesis by (simp add: at_rest_def Let_def)
qed

text \<open>What the durable image holds when a commit has returned, whatever it returned.\<close>

definition after_commit :: "fault_device object_store \<Rightarrow> stored_object list \<Rightarrow> fault_device \<Rightarrow> bool" where
  "after_commit st old d \<longleftrightarrow>
    (\<exists>slot sb objects. committed (st_geometry st) (fd_durable (fi_inner d)) slot sb objects \<and>
      (sb_generation sb = st_generation st \<and> objects = old \<or>
       unat (sb_generation sb) = unat (st_generation st) + 1 \<and>
       list_all2 (\<lambda>new got. so_id got = so_id new \<and> so_name got = so_name new \<and>
         length (so_data got) = length (so_data new) \<and> checksum (so_data got) = checksum (so_data new)) (st_objects st) objects))"

lemma loaded_as_staged:
  assumes "layout_of g new l" and "loaded_as l got"
  shows "so_id got = so_id new \<and> so_name got = so_name new \<and>
    length (so_data got) = length (so_data new) \<and> checksum (so_data got) = checksum (so_data new)"
  using assms by (cases "ol_block_count l = 0") (auto simp: layout_of_def loaded_as_def)

lemma commit_at_rest:
  assumes "at_rest st objects" and "commit fault_ops st = (r, st')"
  shows "fault_ok (st_device st') \<and> fd_geometry (fi_inner (st_device st')) = st_geometry st \<and> after_commit st objects (st_device st') \<and>
    (r = Inr () \<longrightarrow> at_rest st' (st_objects st) \<and> unat (st_generation st') = unat (st_generation st) + 1 \<and> st_objects st' = st_objects st)"
proof -
  let ?g = "st_geometry st" and ?d = "st_device st" and ?slot = "st_active_slot st" and ?d' = "st_device st'"
  from assms(1) obtain sb where ok: "fault_ok ?d" "dev_geometry fault_ops ?d = ?g" "store_geometry ?g" "\<not> read_only ?g"
      "fd_live (fi_inner ?d) = fd_durable (fi_inner ?d)" "objects_ok (st_objects st)" "objects_ok objects"
    and sb: "settled ?g (fd_durable (fi_inner ?d)) ?slot sb objects" "sb_generation sb = st_generation st"
    by (auto simp: at_rest_def Let_def)
  from sb have slot: "?slot < 2" by (simp add: settled_def)
  show ?thesis
  proof (cases "\<exists>gen ls. checked_add (st_generation st) 1 = Some gen \<and> build_object_layout ?g (other_slot ?slot) (st_objects st) = Inr ls")
    case False
    then have "(\<exists>e. r = Inl e) \<and> st' = st"
      using assms(2) by (auto simp: commit_def Let_def other_slot_def split: option.splits sum.splits)
    moreover have "after_commit st objects ?d" using settled_committed [OF sb(1)] sb(2) unfolding after_commit_def by blast
    ultimately show ?thesis using ok by auto
  next
    case True
    then obtain gen ls where gen: "checked_add (st_generation st) 1 = Some gen"
      and ls: "build_object_layout ?g (other_slot ?slot) (st_objects st) = Inr ls" by blast
    note law = fault_dev.commit_law [OF ok(1,2) refl ok(3) slot ok(6,5) gen ls assms(2)]
    note sbok = new_superblock_ok [OF ok(3) other_slot_less [OF slot] ok(6) ls, of gen]
    from law have d': "fault_ok ?d'" by blast
    have len: "length (fd_durable (fi_inner ?d')) = unat (capacity_bytes ?g)" using fault_dev.images [OF d'] law by simp
    from built_layouts [OF ok(3) other_slot_less [OF slot] ls] have lo: "list_all2 (layout_of ?g) (st_objects st) ls" by blast
    from gen sb(2) have gen': "checked_add (sb_generation sb) 1 = Some gen" by simp
    have g1: "unat gen = unat (st_generation st) + 1" using gen unfolding checked_add_Some unat_1 by blast
    have image: "commit_image ?g (other_slot ?slot) (encode_superblock ?g (new_superblock gen ls)) (fd_durable (fi_inner ?d))
        (fd_durable (fi_inner ?d'))" using law by blast
    have "after_commit st objects ?d'"
      using commit_outcome [OF ok(3) sb(1) gen' sbok image len]
    proof (elim disjE exE conjE)
      assume "committed ?g (fd_durable (fi_inner ?d')) ?slot sb objects"
      with sb(2) show ?thesis unfolding after_commit_def by blast
    next
      fix objects'
      assume c: "settled ?g (fd_durable (fi_inner ?d')) (other_slot ?slot) (stripped (new_superblock gen ls)) objects'"
        and l: "list_all2 loaded_as ls objects'"
      have "list_all2 (\<lambda>new got. so_id got = so_id new \<and> so_name got = so_name new \<and>
          length (so_data got) = length (so_data new) \<and> checksum (so_data got) = checksum (so_data new)) (st_objects st) objects'"
        by (rule list_all2_trans [OF loaded_as_staged lo l])
      with settled_committed [OF c] g1 show ?thesis unfolding after_commit_def by fastforce
    qed
    moreover have "at_rest st' (st_objects st) \<and> unat (st_generation st') = unat (st_generation st) + 1 \<and> st_objects st' = st_objects st"
      if "r = Inr ()"
    proof -
      from law that have s: "st' = st\<lparr>st_device := ?d', st_generation := gen, st_active_slot := other_slot ?slot\<rparr>" by blast
      then have f: "st_generation st' = gen" "st_objects st' = st_objects st" "st_active_slot st' = other_slot ?slot"
          "st_geometry st' = ?g" by (metis object_store.ext_inject object_store.surjective object_store.simps)+
      have "settled ?g (fd_durable (fi_inner ?d')) (other_slot ?slot) (stripped (new_superblock gen ls)) (st_objects st)"
        by (rule commit_complete [OF ok(3) sb(1) gen' sbok _ _ lo]) (use law that in \<open>simp_all add: commit_image_def\<close>)
      with law that ok f g1 show ?thesis by (auto simp: at_rest_def Let_def)
    qed
    ultimately show ?thesis using law by auto
  qed
qed


section \<open>Commits that succeed\<close>

context reliable_device
begin

definition writable :: "block_geometry \<Rightarrow> 'd \<Rightarrow> bool" where
  "writable g d \<longleftrightarrow> ok d \<and> calm d \<and> dev_geometry ops d = g \<and> \<not> read_only g"

lemma writable_write:
  assumes "writable g d" and "transfer_fits g lba n (length buf) True"
  shows "\<exists>d'. write_blocks ops lba n buf d = (Inr (), d') \<and> writable g d'"
proof -
  from assms obtain d' where w: "write_blocks ops lba n buf d = (Inr (), d')" "calm d'"
    using calm_write [of d lba n buf] by (auto simp: writable_def)
  with write_law [OF _ w(1)] assms(1) show ?thesis by (auto simp: writable_def)
qed

lemma chunk_fits:
  assumes "extent_ok g object" and "\<not> read_only g" and "c * max_blocks g < unat (ol_block_count object)" and "max_transfer_blocks g \<noteq> 0"
  shows "transfer_fits g (ol_start_lba object + of_nat (c * max_blocks g))
    (of_nat (min (max_blocks g) (unat (ol_block_count object) - c * max_blocks g))) (length (chunk_buffer g object c)) True"
proof -
  let ?n = "min (max_blocks g) (unat (ol_block_count object) - c * max_blocks g)"
  from assms(1) have ext: "length (ol_data object) \<le> unat (ol_block_count object) * block_bytes g"
      "unat (ol_start_lba object) + unat (ol_block_count object) \<le> unat (block_count g)" by (simp_all add: extent_ok_def)
  have n: "unat (of_nat ?n :: u32) = ?n"
    using unat_bound [of "max_transfer_blocks g"] by (simp add: unsigned_of_nat take_bit_nat_eq_self)
  have pos: "0 < ?n" using assms(3,4) by (simp add: unat_gt_0)
  then have "0 < (of_nat ?n :: u32)" unfolding word_less_nat_alt n by simp
  moreover have "(of_nat ?n :: u32) \<le> max_transfer_blocks g" unfolding word_le_nat_alt n by simp
  moreover have "unat (ol_start_lba object + of_nat (c * max_blocks g)) + ?n \<le> unat (block_count g)"
    unfolding chunk_lba [OF ext(2) less_imp_le [OF assms(3)]] using assms(3) ext(2) by linarith
  ultimately show ?thesis
    unfolding transfer_fits_def n chunk_buffer_eq(2) [OF ext(1) assms(3)] using assms(2) by (simp add: mult.commute)
qed

lemma writable_chunks:
  assumes "writable g d" and "extent_ok g object" and "max_transfer_blocks g \<noteq> 0"
  shows "\<exists>d'. write_chunks ops g object [c..<chunk_count g (unat (ol_block_count object))] d = (Inr (), d') \<and> writable g d'"
  using assms(1)
proof (induction "chunk_count g (unat (ol_block_count object)) - c" arbitrary: c d)
  case (Suc x)
  let ?N = "chunk_count g (unat (ol_block_count object))"
  have c: "c < ?N" using Suc(2) by simp
  have cm: "c * max_blocks g < unat (ol_block_count object)"
    by (rule chunk_bound [OF _ c]) (use assms(3) in \<open>simp add: unat_gt_0\<close>)
  have "\<not> read_only g" using Suc.prems by (simp add: writable_def)
  from writable_write [OF Suc.prems chunk_fits [OF assms(2) this cm assms(3)]] obtain d1 where
    w: "write_blocks ops (ol_start_lba object + of_nat (c * max_blocks g))
      (of_nat (min (max_blocks g) (unat (ol_block_count object) - c * max_blocks g))) (chunk_buffer g object c) d = (Inr (), d1)"
    and d1: "writable g d1" by blast
  have "x = ?N - Suc c" using Suc.hyps(2) by linarith
  from Suc.hyps(1) [OF this d1] obtain d2 where
    "write_chunks ops g object [Suc c..<?N] d1 = (Inr (), d2)" "writable g d2" by blast
  then show ?case unfolding write_chunks_step [OF assms(2,3) c] w by simp
qed simp

lemma writable_all:
  assumes "max_transfer_blocks g \<noteq> 0"
  shows "writable g d \<Longrightarrow> \<forall>l\<in>set ls. extent_ok g l \<Longrightarrow> \<exists>d'. write_all_data ops g ls d = (Inr (), d') \<and> writable g d'"
proof (induction ls arbitrary: d)
  case (Cons l ls)
  then have "\<exists>d'. write_object_data ops g l d = (Inr (), d') \<and> writable g d'"
    using writable_chunks [OF Cons.prems(1) _ assms, of l 0] by (simp add: write_object_data_def chunk_indices_def Let_def)
  then obtain d1 where d1: "write_object_data ops g l d = (Inr (), d1)" "writable g d1" by blast
  with Cons.IH [OF d1(2)] Cons.prems(2) show ?case by simp
qed simp

lemma writable_commit:
  assumes "writable g (st_device st)" and "st_geometry st = g" and "store_geometry g" and "st_active_slot st < 2"
    and "objects_ok (st_objects st)" and "checked_add (st_generation st) 1 = Some gen"
    and "build_object_layout g (other_slot (st_active_slot st)) (st_objects st) = Inr ls"
  shows "fst (commit ops st) = Inr ()"
proof -
  let ?slot = "other_slot (st_active_slot st)"
  have slot: "?slot < 2" by (rule other_slot_less [OF assms(4)])
  note g = store_geometryD [OF assms(3)]
  from built_layouts [OF assms(3) slot assms(7)] have "\<forall>l\<in>set ls. extent_ok g l" by blast
  from writable_all [OF g(2) assms(1) this] obtain d1 where w1: "write_all_data ops g ls (st_device st) = (Inr (), d1)" "writable g d1" by blast
  have len: "length (encode_superblock g (new_superblock gen ls)) = block_bytes g"
    using superblock_roundtrip [OF g(1) new_superblock_ok [OF assms(3) slot assms(5,7)]] by blast
  have "transfer_fits g ?slot 1 (length (encode_superblock g (new_superblock gen ls))) True"
    using w1(2) slot g(2,6) unfolding transfer_fits_def len writable_def by (simp add: word_less_nat_alt word_le_nat_alt unat_gt_0 [symmetric])
  from writable_write [OF w1(2) this] obtain d2 where
    w2: "write_superblock ops g ?slot (new_superblock gen ls) d1 = (Inr (), d2)" "writable g d2"
    by (auto simp: write_superblock_def)
  from calm_flush [of d2] w2(2) obtain d3 where "dev_flush ops d2 = (Inr (), d3)" by (auto simp: writable_def)
  with w1 w2 show ?thesis
    unfolding commit_def Let_def assms(2) other_slot_def [symmetric] assms(6,7) new_superblock_def [symmetric] by simp
qed

lemma writable_format:
  assumes "writable g d" and "store_geometry g"
  shows "\<exists>st. store_format ops d = Inr st \<and> calm (st_device st)"
proof -
  note g = store_geometryD [OF assms(2)]
  let ?new = "encode_superblock g empty_superblock"
  have len: "length ?new = block_bytes g" using superblock_roundtrip [OF g(1) empty_superblock_ok] by blast
  have "transfer_fits g slot 1 (length ?new) True" if "slot < 2" for slot
    using assms(1) that g(2,6) unfolding transfer_fits_def len writable_def
    by (simp add: word_less_nat_alt word_le_nat_alt unat_gt_0 [symmetric])
  then have w: "\<exists>d'. write_superblock ops g slot empty_superblock d = (Inr (), d') \<and> writable g d'" if "slot < 2" "writable g d" for slot d
    using writable_write [OF that(2), of slot 1 ?new] that(1) by (auto simp: write_superblock_def)
  from w [OF _ assms(1), of 0] obtain d1 where d1: "write_superblock ops g 0 empty_superblock d = (Inr (), d1)" "writable g d1" by auto
  from w [OF _ d1(2), of 1] obtain d2 where d2: "write_superblock ops g 1 empty_superblock d1 = (Inr (), d2)" "writable g d2" by auto
  from calm_flush [of d2] d2(2) obtain d3 where "dev_flush ops d2 = (Inr (), d3)" "calm d3" by (auto simp: writable_def)
  with d1 d2 assms show ?thesis
    unfolding store_format_def empty_superblock_def by (simp add: writable_def store_geometry_def Let_def)
qed

end

text \<open>The blocks that a list of objects takes.\<close>

definition blocks_needed :: "block_geometry \<Rightarrow> stored_object list \<Rightarrow> nat" where
  "blocks_needed g objects = (\<Sum>object\<leftarrow>objects. (length (so_data object) + (block_bytes g - 1)) div block_bytes g)"

lemma layout_loop_fits:
  assumes "logical_block_size g \<noteq> 0"
  shows "\<forall>object\<in>set objects. name_ok (so_name object) \<and> length (so_data object) < 2 ^ 32 \<Longrightarrow>
    unat lba + blocks_needed g objects < 2 ^ 64 \<Longrightarrow>
    \<exists>ls e. layout_loop g lba objects = Inr (ls, e) \<and> unat e = unat lba + blocks_needed g objects"
proof (induction objects arbitrary: lba)
  case (Cons object objects)
  let ?b = "if so_data object = [] then 0 else object_blocks g (of_nat (length (so_data object)))"
  let ?n = "(length (so_data object) + (block_bytes g - 1)) div block_bytes g"
  from Cons.prems(1) have small: "length (so_data object) < 2 ^ 32" and name: "validate_object_name (so_name object) = Inr ()"
    by (auto simp: validate_object_name_def name_ok_def MAX_OBJECT_NAME_BYTES_def)
  have "0 < block_bytes g" using assms by (simp add: unat_gt_0)
  then have b: "unat ?b = ?n"
    using small by (auto simp: unat_object_blocks [OF assms] unsigned_of_nat take_bit_nat_eq_self)
  have n: "blocks_needed g (object # objects) = ?n + blocks_needed g objects" by (simp add: blocks_needed_def)
  have fit: "unat lba + unat ?b < 2 ^ 64" using Cons.prems(2) b n by linarith
  note step = chained_step [OF fit]
  have c: "checked_add lba (ucast ?b) = Some (lba + ucast ?b)" using step by (simp add: checked_add_Some)
  obtain ls e where ih: "layout_loop g (lba + ucast ?b) objects = Inr (ls, e)" and e: "unat e = unat lba + ?n + blocks_needed g objects"
    using Cons.IH [of "lba + ucast ?b"] Cons.prems step b n by auto
  have big: "(2 ^ 32 \<le> length (so_data object)) = False" using small by (simp only: not_le [symmetric] simp_thms)
  have "\<exists>l. layout_loop g lba (object # objects) = Inr (l # ls, e)"
    unfolding layout_loop.simps name Let_def big if_False rbind.simps c ok_or_def option.case ih prod.case by blast
  with e n show ?case by (metis add.assoc)
qed (simp add: blocks_needed_def)

lemma build_fits:
  assumes "store_geometry g" and "slot < 2" and "objects_ok objects" and "blocks_needed g objects \<le> arena_size g"
  shows "\<exists>ls. build_object_layout g slot objects = Inr ls"
proof -
  note a = slot_arena [OF assms(1,2)]
  have "unat (fst (slot_data_arena g slot)) + blocks_needed g objects < 2 ^ 64"
    using a assms(4) unat_bound [of "snd (slot_data_arena g slot)"] by simp
  with layout_loop_fits [OF store_geometryD(3) [OF assms(1)]] assms(3) obtain ls e where
    "layout_loop g (fst (slot_data_arena g slot)) objects = Inr (ls, e)"
    and e: "unat e = unat (fst (slot_data_arena g slot)) + blocks_needed g objects" by (metis objects_ok_def)
  moreover have "\<not> snd (slot_data_arena g slot) < e" unfolding word_less_nat_alt e using a assms(4) by linarith
  ultimately show ?thesis by (simp add: build_object_layout_def Let_def)
qed

lemma commit_succeeds:
  assumes "at_rest st objects" and "fault_calm (st_device st)" and "unat (st_generation st) + 1 < 2 ^ 64"
    and "blocks_needed (st_geometry st) (st_objects st) \<le> arena_size (st_geometry st)"
  shows "fst (commit fault_ops st) = Inr ()"
proof -
  from assms(1) have r: "fault_dev.writable (st_geometry st) (st_device st)" "store_geometry (st_geometry st)" "st_active_slot st < 2"
      "objects_ok (st_objects st)"
    using assms(2) by (auto simp: at_rest_def Let_def fault_dev.writable_def settled_def)
  from build_fits [OF r(2) other_slot_less [OF r(3)] r(4) assms(4)] obtain ls where
    "build_object_layout (st_geometry st) (other_slot (st_active_slot st)) (st_objects st) = Inr ls" ..
  moreover have "checked_add (st_generation st) 1 = Some (st_generation st + 1)" using assms(3) by (simp add: checked_add_def)
  ultimately show ?thesis by (intro fault_dev.writable_commit [OF r(1) refl r(2,3,4)])
qed


section \<open>Histories of a store\<close>

text \<open>A store and the objects of its last successful commit, from formatting on: objects are staged, commits
  succeed, the device is rebooted and mounted again, and any fault plan is armed. Names are strings, so
  they are valid UTF-8. A commit that returns an error ends the history: neither the store that stays in
  use after it nor the one mounted after a reboot from it is covered. Such a commit may leave a newer
  superblock whose objects do not load, which a mount passes over and a later one can select.\<close>

inductive stored :: "fault_device object_store \<Rightarrow> stored_object list \<Rightarrow> bool" where
  formatted: "fault_ok d \<Longrightarrow> store_format fault_ops d = Inr st \<Longrightarrow> stored st []"
| staged: "stored st old \<Longrightarrow> from_utf8 name \<Longrightarrow> stored (snd (write_object oid name data st)) old"
| rearmed: "stored st old \<Longrightarrow> stored (st\<lparr>st_device := (st_device st)\<lparr>fi_controller := c\<rparr>\<rparr>) old"
| saved: "stored st old \<Longrightarrow> commit fault_ops st = (Inr (), st') \<Longrightarrow> stored st' (st_objects st)"
| remounted: "stored st old \<Longrightarrow> rebooted_from_durable (st_device st) = Inr d \<Longrightarrow> mount fault_ops d = Inr st' \<Longrightarrow> stored st' old"

lemma reboot_at_rest:
  assumes "at_rest st old"
  obtains d st' where "rebooted_from_durable (st_device st) = Inr d" and "mount fault_ops d = Inr st'"
    and "at_rest st' old" and "st_objects st' = old" and "st_generation st' = st_generation st"
proof -
  let ?g = "st_geometry st" and ?d = "st_device st"
  from assms obtain sb where ok: "fault_ok ?d" "fd_geometry (fi_inner ?d) = ?g" "store_geometry ?g" "\<not> read_only ?g" "objects_ok old"
    and sb: "settled ?g (fd_durable (fi_inner ?d)) (st_active_slot st) sb old" "sb_generation sb = st_generation st"
    by (auto simp: at_rest_def Let_def)
  show ?thesis
    by (rule reboot_mount [OF ok(1-3) settled_committed [OF sb(1)]], rule that, assumption, assumption)
      (use ok sb in \<open>auto simp: at_rest_def Let_def\<close>)
qed

lemma stored_at_rest: "stored st old \<Longrightarrow> at_rest st old"
proof (induction rule: stored.induct)
  case (formatted d st)
  then show ?case by (rule format_at_rest)
next
  case (staged st old name oid data)
  then show ?case by (blast intro: write_object_at_rest)
next
  case (rearmed st old c)
  then show ?case by (simp add: at_rest_def Let_def fault_ok_def)
next
  case (saved st old st')
  with commit_at_rest show ?case by blast
next
  case (remounted st old d st')
  from reboot_at_rest [OF remounted.IH] remounted.hyps show ?case by (metis sum.inject(2))
qed

end
