(* ===== verification/Store_Props.thy ===== *)
theory Store_Props
  imports Store_Atomic
begin

text \<open>
  What the object store promises: staged writes read back, commits that survive a reboot, atomicity when
  power is lost or a transfer fails anywhere in a commit, and the blind spot of the payload checksum. The
  instances of the properties run on a device of four 512-byte blocks.
\<close>

section \<open>A small store\<close>

text \<open>A store on a device of four 512-byte blocks, with one object staged.\<close>

definition small_geometry :: block_geometry where
  "small_geometry = \<lparr>device_id = 0, logical_block_size = 512, block_count = 4, max_transfer_blocks = 1, read_only = False,
     capacity_bytes = 2048\<rparr>"

definition small_device :: fault_device where
  "small_device = fault_device_new \<lparr>fd_geometry = small_geometry, fd_live = replicate 2048 0, fd_durable = replicate 2048 0, fd_flush_count = 0\<rparr>"

definition small_store :: "fault_device object_store" where
  "small_store = snd (write_object 7 [97] [1, 2, 3] (projr (store_format fault_ops small_device)))"

lemma small_geometry_ok: "geometry_ok small_geometry" "store_geometry small_geometry" "\<not> read_only small_geometry"
  "arena_size small_geometry = 1" "block_bytes small_geometry = 512"
  by (simp_all add: small_geometry_def store_geometry_def geometry_ok_def validate_geometry_def store_consts arena_size_def data_arena_blocks_def
      saturating_sub_def)

lemma small_device_ok: "fault_ok small_device" "fault_calm small_device" "fd_geometry (fi_inner small_device) = small_geometry"
  using small_geometry_ok
  by (simp_all add: small_device_def fault_device_new_def fault_ok_def fake_ok_def fault_calm_def controller_new_def)
    (simp add: small_geometry_def)

lemma small_format:
  "store_format fault_ops small_device = Inr (projr (store_format fault_ops small_device))"
  "fault_calm (st_device (projr (store_format fault_ops small_device)))"
proof -
  have "fault_dev.writable small_geometry small_device"
    using small_device_ok small_geometry_ok by (simp add: fault_dev.writable_def)
  from fault_dev.writable_format [OF this small_geometry_ok(2)]
  show "store_format fault_ops small_device = Inr (projr (store_format fault_ops small_device))"
    "fault_calm (st_device (projr (store_format fault_ops small_device)))" by auto
qed

lemma small_store_stored: "stored small_store []"
  unfolding small_store_def
  by (rule stored.staged [OF stored.formatted [OF small_device_ok(1) small_format(1)]]) (simp add: from_utf8.simps)


lemma small_store_objects:
  "st_objects small_store = [\<lparr>so_id = 7, so_name = [97], so_data = [1, 2, 3]\<rparr>]" "st_geometry small_store = small_geometry"
  "st_generation small_store = 0" "fault_calm (st_device small_store)"
proof -
  note f = fault_dev.format_settled [OF small_device_ok(1) small_format(1)]
  then show "st_objects small_store = [\<lparr>so_id = 7, so_name = [97], so_data = [1, 2, 3]\<rparr>]" "st_geometry small_store = small_geometry"
      "st_generation small_store = 0" "fault_calm (st_device small_store)"
    using small_format(2)
    by (simp_all add: small_store_def write_object_def validate_object_name_def store_consts small_device_ok(3))
qed

text \<open>The same store with a power loss armed for the second write of a commit, which is made durable early.\<close>

definition torn_store :: "fault_device object_store" where
  "torn_store = small_store\<lparr>st_device := (st_device small_store)\<lparr>fi_controller :=
     arm \<lparr>fp_trigger = AfterWrite 2, fp_action = PowerLoss\<rparr> (set_early_persist_writes [2] controller_new)\<rparr>\<rparr>"

lemma torn_store_stored: "stored torn_store []"
  unfolding torn_store_def by (rule stored.rearmed [OF small_store_stored])

section \<open>Commits\<close>

text \<open>C3 (safety). Commits are atomic. Let every commit so far have returned success. Whatever fault is now armed
  on the device and whatever the next \<open>commit\<close> returns, a reboot from the durable image mounts: the mounted
  store has either the old generation and exactly the objects of the last successful commit, or the next
  generation and objects that agree with the staged ones in identifier, name, length and checksum.\<close>

theorem commit_crash_atomic:
  assumes "stored st old" and "commit fault_ops st = (r, st')"
  shows "\<exists>d mounted. rebooted_from_durable (st_device st') = Inr d \<and> mount fault_ops d = Inr mounted \<and>
    (st_generation mounted = st_generation st \<and> st_objects mounted = old \<or>
     unat (st_generation mounted) = unat (st_generation st) + 1 \<and>
     list_all2 (\<lambda>new got. so_id got = so_id new \<and> so_name got = so_name new \<and>
       length (so_data got) = length (so_data new) \<and> checksum (so_data got) = checksum (so_data new)) (st_objects st) (st_objects mounted))"
proof -
  have rest: "at_rest st old" by (rule stored_at_rest [OF assms(1)])
  then have g: "store_geometry (st_geometry st)" by (simp add: at_rest_def Let_def)
  note law = commit_at_rest [OF rest assms(2)]
  then have d: "fault_ok (st_device st')" "fd_geometry (fi_inner (st_device st')) = st_geometry st" by simp_all
  from law obtain slot sb objects where c: "committed (st_geometry st) (fd_durable (fi_inner (st_device st'))) slot sb objects"
    and alt: "sb_generation sb = st_generation st \<and> objects = old \<or> unat (sb_generation sb) = unat (st_generation st) + 1 \<and>
     list_all2 (\<lambda>new got. so_id got = so_id new \<and> so_name got = so_name new \<and>
       length (so_data got) = length (so_data new) \<and> checksum (so_data got) = checksum (so_data new)) (st_objects st) objects"
    unfolding after_commit_def by blast
  show ?thesis
    by (rule reboot_mount [OF d g c], intro exI conjI, assumption, assumption) (use alt in simp)
qed

theorem commit_crash_atomic_witness:
  "stored torn_store [] \<and> (\<exists>d mounted. rebooted_from_durable (st_device (snd (commit fault_ops torn_store))) = Inr d \<and>
    mount fault_ops d = Inr mounted \<and>
    (st_generation mounted = st_generation torn_store \<and> st_objects mounted = [] \<or>
     unat (st_generation mounted) = unat (st_generation torn_store) + 1 \<and>
     list_all2 (\<lambda>new got. so_id got = so_id new \<and> so_name got = so_name new \<and>
       length (so_data got) = length (so_data new) \<and> checksum (so_data got) = checksum (so_data new))
       (st_objects torn_store) (st_objects mounted)))"
  using torn_store_stored commit_crash_atomic [OF torn_store_stored prod.collapse [symmetric]] by blast

text \<open>C13 (roundtrip). A commit that reports success is durable: after a reboot the store mounts with the next
  generation and exactly the staged objects, and the store in memory stands at the same generation.\<close>

theorem commit_then_mount:
  assumes "stored st old" and "commit fault_ops st = (Inr (), st')"
  shows "\<exists>d mounted. rebooted_from_durable (st_device st') = Inr d \<and> mount fault_ops d = Inr mounted \<and>
    st_objects mounted = st_objects st \<and> st_objects st' = st_objects st \<and>
    st_generation mounted = st_generation st' \<and> unat (st_generation st') = unat (st_generation st) + 1"
proof -
  from commit_at_rest [OF stored_at_rest [OF assms(1)] assms(2)] have r: "at_rest st' (st_objects st)"
      "unat (st_generation st') = unat (st_generation st) + 1" "st_objects st' = st_objects st" by simp_all
  show ?thesis
    by (rule reboot_at_rest [OF r(1)], intro exI conjI, assumption, assumption) (use r in simp_all)
qed

text \<open>C14 (liveness). A commit succeeds on a device without a fault whenever the staged payloads, rounded up to
  whole blocks, fit into one of the two data arenas and the generation counter is not exhausted.\<close>

theorem commit_returns_ok:
  assumes "stored st old" and "fault_calm (st_device st)" and "unat (st_generation st) + 1 < 2 ^ 64"
    and "(\<Sum>object\<leftarrow>st_objects st. (length (so_data object) + (block_bytes (st_geometry st) - 1)) div block_bytes (st_geometry st))
      \<le> (unat (block_count (st_geometry st)) - 2) div 2"
  shows "fst (commit fault_ops st) = Inr ()"
  using commit_succeeds [OF stored_at_rest [OF assms(1)] assms(2,3)] assms(4) by (simp add: blocks_needed_def arena_size_def)

theorem commit_returns_ok_witness: "fault_calm (st_device small_store) \<and> fst (commit fault_ops small_store) = Inr ()"
  using commit_returns_ok [OF small_store_stored small_store_objects(4)] small_store_objects(4)
  by (simp add: small_store_objects small_geometry_def)

lemma small_commit: "commit fault_ops small_store = (Inr (), snd (commit fault_ops small_store))"
  using commit_succeeds [OF stored_at_rest [OF small_store_stored] small_store_objects(4)]
  by (simp add: small_store_objects blocks_needed_def small_geometry_ok(4)) (simp add: small_geometry_def prod_eq_iff)

theorem commit_then_mount_witness:
  "\<exists>d mounted. rebooted_from_durable (st_device (snd (commit fault_ops small_store))) = Inr d \<and> mount fault_ops d = Inr mounted \<and>
    st_objects mounted = [\<lparr>so_id = 7, so_name = [97], so_data = [1, 2, 3]\<rparr>] \<and> unat (st_generation mounted) = 1"
  using commit_then_mount [OF small_store_stored small_commit] by (auto simp: small_store_objects)


section \<open>Staged objects\<close>



lemma find_distinct: "distinct (map f xs) \<Longrightarrow> x \<in> set xs \<Longrightarrow> List.find (\<lambda>y. f y = f x) xs = Some x"
  by (induction xs) (auto simp: image_iff)

lemma kept_by_update: "x \<in> set xs \<Longrightarrow> x \<noteq> xs ! i \<Longrightarrow> x \<in> set (xs[i := y])"
  by (metis in_set_conv_nth length_list_update nth_list_update_neq)

text \<open>C30 (functional). A staged write is read back: after \<open>write_object\<close> has succeeded, both lookups of its identifier
  and of its name give the new payload, every object with another identifier and another name is still
  there, and no other object has appeared. A refused write changes nothing.\<close>

theorem write_object_reads_back:
  assumes "stored st old" and "from_utf8 name" and "write_object oid name data st = (r, st')"
  shows "if r = Inr () then
      read_object_by_id oid st' = Inr data \<and> read_object_by_name name st' = Inr data \<and>
      {x \<in> set (st_objects st). so_id x \<noteq> oid \<and> so_name x \<noteq> name} \<subseteq> set (st_objects st') \<and>
      set (st_objects st') \<subseteq> insert \<lparr>so_id = oid, so_name = name, so_data = data\<rparr> (set (st_objects st))
    else st' = st"
proof -
  let ?o = "\<lparr>so_id = oid, so_name = name, so_data = data\<rparr>" and ?xs = "st_objects st"
  have "objects_ok ?xs" using stored_at_rest [OF assms(1)] by (simp add: at_rest_def Let_def)
  from write_object_ok [OF this assms(2), of oid data] assms(3)
  have ok: "distinct (map so_id (st_objects st'))" "distinct (map so_name (st_objects st'))" by (simp_all add: objects_ok_def)
  have found: "read_object_by_id oid st' = Inr data \<and> read_object_by_name name st' = Inr data" if "?o \<in> set (st_objects st')"
    using find_distinct [OF ok(1) that] find_distinct [OF ok(2) that] by (simp add: read_object_by_id_def read_object_by_name_def ok_or_def)
  show ?thesis
  proof (cases rule: write_object_cases [of oid name data st])
    case (refused e)
    with assms(3) show ?thesis by auto
  next
    case (replaced i)
    with assms(3) have st': "st_objects st' = ?xs[i := ?o]" and r: "r = Inr ()" by auto
    have "so_id (?xs ! i) = oid \<or> so_name (?xs ! i) = name"
      using replaced(7) by (auto dest: position_SomeD)
    then have "{x \<in> set ?xs. so_id x \<noteq> oid \<and> so_name x \<noteq> name} \<subseteq> set (st_objects st')"
      unfolding st' using kept_by_update [of _ ?xs i ?o] by auto
    moreover have "?o \<in> set (st_objects st')" unfolding st' using replaced(1) by (rule set_update_memI)
    ultimately show ?thesis using r found set_update_subset_insert [of ?xs i ?o] st' by simp
  next
    case added
    with assms(3) have "st_objects st' = ?xs @ [?o]" "r = Inr ()" by auto
    with found show ?thesis by auto
  qed
qed

theorem write_object_reads_back_witness:
  "read_object_by_name [98] (snd (write_object 7 [98] [9] small_store)) = Inr [9] \<and>
   read_object_by_id 7 (snd (write_object 7 [98] [9] small_store)) = Inr [9]"
proof -
  have "from_utf8 [98]" by simp
  moreover have "write_object 7 [98] [9] small_store = (Inr (), snd (write_object 7 [98] [9] small_store))"
    by (simp add: write_object_def small_store_objects validate_object_name_def store_consts)
  ultimately show ?thesis using write_object_reads_back [OF small_store_stored, of "[98]" 7 "[9]"] by auto
qed


section \<open>Payload checksums\<close>

lemma checksum_blind:
  assumes "12 \<le> length data" and "length ys = 4"
  shows "checksum (write_at data 8 ys) = checksum data"
proof -
  have "drop 12 data = drop 4 (drop 8 data)" by simp
  then have "data = take 8 data @ take 4 (drop 8 data) @ drop 12 data" by (metis append_take_drop_id)
  moreover have "write_at data 8 ys = take 8 data @ ys @ drop 12 data" using assms by (simp add: write_at_def)
  ultimately show ?thesis
    using checksum_skip [of "take 8 data" ys "take 4 (drop 8 data)" "drop 12 data"] assms by simp
qed

lemma slice_write_inside:
  assumes "k + length ys \<le> n" and "a + n \<le> length img"
  shows "slice (write_at img (a + k) ys) a (a + n) = write_at (slice img a (a + n)) k ys"
proof (rule nth_equalityI)
  show "length (slice (write_at img (a + k) ys) a (a + n)) = length (write_at (slice img a (a + n)) k ys)"
    using assms by simp
  fix i assume "i < length (slice (write_at img (a + k) ys) a (a + n))"
  then have "i < n" using assms by simp
  then show "slice (write_at img (a + k) ys) a (a + n) ! i = write_at (slice img a (a + n)) k ys ! i"
    using assms by (auto simp: slice_nth nth_write_at)
qed

lemma take_write_inside: "k + length ys \<le> n \<Longrightarrow> n \<le> length xs \<Longrightarrow> take n (write_at xs k ys) = write_at (take n xs) k ys"
  using slice_write_inside [of k ys n 0 xs] by (simp add: slice_def)

lemma extent_inside:
  assumes "store_geometry g" and "slot < 2" and "layout_within g slot l" and "ol_block_count l \<noteq> 0"
  shows "unat (ol_start_lba l) * block_bytes g + unat (ol_block_count l) * block_bytes g \<le> unat (capacity_bytes g)"
proof -
  have "unat slot * arena_size g \<le> 1 * arena_size g"
    by (rule mult_le_mono1) (use assms(2) in \<open>simp add: word_less_nat_alt\<close>)
  moreover have "unat (ol_start_lba l) + unat (ol_block_count l) \<le> 2 + unat slot * arena_size g + arena_size g"
    using assms(3,4) by (simp add: layout_within_def)
  ultimately have "unat (ol_start_lba l) + unat (ol_block_count l) \<le> unat (block_count g)"
    using store_geometryD(6) [OF assms(1)] by linarith
  then have "(unat (ol_start_lba l) + unat (ol_block_count l)) * block_bytes g \<le> unat (block_count g) * block_bytes g" by (rule mult_le_mono1)
  moreover have "unat (capacity_bytes g) = unat (block_count g) * block_bytes g"
    using assms(1) by (simp add: store_geometry_def geometry_ok_def mult.commute)
  ultimately show ?thesis by (simp only: add_mult_distrib)
qed

text \<open>C31 (error). The payload checksum does not cover the whole payload: \<open>checksum\<close> leaves out bytes 8 to 11, which
  hold the checksum field of a superblock but data in a payload. Whatever four bytes the medium returns there,
  an object of at least twelve bytes is read without \<open>ObjectChecksumMismatch\<close> and with the wrong bytes in it.\<close>

theorem payload_corruption_accepted:
  assumes "fake_ok d" and "fd_geometry d = g" and "store_geometry g" and "slot < 2" and "layout_within g slot l"
    and "fst (read_object_data fake_ops g l d) = Inr data" and "12 \<le> length data" and "length ys = 4"
  shows "fst (read_object_data fake_ops g l (d\<lparr>fd_live := write_at (fd_live d) (unat (ol_start_lba l) * block_bytes g + 8) ys\<rparr>)) =
    Inr (write_at data 8 ys)"
proof -
  let ?a = "unat (ol_start_lba l) * block_bytes g" and ?n = "unat (ol_block_count l) * block_bytes g" and ?k = "unat (ol_data_len l)"
  let ?bad = "write_at (fd_live d) (?a + 8) ys" and ?d = "d\<lparr>fd_live := write_at (fd_live d) (?a + 8) ys\<rparr>"
  have len: "length (fd_live d) = unat (capacity_bytes g)" using assms(1,2) by (simp add: fake_ok_def)
  have geo: "dev_geometry fake_ops d = g" "dev_geometry fake_ops ?d = g" using assms(2) by (simp_all add: fake_ops_def)
  from fake_dev.read_object_image [OF assms(1) _ geo(1) assms(3,4,5)] assms(6)
  have img: "image_object g (fd_live d) l = Inr data" by auto
  with assms(7) have bc: "ol_block_count l \<noteq> 0" by (auto simp: image_object_def)
  note inside = extent_inside [OF assms(3,4,5) bc]
  have kn: "?k \<le> ?n" using assms(5) bc by (simp add: layout_within_def)
  from img bc have data: "data = take ?k (slice (fd_live d) ?a (?a + ?n))" "checksum data = ol_data_checksum l"
    by (auto simp: image_object_def Let_def image_blocks_def split: if_splits)
  then have k: "12 \<le> ?k" using assms(7) by simp
  have "take ?k (slice ?bad ?a (?a + ?n)) = take ?k (write_at (slice (fd_live d) ?a (?a + ?n)) 8 ys)"
    by (subst slice_write_inside) (use k kn assms(8) inside len in simp_all)
  also have "\<dots> = write_at data 8 ys"
    unfolding data(1) by (rule take_write_inside) (use k kn assms(8) inside len in simp_all)
  finally have "image_object g ?bad l = Inr (write_at data 8 ys)"
    using bc data(2) checksum_blind [OF assms(7,8)] by (simp add: image_object_def Let_def image_blocks_def)
  moreover have "fake_ok ?d" using assms(1,2,8) len inside k kn by (simp add: fake_ok_def)
  ultimately show ?thesis using fake_dev.read_object_image [OF _ _ geo(2) assms(3,4,5)] by fastforce
qed

definition zero_layout :: object_layout where
  "zero_layout = \<lparr>ol_id = 1, ol_name = [97], ol_data = [], ol_data_len = 12, ol_start_lba = 2, ol_block_count = 1, ol_data_checksum = 0\<rparr>"

theorem payload_corruption_accepted_witness:
  "fst (read_object_data fake_ops small_geometry zero_layout
     ((fi_inner small_device)\<lparr>fd_live := write_at (replicate 2048 0) 1032 [1, 2, 3, 4]\<rparr>)) =
   Inr (write_at (replicate 12 0) 8 [1, 2, 3, 4])"
proof -
  have live: "fd_live (fi_inner small_device) = replicate 2048 0" by (simp add: small_device_def fault_device_new_def)
  have w: "layout_within small_geometry 0 zero_layout"
    by (simp add: layout_within_def zero_layout_def small_geometry_ok)
  have "image_object small_geometry (replicate 2048 0) zero_layout = Inr (replicate 12 0)"
    by (simp add: image_object_def zero_layout_def Let_def image_blocks_def slice_def small_geometry_ok)
      (simp add: checksum_def numeral_eq_Suc)
  moreover have ok: "fake_ok (fi_inner small_device)" using small_device_ok(1) by (simp add: fault_ok_def)
  ultimately have "fst (read_object_data fake_ops small_geometry zero_layout (fi_inner small_device)) = Inr (replicate 12 0)"
    using fake_dev.read_object_image [of "fi_inner small_device" small_geometry 0 zero_layout] w small_geometry_ok(2) small_device_ok(3)
    by (auto simp: fake_ops_def live)
  from payload_corruption_accepted [OF ok small_device_ok(3) small_geometry_ok(2) _ w this, of "[1, 2, 3, 4]"]
  show ?thesis by (simp add: live small_geometry_ok(5)) (simp add: zero_layout_def)
qed

end
