(* ===== verification/Page_Arith.thy ===== *)
theory Page_Arith
  imports Prelude
begin

text \<open>
  Arithmetic of pages: powers of two, rounding to a multiple of one, and the insertion sort that the kernel
  uses where no allocator is available.
\<close>

section \<open>Powers of two\<close>

text \<open>\<open>u64::is_power_of_two\<close>.\<close>

definition is_power_of_two :: "'a::len word \<Rightarrow> bool" where
  "is_power_of_two w \<longleftrightarrow> (\<exists>k\<in>set [0..<LENGTH('a)]. w = 2 ^ k)"

lemma power_of_two_cases:
  fixes w :: "'a::len word"
  assumes "is_power_of_two w"
  obtains k where "k < LENGTH('a)" and "w = 2 ^ k" and "unat w = 2 ^ k" and "w - 1 = mask k"
proof -
  from assms obtain k where k: "k < LENGTH('a)" "w = 2 ^ k" by (auto simp: is_power_of_two_def)
  have "unat (of_nat (2 ^ k) :: 'a word) = 2 ^ k"
    unfolding unsigned_of_nat by (subst take_bit_nat_eq_self) (use k(1) in simp_all)
  with k(2) have "unat w = 2 ^ k" by simp
  moreover have "w - 1 = mask k" by (simp add: k(2) mask_eq_exp_minus_1)
  ultimately show ?thesis using k that by blast
qed

lemma unat_and_mask: "unat (v AND mask k) = unat v mod 2 ^ k" for v :: "'a::len word"
  unfolding take_bit_eq_mask [symmetric] unsigned_take_bit_eq by (rule take_bit_eq_mod)

lemma and_not_mask: "v AND NOT (mask k) = v - (v AND mask k)" for v :: "'a::len word"
proof -
  have "v AND NOT (mask k) = push_bit k (drop_bit k v)"
    by (rule bit_word_eqI) (auto simp: bit_simps)
  also have "\<dots> = v - take_bit k v" using bits_ident [of k v] by (metis add_diff_cancel_right')
  finally show ?thesis by (simp add: take_bit_eq_mask)
qed

lemma unat_and_not_mask: "unat (v AND NOT (mask k)) = unat v - unat v mod 2 ^ k" for v :: "'a::len word"
  by (simp add: and_not_mask unat_sub word_and_le1 word_le_nat_alt unat_and_mask)

section \<open>Rounding\<close>

definition PAGE_SIZE :: u64 where
  "PAGE_SIZE = 4096"

definition align_down :: "u64 \<Rightarrow> u64 \<Rightarrow> u64" where
  "align_down v align = v AND NOT (align - 1)"

definition align_up :: "u64 \<Rightarrow> u64 \<Rightarrow> u64" where
  "align_up v align = (if v AND (align - 1) = 0 then v else (v + align - 1) AND NOT (align - 1))"

lemma unat_PAGE_SIZE [simp]: "unat PAGE_SIZE = 4096"
  by (simp add: PAGE_SIZE_def)

lemma PAGE_SIZE_power: "is_power_of_two PAGE_SIZE"
  unfolding is_power_of_two_def by (rule bexI [of _ 12]) (simp_all add: PAGE_SIZE_def)

lemma unat_align_down:
  assumes "is_power_of_two align"
  shows "unat (align_down v align) = unat v - unat v mod unat align"
  using assms by (cases rule: power_of_two_cases) (simp add: align_down_def unat_and_not_mask)

lemma and_pred_zero:
  assumes "is_power_of_two align"
  shows "v AND (align - 1) = 0 \<longleftrightarrow> unat v mod unat align = 0"
proof -
  from assms obtain k where "align - 1 = mask k" "unat align = 2 ^ k" by (cases rule: power_of_two_cases) simp
  then have "unat (v AND (align - 1)) = unat v mod unat align" by (simp add: unat_and_mask)
  then show ?thesis by (metis unat_eq_zero)
qed

lemma unat_align_up:
  assumes "is_power_of_two align" and "unat v + unat align - 1 < 2 ^ 64"
  shows "unat (align_up v align) = (if unat v mod unat align = 0 then unat v else unat v - unat v mod unat align + unat align)"
proof -
  from assms(1) obtain k where k: "align - 1 = mask k" "unat align = 2 ^ k" by (cases rule: power_of_two_cases) simp
  have pos: "0 < unat align" by (simp add: k)
  have "unat (v + align - 1) = unat v + unat align - 1" if "unat v mod unat align \<noteq> 0"
  proof -
    have "unat (v + (align - 1)) = unat v + unat (align - 1)"
      by (subst unat_add_lem [THEN iffD1]) (use assms(2) pos in \<open>simp_all add: unat_sub word_le_nat_alt\<close>)
    then show ?thesis using pos by (simp add: unat_sub word_le_nat_alt add_diff_eq)
  qed
  moreover have "unat v + unat align - 1 - (unat v + unat align - 1) mod unat align = unat v - unat v mod unat align + unat align"
    if "unat v mod unat align \<noteq> 0"
  proof -
    let ?m = "unat align" and ?r = "unat v mod unat align"
    have r: "0 < ?r" "?r < ?m" using that pos by simp_all
    have d: "unat v = unat v div ?m * ?m + ?r" by simp
    have x: "unat v + ?m - 1 = (unat v div ?m + 1) * ?m + (?r - 1)" using r d unfolding add_mult_distrib by linarith
    have "((unat v div ?m + 1) * ?m + (?r - 1)) mod ?m = ?r - 1" using r by (subst mod_mult_self3) simp
    then show ?thesis unfolding x using d unfolding add_mult_distrib by linarith
  qed
  ultimately show ?thesis
    unfolding align_up_def and_pred_zero [OF assms(1)] using k by (auto simp: unat_and_not_mask)
qed

definition page_aligned :: "u64 \<Rightarrow> bool" where
  "page_aligned v \<longleftrightarrow> unat v mod 4096 = 0"

lemma align_id:
  assumes "page_aligned v"
  shows "align_down v PAGE_SIZE = v" and "align_up v PAGE_SIZE = v"
proof -
  have "unat (align_down v PAGE_SIZE) = unat v" using assms by (simp add: unat_align_down [OF PAGE_SIZE_power] page_aligned_def)
  then show "align_down v PAGE_SIZE = v" by (simp only: word_unat_eq_iff)
  show "align_up v PAGE_SIZE = v"
    using assms by (simp add: align_up_def and_pred_zero [OF PAGE_SIZE_power] page_aligned_def)
qed

lemma align_down_page: "unat (align_down v PAGE_SIZE) = 4096 * (unat v div 4096)" "page_aligned (align_down v PAGE_SIZE)"
  by (simp_all add: unat_align_down [OF PAGE_SIZE_power] page_aligned_def minus_mod_eq_mult_div)

section \<open>Insertion sort\<close>

text \<open>The element moves left from the end of the sorted prefix while the neighbour's key is larger; the
  prefix is kept last element first.\<close>

fun sink :: "('a \<Rightarrow> 'k::linorder) \<Rightarrow> 'a \<Rightarrow> 'a list \<Rightarrow> 'a list" where
  "sink key c [] = [c]"
| "sink key c (p # ps) = (if key p > key c then p # sink key c ps else c # p # ps)"

definition insertion_sort :: "('a \<Rightarrow> 'k::linorder) \<Rightarrow> 'a list \<Rightarrow> 'a list" where
  "insertion_sort key xs = rev (fold (sink key) xs [])"

lemma set_sink [simp]: "set (sink key c ps) = insert c (set ps)"
  by (induction ps) auto

lemma length_sink [simp]: "length (sink key c ps) = Suc (length ps)"
  by (induction ps) auto

lemma sorted_sink:
  "sorted_wrt (\<lambda>a b. key b \<le> key a) ps \<Longrightarrow> sorted_wrt (\<lambda>a b. key b \<le> key a) (sink key c ps)"
  by (induction ps) auto

lemma insertion_sort:
  "set (insertion_sort key xs) = set xs" "length (insertion_sort key xs) = length xs"
  "sorted (map key (insertion_sort key xs))"
proof -
  have "set (fold (sink key) xs ps) = set xs \<union> set ps \<and> length (fold (sink key) xs ps) = length xs + length ps \<and>
      (sorted_wrt (\<lambda>a b. key b \<le> key a) ps \<longrightarrow> sorted_wrt (\<lambda>a b. key b \<le> key a) (fold (sink key) xs ps))" for ps
    by (induction xs arbitrary: ps) (auto simp: sorted_sink)
  from this [of "[]"] show "set (insertion_sort key xs) = set xs" "length (insertion_sort key xs) = length xs"
      "sorted (map key (insertion_sort key xs))"
    by (simp_all add: insertion_sort_def sorted_wrt_rev sorted_map)
qed

end
