(* ===== verification/Mem_Map.thy ===== *)
theory Mem_Map
  imports Page_Arith "HOL-Library.Multiset"
begin

text \<open>
  The physical memory map: \<open>kernel/src/mm/region.rs\<close> and the normalisation of the firmware's descriptors in
  \<open>kernel/src/boot/uefi.rs\<close>. A fixed array of optional entries is the list of its present entries; the capacity
  checks are kept. The memory type of a descriptor is the number that the firmware interface assigns, and the
  one of conventional memory is a parameter, as it is defined by the firmware bindings.
\<close>

section \<open>Regions\<close>

datatype memory_region_kind = Usable | Reserved

record memory_region =
  mr_start :: u64
  mr_end :: u64
  mr_kind :: memory_region_kind

definition region_len :: "memory_region \<Rightarrow> u64" where
  "region_len r = saturating_sub (mr_end r) (mr_start r)"

record reserved_range =
  rr_start :: u64
  rr_end :: u64

definition rr_is_empty :: "reserved_range \<Rightarrow> bool" where
  "rr_is_empty r \<longleftrightarrow> rr_end r \<le> rr_start r"

definition from_base_and_size :: "u64 \<Rightarrow> u64 \<Rightarrow> reserved_range" where
  "from_base_and_size base len = \<lparr>rr_start = align_down base PAGE_SIZE, rr_end = align_up (saturating_add base len) PAGE_SIZE\<rparr>"

definition RESERVED_PHYSICAL_ZERO_PAGE :: reserved_range where
  "RESERVED_PHYSICAL_ZERO_PAGE = \<lparr>rr_start = 0, rr_end = PAGE_SIZE\<rparr>"

definition MAX_MEMORY_REGIONS :: nat where
  "MAX_MEMORY_REGIONS = 256"

definition MAX_RESERVED_RANGES :: nat where
  "MAX_RESERVED_RANGES = MAX_MEMORY_REGIONS + 1"

record normalized_memory_map =
  nm_regions :: "memory_region list"
  usable_bytes :: u64
  reserved_bytes :: u64

definition map_clear :: "normalized_memory_map \<Rightarrow> normalized_memory_map" where
  "map_clear m = \<lparr>nm_regions = [], usable_bytes = 0, reserved_bytes = 0\<rparr>"

fun bump_totals :: "memory_region_kind \<Rightarrow> u64 \<Rightarrow> normalized_memory_map \<Rightarrow> normalized_memory_map" where
  "bump_totals Usable n m = m\<lparr>usable_bytes := usable_bytes m + n\<rparr>"
| "bump_totals Reserved n m = m\<lparr>reserved_bytes := reserved_bytes m + n\<rparr>"

definition push_region :: "memory_region \<Rightarrow> normalized_memory_map \<Rightarrow> string + normalized_memory_map" where
  "push_region region m =
    (if region_len region = 0 then Inr m
     else if nm_regions m \<noteq> [] \<and> mr_kind (last (nm_regions m)) = mr_kind region \<and> mr_end (last (nm_regions m)) = mr_start region
     then Inr (bump_totals (mr_kind region) (region_len region)
       (m\<lparr>nm_regions := butlast (nm_regions m) @ [(last (nm_regions m))\<lparr>mr_end := mr_end region\<rparr>]\<rparr>))
     else if length (nm_regions m) = MAX_MEMORY_REGIONS then Inl ''normalized memory map exceeded fixed region capacity''
     else Inr (bump_totals (mr_kind region) (region_len region) (m\<lparr>nm_regions := nm_regions m @ [region]\<rparr>)))"

section \<open>Firmware descriptors\<close>

record memory_descriptor =
  md_ty :: u32
  md_phys_start :: u64
  md_page_count :: u64

record raw_descriptor =
  rd_start :: u64
  rd_end :: u64
  rd_ty :: u32

fun collect_descriptors :: "nat \<Rightarrow> memory_descriptor list \<Rightarrow> string + raw_descriptor list" where
  "collect_descriptors seen [] = Inr []"
| "collect_descriptors seen (d # ds) =
    (if seen = MAX_MEMORY_REGIONS then Inl ''UEFI memory map exceeded fixed descriptor capacity''
     else rbind (collect_descriptors (Suc seen) ds) (\<lambda>rest.
       Inr (\<lparr>rd_start = md_phys_start d, rd_end = saturating_add (md_phys_start d) (saturating_mul (md_page_count d) PAGE_SIZE),
             rd_ty = md_ty d\<rparr> # rest)))"

definition sort_descriptors :: "raw_descriptor list \<Rightarrow> raw_descriptor list" where
  "sort_descriptors ds = insertion_sort rd_start ds"

fun collect_ranges :: "reserved_range list \<Rightarrow> reserved_range list \<Rightarrow> string + reserved_range list" where
  "collect_ranges collected [] = Inr collected"
| "collect_ranges collected (r # rs) =
    (let range = \<lparr>rr_start = align_down (rr_start r) PAGE_SIZE, rr_end = align_up (rr_end r) PAGE_SIZE\<rparr> in
     if rr_is_empty range then collect_ranges collected rs
     else if \<exists>existing\<in>set collected. rr_start existing = rr_start range \<and> rr_end existing = rr_end range then collect_ranges collected rs
     else if length collected = MAX_RESERVED_RANGES then Inl ''reserved range capacity exceeded''
     else collect_ranges (collected @ [range]) rs)"

definition collect_reserved_ranges :: "reserved_range list \<Rightarrow> string + reserved_range list" where
  "collect_reserved_ranges rs = collect_ranges [RESERVED_PHYSICAL_ZERO_PAGE] rs"

definition sort_reserved_ranges :: "reserved_range list \<Rightarrow> reserved_range list" where
  "sort_reserved_ranges rs = insertion_sort rr_start rs"

definition is_usable_memory_type :: "u32 \<Rightarrow> u32 \<Rightarrow> bool" where
  "is_usable_memory_type conventional ty \<longleftrightarrow> ty = conventional"

text \<open>The pass of one usable descriptor over the reserved ranges; it returns the last cursor.\<close>

fun carve :: "reserved_range list \<Rightarrow> u64 \<Rightarrow> u64 \<Rightarrow> normalized_memory_map \<Rightarrow> string + u64 \<times> normalized_memory_map" where
  "carve [] cursor end m = Inr (cursor, m)"
| "carve (r # rs) cursor end m =
    (if rr_end r \<le> cursor \<or> end \<le> rr_start r then carve rs cursor end m
     else rbind (if cursor < rr_start r then push_region \<lparr>mr_start = cursor, mr_end = rr_start r, mr_kind = Usable\<rparr> m else Inr m) (\<lambda>m.
       rbind (push_region \<lparr>mr_start = max (rr_start r) cursor, mr_end = min (rr_end r) end, mr_kind = Reserved\<rparr> m) (\<lambda>m.
         carve rs (min (rr_end r) end) end m)))"

definition normalize_one :: "u32 \<Rightarrow> reserved_range list \<Rightarrow> raw_descriptor \<Rightarrow> normalized_memory_map \<Rightarrow> string + normalized_memory_map" where
  "normalize_one conventional reserved d m =
    (let start = align_up (rd_start d) PAGE_SIZE; end = align_down (rd_end d) PAGE_SIZE in
     if end \<le> start then Inr m
     else if is_usable_memory_type conventional (rd_ty d) then
       rbind (carve reserved start end m) (\<lambda>(cursor, m).
         if cursor < end then push_region \<lparr>mr_start = cursor, mr_end = end, mr_kind = Usable\<rparr> m else Inr m)
     else push_region \<lparr>mr_start = start, mr_end = end, mr_kind = Reserved\<rparr> m)"

fun normalize_all :: "u32 \<Rightarrow> reserved_range list \<Rightarrow> raw_descriptor list \<Rightarrow> normalized_memory_map \<Rightarrow> string + normalized_memory_map" where
  "normalize_all conventional reserved [] m = Inr m"
| "normalize_all conventional reserved (d # ds) m =
    rbind (normalize_one conventional reserved d m) (normalize_all conventional reserved ds)"

definition normalize_memory_map ::
  "u32 \<Rightarrow> memory_descriptor list \<Rightarrow> reserved_range list \<Rightarrow> normalized_memory_map \<Rightarrow> string + normalized_memory_map" where
  "normalize_memory_map conventional descriptors reserved_ranges m =
    rbind (collect_descriptors 0 descriptors) (\<lambda>ds.
    rbind (collect_reserved_ranges reserved_ranges) (\<lambda>rs.
      normalize_all conventional (sort_reserved_ranges rs) (sort_descriptors ds) (map_clear m)))"

section \<open>Addresses of a map\<close>

definition span :: "u64 \<Rightarrow> u64 \<Rightarrow> nat set" where
  "span a b = {unat a..<unat b}"

definition cover :: "memory_region_kind \<Rightarrow> normalized_memory_map \<Rightarrow> nat set" where
  "cover k m = (\<Union>r\<in>{r \<in> set (nm_regions m). mr_kind r = k}. span (mr_start r) (mr_end r))"

definition regions_nonempty :: "normalized_memory_map \<Rightarrow> bool" where
  "regions_nonempty m \<longleftrightarrow> (\<forall>r\<in>set (nm_regions m). mr_start r < mr_end r)"

lemma bump_regions [simp]: "nm_regions (bump_totals k n m) = nm_regions m"
  by (cases k) simp_all

lemma region_len_zero: "region_len r = 0 \<longleftrightarrow> mr_end r \<le> mr_start r"
  using unat_saturating_sub [of "mr_end r" "mr_start r"]
  by (metis diff_is_0_eq region_len_def unat_eq_zero word_le_nat_alt)

lemma push_region_cases:
  assumes "push_region r m = Inr m'"
  obtains (none) "mr_end r \<le> mr_start r" and "m' = m"
  | (merged) init p where "mr_start r < mr_end r" and "nm_regions m = init @ [p]" and "mr_kind p = mr_kind r" and "mr_end p = mr_start r"
      and "nm_regions m' = init @ [p\<lparr>mr_end := mr_end r\<rparr>]"
  | (added) "mr_start r < mr_end r" and "nm_regions m' = nm_regions m @ [r]"
  using assms unfolding push_region_def region_len_zero
  by (cases "nm_regions m" rule: rev_cases) (auto split: if_splits simp: not_le)

lemma push_region_law:
  assumes "regions_nonempty m" and "push_region r m = Inr m'"
  shows "regions_nonempty m'" and "cover k m' = cover k m \<union> (if mr_kind r = k then span (mr_start r) (mr_end r) else {})"
proof -
  from assms(2) show "regions_nonempty m'" "cover k m' = cover k m \<union> (if mr_kind r = k then span (mr_start r) (mr_end r) else {})"
  proof (atomize (full), cases rule: push_region_cases)
    case none
    then have "span (mr_start r) (mr_end r) = {}" by (simp add: span_def word_le_nat_alt)
    with none assms(1) show "regions_nonempty m' \<and> cover k m' = cover k m \<union> (if mr_kind r = k then span (mr_start r) (mr_end r) else {})" by simp
  next
    case (merged init p)
    from assms(1) merged(2) have p: "mr_start p < mr_end p" by (simp add: regions_nonempty_def)
    with merged have "span (mr_start p) (mr_end r) = span (mr_start p) (mr_end p) \<union> span (mr_start r) (mr_end r)"
      by (auto simp: span_def word_less_nat_alt)
    moreover have "{x \<in> set (nm_regions m'). mr_kind x = k} =
        {x \<in> set init. mr_kind x = k} \<union> (if mr_kind r = k then {p\<lparr>mr_end := mr_end r\<rparr>} else {})" using merged by auto
    moreover have "{x \<in> set (nm_regions m). mr_kind x = k} = {x \<in> set init. mr_kind x = k} \<union> (if mr_kind r = k then {p} else {})"
      using merged by auto
    ultimately have "cover k m' = cover k m \<union> (if mr_kind r = k then span (mr_start r) (mr_end r) else {})"
      unfolding cover_def by (auto simp: Un_ac)
    moreover have "regions_nonempty m'" using assms(1) merged p by (auto simp: regions_nonempty_def)
    ultimately show "regions_nonempty m' \<and> cover k m' = cover k m \<union> (if mr_kind r = k then span (mr_start r) (mr_end r) else {})" by simp
  next
    case added
    then have "{x \<in> set (nm_regions m'). mr_kind x = k} = {x \<in> set (nm_regions m). mr_kind x = k} \<union> (if mr_kind r = k then {r} else {})" by auto
    with added assms(1) show "regions_nonempty m' \<and> cover k m' = cover k m \<union> (if mr_kind r = k then span (mr_start r) (mr_end r) else {})"
      unfolding cover_def regions_nonempty_def by (auto simp: Un_ac)
  qed
qed


section \<open>What normalisation keeps\<close>

abbreviation reserved_span :: "reserved_range \<Rightarrow> nat set" where
  "reserved_span r \<equiv> span (rr_start r) (rr_end r)"

lemma carve_law:
  assumes "\<forall>r\<in>set rs. rr_start r < rr_end r"
  shows "carve rs cursor end m = Inr (cursor', m') \<Longrightarrow> sorted (map rr_start rs) \<Longrightarrow> cursor \<le> end \<Longrightarrow> regions_nonempty m \<Longrightarrow>
    regions_nonempty m' \<and> cursor \<le> cursor' \<and> cursor' \<le> end \<and> span cursor' end \<inter> (\<Union>r\<in>set rs. reserved_span r) = {} \<and>
    cover Usable m' = cover Usable m \<union> (span cursor cursor' - (\<Union>r\<in>set rs. reserved_span r))"
  using assms
proof (induction rs arbitrary: cursor m)
  case Nil
  then show ?case by (simp add: span_def)
next
  case (Cons r rs)
  show ?case
  proof (cases "rr_end r \<le> cursor \<or> end \<le> rr_start r")
    case True
    with Cons have ih: "regions_nonempty m' \<and> cursor \<le> cursor' \<and> cursor' \<le> end \<and>
        span cursor' end \<inter> (\<Union>r\<in>set rs. reserved_span r) = {} \<and>
        cover Usable m' = cover Usable m \<union> (span cursor cursor' - (\<Union>r\<in>set rs. reserved_span r))" by simp
    moreover have "span cursor' end \<inter> reserved_span r = {}" "span cursor cursor' \<inter> reserved_span r = {}"
      using True ih by (auto simp: span_def word_le_nat_alt)
    ultimately show ?thesis by auto
  next
    case False
    let ?c = "min (rr_end r) end"
    from Cons.prems(1) False obtain m1 m2 where
      p1: "(if cursor < rr_start r then push_region \<lparr>mr_start = cursor, mr_end = rr_start r, mr_kind = Usable\<rparr> m else Inr m) = Inr m1"
      and p2: "push_region \<lparr>mr_start = max (rr_start r) cursor, mr_end = ?c, mr_kind = Reserved\<rparr> m1 = Inr m2"
      and rest: "carve rs ?c end m2 = Inr (cursor', m')" by (auto simp: rbind_Inr)
    have m1: "regions_nonempty m1 \<and> cover Usable m1 = cover Usable m \<union> span cursor (rr_start r)"
    proof (cases "cursor < rr_start r")
      case True
      with p1 push_region_law [OF Cons.prems(4)] show ?thesis by auto
    next
      case False
      then have "span cursor (rr_start r) = {}" by (simp add: span_def word_le_nat_alt not_less)
      with False p1 Cons.prems(4) show ?thesis by simp
    qed
    then have m2: "regions_nonempty m2" "cover Usable m2 = cover Usable m1" using push_region_law(1) [OF _ p2] push_region_law(2) [OF _ p2, of Usable] by simp_all
    have ih: "regions_nonempty m' \<and> ?c \<le> cursor' \<and> cursor' \<le> end \<and> span cursor' end \<inter> (\<Union>r\<in>set rs. reserved_span r) = {} \<and>
        cover Usable m' = cover Usable m2 \<union> (span ?c cursor' - (\<Union>r\<in>set rs. reserved_span r))"
      by (rule Cons.IH) (use rest m2 Cons.prems in simp_all)
    have c: "cursor \<le> ?c" "rr_start r < rr_end r" using False Cons.prems(3,5) by auto
    have later: "rr_start r \<le> rr_start x" if "x \<in> set rs" for x using Cons.prems(2) that by simp
    have gap: "span cursor (rr_start r) \<inter> (\<Union>x\<in>set (r # rs). reserved_span x) = {}"
      using later by (fastforce simp: span_def word_le_nat_alt)
    have tail: "span cursor' end \<inter> reserved_span r = {}" "span ?c cursor' \<inter> reserved_span r = {}"
      using ih by (auto simp: span_def word_le_nat_alt min_def split: if_splits)
    have split: "span cursor cursor' \<subseteq> span cursor (rr_start r) \<union> reserved_span r \<union> span ?c cursor'"
      "span cursor (rr_start r) \<union> span ?c cursor' \<subseteq> span cursor cursor'"
      using ih c False by (auto simp: span_def word_le_nat_alt word_less_nat_alt min_def split: if_splits)
    from split gap tail have "span cursor cursor' - (\<Union>x\<in>set (r # rs). reserved_span x) =
        span cursor (rr_start r) \<union> (span ?c cursor' - (\<Union>x\<in>set rs. reserved_span x))" by auto
    moreover have "cursor \<le> cursor'" using ih c(1) by (meson order_trans)
    ultimately show ?thesis using ih m1 m2 tail by (auto simp: Un_assoc)
  qed
qed

definition descriptor_span :: "raw_descriptor \<Rightarrow> nat set" where
  "descriptor_span d = span (align_up (rd_start d) PAGE_SIZE) (align_down (rd_end d) PAGE_SIZE)"

lemma normalize_one_law:
  assumes "normalize_one conv rs d m = Inr m'" and "\<forall>r\<in>set rs. rr_start r < rr_end r" and "sorted (map rr_start rs)" and "regions_nonempty m"
  shows "regions_nonempty m' \<and> cover Usable m' = cover Usable m \<union>
    (if rd_ty d = conv then descriptor_span d - (\<Union>r\<in>set rs. reserved_span r) else {})"
proof -
  let ?s = "align_up (rd_start d) PAGE_SIZE" and ?e = "align_down (rd_end d) PAGE_SIZE"
  consider "?e \<le> ?s" | "?s < ?e" "rd_ty d \<noteq> conv" | "?s < ?e" "rd_ty d = conv" by fastforce
  then show ?thesis
  proof cases
    case 1
    then have "descriptor_span d = {}" by (simp add: descriptor_span_def span_def word_le_nat_alt)
    with 1 assms(1,4) show ?thesis by (auto simp: normalize_one_def Let_def)
  next
    case 2
    with assms(1) have "push_region \<lparr>mr_start = ?s, mr_end = ?e, mr_kind = Reserved\<rparr> m = Inr m'"
      by (auto simp: normalize_one_def is_usable_memory_type_def Let_def split: if_splits)
    from push_region_law [OF assms(4) this] 2 show ?thesis by simp
  next
    case 3
    with assms(1) obtain c m1 where car: "carve rs ?s ?e m = Inr (c, m1)"
      and last: "(if c < ?e then push_region \<lparr>mr_start = c, mr_end = ?e, mr_kind = Usable\<rparr> m1 else Inr m1) = Inr m'"
      by (auto simp: normalize_one_def is_usable_memory_type_def Let_def rbind_Inr split: if_splits)
    note law = carve_law [OF assms(2) car assms(3) less_imp_le [OF 3(1)] assms(4)]
    have "regions_nonempty m' \<and> cover Usable m' = cover Usable m1 \<union> span c ?e"
    proof (cases "c < ?e")
      case True
      with last law push_region_law(1) [of m1 _ m'] push_region_law(2) [of m1 _ m' Usable] 3 show ?thesis by auto
    next
      case False
      then have "span c ?e = {}" by (simp add: span_def word_le_nat_alt not_less)
      with False last law 3 show ?thesis by simp
    qed
    moreover have "span ?s c \<union> span c ?e = descriptor_span d"
      using law 3 by (auto simp: descriptor_span_def span_def word_le_nat_alt)
    ultimately show ?thesis using law 3 by auto
  qed
qed

lemma normalize_all_law:
  assumes "\<forall>r\<in>set rs. rr_start r < rr_end r" and "sorted (map rr_start rs)"
  shows "normalize_all conv rs ds m = Inr m' \<Longrightarrow> regions_nonempty m \<Longrightarrow> regions_nonempty m' \<and>
    cover Usable m' = cover Usable m \<union> ((\<Union>d\<in>{d \<in> set ds. rd_ty d = conv}. descriptor_span d) - (\<Union>r\<in>set rs. reserved_span r))"
proof (induction ds arbitrary: m)
  case (Cons d ds)
  from Cons.prems(1) obtain m1 where one: "normalize_one conv rs d m = Inr m1" and rest: "normalize_all conv rs ds m1 = Inr m'"
    by (auto simp: rbind_Inr)
  note n = normalize_one_law [OF one assms Cons.prems(2)]
  have "{x \<in> set (d # ds). rd_ty x = conv} = {x \<in> set ds. rd_ty x = conv} \<union> (if rd_ty d = conv then {d} else {})" by auto
  with n Cons.IH [OF rest] show ?case by auto
qed simp

lemma collect_ranges_law:
  "collect_ranges collected rs = Inr out \<Longrightarrow> \<forall>r\<in>set collected. rr_start r < rr_end r \<Longrightarrow>
    (\<forall>r\<in>set out. rr_start r < rr_end r) \<and>
    (\<Union>r\<in>set out. reserved_span r) = (\<Union>r\<in>set collected. reserved_span r) \<union>
      (\<Union>r\<in>set rs. span (align_down (rr_start r) PAGE_SIZE) (align_up (rr_end r) PAGE_SIZE))"
proof (induction collected rs rule: collect_ranges.induct)
  case (2 collected r rs)
  let ?range = "\<lparr>rr_start = align_down (rr_start r) PAGE_SIZE, rr_end = align_up (rr_end r) PAGE_SIZE\<rparr>"
  consider (empty) "rr_is_empty ?range"
    | (old) "\<not> rr_is_empty ?range" "\<exists>x\<in>set collected. rr_start x = rr_start ?range \<and> rr_end x = rr_end ?range"
    | (new) "\<not> rr_is_empty ?range" "\<not> (\<exists>x\<in>set collected. rr_start x = rr_start ?range \<and> rr_end x = rr_end ?range)" by blast
  then show ?case
  proof cases
    case empty
    then have "reserved_span ?range = {}" by (simp add: rr_is_empty_def span_def word_le_nat_alt)
    moreover have "collect_ranges collected rs = Inr out" using empty "2.prems"(1) by (simp add: Let_def)
    ultimately show ?thesis using "2.IH"(1) [OF refl empty _ "2.prems"(2)] by simp
  next
    case old
    then have "reserved_span ?range \<subseteq> (\<Union>r\<in>set collected. reserved_span r)" by fastforce
    moreover have "collect_ranges collected rs = Inr out" using old "2.prems"(1) by (simp add: Let_def)
    ultimately show ?thesis using "2.IH"(2) [OF refl old _ "2.prems"(2)] by auto
  next
    case new
    with "2.prems"(1) have n: "length collected \<noteq> MAX_RESERVED_RANGES" "collect_ranges (collected @ [?range]) rs = Inr out"
      by (auto simp: Let_def split: if_splits)
    have "\<forall>x\<in>set (collected @ [?range]). rr_start x < rr_end x" using new(1) "2.prems"(2) by (auto simp: rr_is_empty_def)
    from "2.IH"(3) [OF refl new n this] show ?thesis by auto
  qed
qed simp

lemma collect_descriptors_law:
  "collect_descriptors n ds = Inr out \<Longrightarrow> out = map (\<lambda>d. \<lparr>rd_start = md_phys_start d,
     rd_end = saturating_add (md_phys_start d) (saturating_mul (md_page_count d) PAGE_SIZE), rd_ty = md_ty d\<rparr>) ds"
  by (induction n ds arbitrary: out rule: collect_descriptors.induct) (auto simp: rbind_Inr split: if_splits)


section \<open>Order and alignment of the regions\<close>

definition ordered :: "normalized_memory_map \<Rightarrow> u64 \<Rightarrow> bool" where
  "ordered m lim \<longleftrightarrow> sorted_wrt (\<lambda>a b. mr_end a \<le> mr_start b) (nm_regions m) \<and>
     (\<forall>r\<in>set (nm_regions m). mr_start r < mr_end r \<and> mr_end r \<le> lim \<and> page_aligned (mr_start r) \<and> page_aligned (mr_end r))"

lemma ordered_mono: "ordered m lim \<Longrightarrow> lim \<le> lim' \<Longrightarrow> ordered m lim'"
  by (auto simp: ordered_def)

lemma push_region_ordered:
  assumes "ordered m lim" and "lim \<le> mr_start r" and "mr_start r \<le> mr_end r" and "page_aligned (mr_start r)" and "page_aligned (mr_end r)"
    and "push_region r m = Inr m'"
  shows "ordered m' (mr_end r)"
proof -
  have below: "x \<le> mr_end r" if "x \<le> lim" for x using that assms(2,3) by (meson order_trans)
  from assms(6) show ?thesis
  proof (cases rule: push_region_cases)
    case none
    with assms(1) below show ?thesis by (auto simp: ordered_def)
  next
    case (merged init p)
    have "mr_start p < mr_end p" using assms(1) merged(2) by (simp add: ordered_def)
    with merged have "mr_start p < mr_end r" by (metis less_trans)
    with assms(1,5) merged below show ?thesis by (auto simp: ordered_def sorted_wrt_append)
  next
    case added
    have "mr_end x \<le> mr_start r" if "x \<in> set (nm_regions m)" for x
      using assms(1,2) that by (auto simp: ordered_def intro: order_trans)
    with assms(1,4,5) added below show ?thesis by (auto simp: ordered_def sorted_wrt_append)
  qed
qed

lemma carve_ordered:
  assumes "\<forall>r\<in>set rs. rr_start r < rr_end r \<and> page_aligned (rr_start r) \<and> page_aligned (rr_end r)" and "page_aligned end"
  shows "carve rs cursor end m = Inr (cursor', m') \<Longrightarrow> cursor \<le> end \<Longrightarrow> page_aligned cursor \<Longrightarrow> ordered m cursor \<Longrightarrow>
    ordered m' cursor' \<and> cursor' \<le> end \<and> page_aligned cursor'"
  using assms
proof (induction rs arbitrary: cursor m)
  case (Cons r rs)
  show ?case
  proof (cases "rr_end r \<le> cursor \<or> end \<le> rr_start r")
    case False
    let ?c = "min (rr_end r) end"
    from Cons.prems(1) False obtain m1 m2 where
      p1: "(if cursor < rr_start r then push_region \<lparr>mr_start = cursor, mr_end = rr_start r, mr_kind = Usable\<rparr> m else Inr m) = Inr m1"
      and p2: "push_region \<lparr>mr_start = max (rr_start r) cursor, mr_end = ?c, mr_kind = Reserved\<rparr> m1 = Inr m2"
      and rest: "carve rs ?c end m2 = Inr (cursor', m')" by (auto simp: rbind_Inr)
    have "ordered m1 (max (rr_start r) cursor)"
    proof (cases "cursor < rr_start r")
      case True
      with p1 have "push_region \<lparr>mr_start = cursor, mr_end = rr_start r, mr_kind = Usable\<rparr> m = Inr m1" by simp
      from push_region_ordered [OF Cons.prems(4) _ _ _ _ this] True Cons.prems(3,5) show ?thesis by simp
    next
      case False
      with p1 Cons.prems(4) show ?thesis by (simp add: max_absorb2 not_less)
    qed
    moreover have "max (rr_start r) cursor \<le> ?c" using False Cons.prems(2,5) by (simp add: less_imp_le not_le)
    moreover have "page_aligned (max (rr_start r) cursor)" "page_aligned ?c" using Cons.prems(3,5,6) by (simp_all add: max_def min_def)
    ultimately have m2: "ordered m2 ?c" using push_region_ordered [OF _ _ _ _ _ p2] by simp
    show ?thesis by (rule Cons.IH [OF rest _ _ m2]) (use Cons.prems in \<open>auto simp: min_def\<close>)
  qed (use Cons in simp)
qed simp

text \<open>What the firmware interface promises of the descriptors: page-aligned and not overlapping.\<close>

definition raw_of :: "memory_descriptor \<Rightarrow> raw_descriptor" where
  "raw_of d = \<lparr>rd_start = md_phys_start d, rd_end = saturating_add (md_phys_start d) (saturating_mul (md_page_count d) PAGE_SIZE),
     rd_ty = md_ty d\<rparr>"

definition raw_disjoint :: "raw_descriptor \<Rightarrow> raw_descriptor \<Rightarrow> bool" where
  "raw_disjoint a b \<longleftrightarrow> span (rd_start a) (rd_end a) \<inter> span (rd_start b) (rd_end b) = {}"

definition firmware_map :: "memory_descriptor list \<Rightarrow> bool" where
  "firmware_map ds \<longleftrightarrow> (\<forall>d\<in>set ds. page_aligned (md_phys_start d)) \<and> sorted_wrt raw_disjoint (map raw_of ds)"

lemma normalize_one_ordered:
  assumes "normalize_one conv rs d m = Inr m'" and "ordered m lim" and "page_aligned (rd_start d)"
    and "\<forall>r\<in>set rs. rr_start r < rr_end r \<and> page_aligned (rr_start r) \<and> page_aligned (rr_end r)"
    and "rd_start d < align_down (rd_end d) PAGE_SIZE \<Longrightarrow> lim \<le> rd_start d"
  shows "if rd_start d < align_down (rd_end d) PAGE_SIZE then ordered m' (align_down (rd_end d) PAGE_SIZE) else m' = m"
proof -
  let ?s = "rd_start d" and ?e = "align_down (rd_end d) PAGE_SIZE"
  have al: "page_aligned ?e" by (rule align_down_page)
  note s = align_id(2) [OF assms(3)]
  show ?thesis
  proof (cases "?s < ?e")
    case True
    then have m: "ordered m ?s" using assms(2,5) ordered_mono by blast
    show ?thesis
    proof (cases "rd_ty d = conv")
      case False
      with True assms(1) s have "push_region \<lparr>mr_start = ?s, mr_end = ?e, mr_kind = Reserved\<rparr> m = Inr m'"
        by (auto simp: normalize_one_def is_usable_memory_type_def Let_def split: if_splits)
      from push_region_ordered [OF m _ _ _ _ this] True assms(3) al show ?thesis by simp
    next
      case usable: True
      with True assms(1) s obtain c m1 where car: "carve rs ?s ?e m = Inr (c, m1)"
        and last: "(if c < ?e then push_region \<lparr>mr_start = c, mr_end = ?e, mr_kind = Usable\<rparr> m1 else Inr m1) = Inr m'"
        by (auto simp: normalize_one_def is_usable_memory_type_def Let_def rbind_Inr split: if_splits)
      from carve_ordered [OF assms(4) al car _ assms(3) m] True have c: "ordered m1 c" "c \<le> ?e" "page_aligned c" by simp_all
      then have "ordered m' ?e"
        using last push_region_ordered [OF c(1), of "\<lparr>mr_start = c, mr_end = ?e, mr_kind = Usable\<rparr>" m'] al
        by (auto split: if_splits intro: ordered_mono)
      with True show ?thesis by simp
    qed
  qed (use assms(1) s in \<open>auto simp: normalize_one_def Let_def split: if_splits\<close>)
qed

lemma disjoint_after:
  assumes "raw_disjoint a b" and "rd_start a \<le> rd_start b" and "rd_start a < align_down (rd_end a) PAGE_SIZE"
    and "rd_start b < align_down (rd_end b) PAGE_SIZE"
  shows "align_down (rd_end a) PAGE_SIZE \<le> rd_start b"
proof (rule ccontr)
  have le: "unat (align_down v PAGE_SIZE) \<le> unat v" for v by (simp add: align_down_page)
  assume "\<not> align_down (rd_end a) PAGE_SIZE \<le> rd_start b"
  then have "unat (rd_start b) \<in> span (rd_start a) (rd_end a) \<inter> span (rd_start b) (rd_end b)"
    using assms(2,4) le [of "rd_end a"] le [of "rd_end b"] by (simp add: span_def word_le_nat_alt word_less_nat_alt)
  with assms(1) show False by (auto simp: raw_disjoint_def)
qed

lemma normalize_all_ordered:
  assumes "\<forall>r\<in>set rs. rr_start r < rr_end r \<and> page_aligned (rr_start r) \<and> page_aligned (rr_end r)"
  shows "normalize_all conv rs ds m = Inr m' \<Longrightarrow> ordered m lim \<Longrightarrow> \<forall>d\<in>set ds. page_aligned (rd_start d) \<Longrightarrow>
    sorted (map rd_start ds) \<Longrightarrow> sorted_wrt raw_disjoint ds \<Longrightarrow>
    \<forall>d\<in>set ds. rd_start d < align_down (rd_end d) PAGE_SIZE \<longrightarrow> lim \<le> rd_start d \<Longrightarrow> \<exists>lim'. ordered m' lim'"
proof (induction ds arbitrary: m lim)
  case (Cons d ds)
  from Cons.prems(1) obtain m1 where one: "normalize_one conv rs d m = Inr m1" and rest: "normalize_all conv rs ds m1 = Inr m'"
    by (auto simp: rbind_Inr)
  let ?e = "align_down (rd_end d) PAGE_SIZE"
  have o1: "if rd_start d < ?e then ordered m1 ?e else m1 = m"
    by (rule normalize_one_ordered [OF one Cons.prems(2) _ assms]) (use Cons.prems in simp_all)
  show ?case
  proof (cases "rd_start d < ?e")
    case True
    have "?e \<le> rd_start x" if "x \<in> set ds" "rd_start x < align_down (rd_end x) PAGE_SIZE" for x
      by (rule disjoint_after) (use True that Cons.prems(4,5) in simp_all)
    with True o1 Cons.IH [OF rest, of ?e] Cons.prems show ?thesis by simp
  next
    case False
    with o1 Cons.IH [OF rest, of lim] Cons.prems show ?thesis by simp
  qed
qed auto


lemma align_up_page: "page_aligned (align_up v PAGE_SIZE)"
proof (cases "v AND (PAGE_SIZE - 1) = 0")
  case True
  then show ?thesis by (simp add: align_up_def and_pred_zero [OF PAGE_SIZE_power] page_aligned_def)
next
  case False
  then have "align_up v PAGE_SIZE = align_down (v + PAGE_SIZE - 1) PAGE_SIZE" by (simp add: align_up_def align_down_def)
  then show ?thesis by (simp add: align_down_page)
qed

lemma unat_align_up_page:
  assumes "unat v + 4095 < 2 ^ 64"
  shows "unat (align_up v PAGE_SIZE) = 4096 * ((unat v + 4095) div 4096)"
proof -
  have n: "(n + 4095) div 4096 = (if n mod 4096 = 0 then n div 4096 else n div 4096 + 1)" for n :: nat
  proof -
    have "(n + 4095) div 4096 = (n mod 4096 + 4095 + n div 4096 * 4096) div 4096" by (simp add: algebra_simps)
    also have "\<dots> = n div 4096 + (n mod 4096 + 4095) div 4096" by (rule div_mult_self1) simp
    also have "(n mod 4096 + 4095) div 4096 = (if n mod 4096 = 0 then 0 else 1)"
      using mod_less_divisor [of 4096 n] by (auto intro!: div_nat_eqI)
    finally show ?thesis by simp
  qed
  have "unat (align_up v PAGE_SIZE) = (if unat v mod 4096 = 0 then unat v else unat v - unat v mod 4096 + 4096)"
    using unat_align_up [OF PAGE_SIZE_power, of v] assms by simp
  then show ?thesis unfolding n using mult_div_mod_eq [of 4096 "unat v"] by (auto simp: minus_mod_eq_mult_div)
qed

lemma sorted_wrt_perm:
  assumes "symp R"
  shows "sorted_wrt R xs \<Longrightarrow> mset xs = mset ys \<Longrightarrow> sorted_wrt R ys"
proof (induction ys arbitrary: xs)
  case (Cons y ys)
  then have "y \<in> set xs" by (metis list.set_intros(1) mset_eq_setD)
  then obtain u v where xs: "xs = u @ y # v" by (meson split_list)
  with Cons.prems have uv: "sorted_wrt R (u @ v)" "mset (u @ v) = mset ys" by (simp_all add: sorted_wrt_append)
  then have "set ys = set u \<union> set v" by (metis mset_eq_setD set_append)
  with Cons.prems(1) xs assms have "\<forall>x\<in>set ys. R y x" by (auto simp: sorted_wrt_append dest: sympD)
  with Cons.IH [OF uv] show ?case by simp
qed simp

lemma mset_insertion_sort: "mset (insertion_sort key xs) = mset xs"
proof -
  have sink: "mset (sink key c ps) = add_mset c (mset ps)" for c ps by (induction ps) auto
  have "mset (fold (sink key) xs ps) = mset xs + mset ps" for ps by (induction xs arbitrary: ps) (simp_all add: sink)
  from this [of "[]"] show ?thesis by (simp add: insertion_sort_def)
qed

lemma zero_page_ok: "rr_start RESERVED_PHYSICAL_ZERO_PAGE < rr_end RESERVED_PHYSICAL_ZERO_PAGE"
  "reserved_span RESERVED_PHYSICAL_ZERO_PAGE = {0..<4096}"
  "page_aligned (rr_start RESERVED_PHYSICAL_ZERO_PAGE)" "page_aligned (rr_end RESERVED_PHYSICAL_ZERO_PAGE)"
  by (simp_all add: RESERVED_PHYSICAL_ZERO_PAGE_def span_def word_less_nat_alt page_aligned_def)

lemma collect_ranges_aligned:
  "collect_ranges collected rs = Inr out \<Longrightarrow> \<forall>r\<in>set collected. page_aligned (rr_start r) \<and> page_aligned (rr_end r) \<Longrightarrow>
    \<forall>r\<in>set out. page_aligned (rr_start r) \<and> page_aligned (rr_end r)"
  by (induction collected rs rule: collect_ranges.induct)
    (auto simp: Let_def align_down_page align_up_page split: if_splits)

lemma normalize_cases:
  assumes "normalize_memory_map conv ds rs m = Inr m'"
  obtains out where "normalize_all conv (sort_reserved_ranges out) (sort_descriptors (map raw_of ds)) (map_clear m) = Inr m'"
    and "\<forall>r\<in>set out. rr_start r < rr_end r \<and> page_aligned (rr_start r) \<and> page_aligned (rr_end r)"
    and "(\<Union>r\<in>set out. reserved_span r) = {0..<4096} \<union>
      (\<Union>r\<in>set rs. span (align_down (rr_start r) PAGE_SIZE) (align_up (rr_end r) PAGE_SIZE))"
proof -
  from assms obtain raws out where c: "collect_descriptors 0 ds = Inr raws" "collect_reserved_ranges rs = Inr out"
    "normalize_all conv (sort_reserved_ranges out) (sort_descriptors raws) (map_clear m) = Inr m'"
    by (auto simp: normalize_memory_map_def rbind_Inr)
  have "raws = map raw_of ds" using collect_descriptors_law [OF c(1)] by (simp add: raw_of_def)
  moreover note collect_ranges_law [OF c(2) [unfolded collect_reserved_ranges_def]]
    collect_ranges_aligned [OF c(2) [unfolded collect_reserved_ranges_def]]
  ultimately show ?thesis using c(3) by (intro that [of out]) (simp_all add: zero_page_ok)
qed

lemma map_clear_ok [simp]: "regions_nonempty (map_clear m)" "cover k (map_clear m) = {}" "ordered (map_clear m) 0"
  by (simp_all add: map_clear_def regions_nonempty_def cover_def ordered_def)

text \<open>The regions of a normalised map are aligned and come in ascending order without overlap.\<close>

lemma normalized_ordered:
  assumes "firmware_map ds" and "normalize_memory_map conv ds rs m = Inr m'"
  obtains lim where "ordered m' lim"
proof (rule normalize_cases [OF assms(2)])
  fix out
  assume n: "normalize_all conv (sort_reserved_ranges out) (sort_descriptors (map raw_of ds)) (map_clear m) = Inr m'"
    and r: "\<forall>r\<in>set out. rr_start r < rr_end r \<and> page_aligned (rr_start r) \<and> page_aligned (rr_end r)"
  have "sorted_wrt raw_disjoint (sort_descriptors (map raw_of ds))"
    by (rule sorted_wrt_perm [of _ "map raw_of ds"])
      (use assms(1) in \<open>auto simp: firmware_map_def sort_descriptors_def mset_insertion_sort raw_disjoint_def symp_def\<close>)
  then have "\<exists>lim. ordered m' lim"
    by (intro normalize_all_ordered [OF _ n, of 0])
      (use r assms(1) in \<open>auto simp: sort_reserved_ranges_def sort_descriptors_def insertion_sort firmware_map_def raw_of_def\<close>)
  with that show thesis by blast
qed

lemma carved_out:
  fixes lo hi :: "'r \<Rightarrow> nat"
  shows "{x. D x} - ({0..<n} \<union> {x. \<exists>r\<in>A. lo r \<le> x \<and> x < hi r}) = {x. n \<le> x \<and> D x \<and> (\<forall>r\<in>A. x < lo r \<or> hi r \<le> x)}"
  by (auto simp: not_less not_le)

lemma raw_span:
  assumes "page_aligned (md_phys_start d)"
  shows "descriptor_span (raw_of d) = {unat (md_phys_start d)..<4096 *
    (min (unat (md_phys_start d) + unat (md_page_count d) * 4096) (2 ^ 64 - 1) div 4096)}" and "rd_ty (raw_of d) = md_ty d"
proof -
  have sat: "min (a + min b n) n = min (a + b) n" for a b n :: nat by simp
  show "descriptor_span (raw_of d) = {unat (md_phys_start d)..<4096 *
      (min (unat (md_phys_start d) + unat (md_page_count d) * 4096) (2 ^ 64 - 1) div 4096)}"
    using assms by (simp add: descriptor_span_def span_def raw_of_def align_id align_down_page unat_saturating_add unat_saturating_mul sat)
qed (simp add: raw_of_def)

text \<open>C32 (functional). Normalisation finds exactly the memory that may be handed out: an address is in a usable
  region if and only if it lies in the whole pages of a conventional descriptor, outside the first page and
  outside every reserved range widened to page boundaries.\<close>

theorem usable_memory_exact:
  assumes "normalize_memory_map conv ds rs m = Inr m'" and "\<forall>d\<in>set ds. page_aligned (md_phys_start d)"
    and "\<forall>r\<in>set rs. unat (rr_end r) + 4095 < 2 ^ 64"
  shows "{x. \<exists>r\<in>set (nm_regions m'). mr_kind r = Usable \<and> unat (mr_start r) \<le> x \<and> x < unat (mr_end r)} =
    {x. 4096 \<le> x \<and>
      (\<exists>d\<in>set ds. md_ty d = conv \<and> unat (md_phys_start d) \<le> x \<and>
        x < 4096 * (min (unat (md_phys_start d) + unat (md_page_count d) * 4096) (2 ^ 64 - 1) div 4096)) \<and>
      (\<forall>r\<in>set rs. x < 4096 * (unat (rr_start r) div 4096) \<or> 4096 * ((unat (rr_end r) + 4095) div 4096) \<le> x)}"
proof (rule normalize_cases [OF assms(1)])
  fix out
  assume n: "normalize_all conv (sort_reserved_ranges out) (sort_descriptors (map raw_of ds)) (map_clear m) = Inr m'"
    and r: "\<forall>r\<in>set out. rr_start r < rr_end r \<and> page_aligned (rr_start r) \<and> page_aligned (rr_end r)"
    and u: "(\<Union>r\<in>set out. reserved_span r) = {0..<4096} \<union>
      (\<Union>r\<in>set rs. span (align_down (rr_start r) PAGE_SIZE) (align_up (rr_end r) PAGE_SIZE))"
  have "cover Usable m' = (\<Union>d\<in>{d \<in> set (map raw_of ds). rd_ty d = conv}. descriptor_span d) - (\<Union>r\<in>set out. reserved_span r)"
    using normalize_all_law [OF _ _ n] r by (simp add: sort_reserved_ranges_def sort_descriptors_def insertion_sort)
  also have "(\<Union>d\<in>{d \<in> set (map raw_of ds). rd_ty d = conv}. descriptor_span d) =
      {x. \<exists>d\<in>set ds. md_ty d = conv \<and> unat (md_phys_start d) \<le> x \<and>
        x < 4096 * (min (unat (md_phys_start d) + unat (md_page_count d) * 4096) (2 ^ 64 - 1) div 4096)}"
    using assms(2) by (auto simp: raw_span)
  also have "(\<Union>r\<in>set out. reserved_span r) = {0..<4096} \<union>
      {x. \<exists>r\<in>set rs. 4096 * (unat (rr_start r) div 4096) \<le> x \<and> x < 4096 * ((unat (rr_end r) + 4095) div 4096)}"
    unfolding u using assms(3) by (auto simp: span_def align_down_page unat_align_up_page)
  finally have cov: "cover Usable m' = {x. \<exists>d\<in>set ds. md_ty d = conv \<and> unat (md_phys_start d) \<le> x \<and>
        x < 4096 * (min (unat (md_phys_start d) + unat (md_page_count d) * 4096) (2 ^ 64 - 1) div 4096)} - ({0..<4096} \<union>
      {x. \<exists>r\<in>set rs. 4096 * (unat (rr_start r) div 4096) \<le> x \<and> x < 4096 * ((unat (rr_end r) + 4095) div 4096)})" .
  have "{x. \<exists>r\<in>set (nm_regions m'). mr_kind r = Usable \<and> unat (mr_start r) \<le> x \<and> x < unat (mr_end r)} = cover Usable m'"
    by (auto simp: cover_def span_def)
  then show ?thesis unfolding cov carved_out .
qed

definition sample_map :: "string + normalized_memory_map" where
  "sample_map = normalize_memory_map 7
     [\<lparr>md_ty = 7, md_phys_start = 0, md_page_count = 8\<rparr>, \<lparr>md_ty = 0, md_phys_start = 0x8000, md_page_count = 1\<rparr>]
     [\<lparr>rr_start = 0x3000, rr_end = 0x4001\<rparr>] \<lparr>nm_regions = [], usable_bytes = 0, reserved_bytes = 0\<rparr>"

lemma sample_map_eq:
  "sample_map = Inr \<lparr>nm_regions = [\<lparr>mr_start = 0, mr_end = 0x1000, mr_kind = Reserved\<rparr>, \<lparr>mr_start = 0x1000, mr_end = 0x3000, mr_kind = Usable\<rparr>,
      \<lparr>mr_start = 0x3000, mr_end = 0x5000, mr_kind = Reserved\<rparr>, \<lparr>mr_start = 0x5000, mr_end = 0x8000, mr_kind = Usable\<rparr>,
      \<lparr>mr_start = 0x8000, mr_end = 0x9000, mr_kind = Reserved\<rparr>], usable_bytes = 0x5000, reserved_bytes = 0x4000\<rparr>"
  by (simp add: sample_map_def normalize_memory_map_def collect_reserved_ranges_def RESERVED_PHYSICAL_ZERO_PAGE_def PAGE_SIZE_def Let_def
      align_down_def align_up_def rr_is_empty_def sort_reserved_ranges_def sort_descriptors_def insertion_sort_def MAX_MEMORY_REGIONS_def MAX_RESERVED_RANGES_def
      saturating_add_def saturating_mul_def checked_add_def checked_mul_def map_clear_def normalize_one_def is_usable_memory_type_def push_region_def region_len_def saturating_sub_def)

theorem usable_memory_exact_witness:
  "{x. \<exists>r\<in>set (nm_regions (projr sample_map)). mr_kind r = Usable \<and> unat (mr_start r) \<le> x \<and> x < unat (mr_end r)} =
    {x. 0x1000 \<le> x \<and> x < 0x8000 \<and> (x < 0x3000 \<or> 0x5000 \<le> x)}"
proof -
  have ok: "normalize_memory_map 7
     [\<lparr>md_ty = 7, md_phys_start = 0, md_page_count = 8\<rparr>, \<lparr>md_ty = 0, md_phys_start = 0x8000, md_page_count = 1\<rparr>]
     [\<lparr>rr_start = 0x3000, rr_end = 0x4001\<rparr>] \<lparr>nm_regions = [], usable_bytes = 0, reserved_bytes = 0\<rparr> = Inr (projr sample_map)"
    unfolding sample_map_def [symmetric] by (simp add: sample_map_eq)
  show ?thesis by (subst usable_memory_exact [OF ok]) (auto simp: page_aligned_def)
qed

end
