(* ===== verification/Spec2Isabelle.thy ===== *)
theory Spec2Isabelle
  imports Cap_Space Sup_Recovery Sup_Termination Store_Props Mem_Map
begin

text \<open>
  A verification development for clean-slate, a capability-based microkernel operating system in
  Rust. The parts of the system that decide who may do what, which services run, and what survives a
  crash are written in the source as ordinary Rust over fixed arrays, records and results; they are
  translated here definition by definition. Code that only moves bits between the processor, devices
  and memory is left out, and listed below.

  \<^bold>\<open>Conventions\<close> (theory Prelude). Machine integers are words of their width; \<open>usize\<close> is \<open>nat\<close>, with the
  64-bit bound written out where the source checks for it. \<open>Result<A, E>\<close> is \<open>'e + 'a\<close>. A method on
  \<open>&mut self\<close> returns its result with the new state. \<open>[T; N]\<close> is a list whose length belongs to the
  invariant. Panics of the source (\<open>expect\<close>, slice bounds) are not values of the model; where one is
  reachable in principle a lemma shows the bound that rules it out. Theory Bytes has the byte codecs and
  slices that the formats share, theory Slots the search and registration in an array of optional
  records that several components repeat (locales \<open>slot_search\<close> and \<open>slot_registry\<close>).

  \<^bold>\<open>Capabilities\<close> (\<open>src/capability/src\<close>, \<open>src/kernel/src/capability\<close>, \<open>src/port/src/transfer.rs\<close>). Cap_Types: errors, resources,
  rights, handles with their 64-bit encoding, provenance, records and the pure decisions. Cap_Table: the
  table with grant, lookup, authorization, revocation, release. Cap_Tree: delegation, subtree and holder
  tree revocation, authority to revoke. Cap_Audit: audit events, the ring log and its reader, the audited
  authorization over any sink (locale \<open>audit_sink\<close>). Cap_Kernel: root grants, fork inheritance, the holder
  query and the bootstrap hand-off of the kernel. Port_Transfer: the check of a capability sent through a
  port, the installation and release of the child record it creates, and the bounded lists of effects.
  Cap_Space: the transition system of everything that writes the kernel's table, including transfers through
  ports that are delivered or taken back and the two rollbacks of the syscall handlers. The personality of a
  process is a parameter (\<open>native\<close>): processes with the Linux personality fork, native ones use ports. The
  set of live processes is another; the shared-buffer mappings that handlers reconcile after a revocation do
  not touch the table and are left out. Shown: every live capability descends from a root grant with rights
  that only shrink (an invariant of that transition system), a handle names one capability for ever,
  revocation removes exactly the subtree, taking back an undelivered transfer ends that authority only, forks
  give exactly the parent's authority or are undone (except for the depth error, for which it is shown
  exactly what stays with the child), and the log keeps the last events.

  \<^bold>\<open>Services\<close> (\<open>src/service-lifecycle/src\<close>). Svc_Lifecycle: the state machine of a service and its
  tracker. Svc_Dependency: the dependency graph, cycle search, readiness. Svc_Health: liveness deadlines
  and reports. Svc_Wire: the 64-byte messages. Shown: consistency of records and generations, no
  dependency cycle for graphs of at most 33 services (the search stops after 32 steps; a shortest cycle
  has at most as many edges as there are services), progress of bring-up, time-outs, round trips.

  \<^bold>\<open>Supervisor\<close> (\<open>src/supervisor/src\<close>). Sup_Runtime: restart policy, registry, control transports, serial
  markers and the runtime. Sup_Convergence: the converged supervisor, whose event handler calls itself
  through the event drain; the model bounds the nesting by fuel, and \<open>None\<close> is running out of it.
  Sup_Recovery: an invariant of all operations, with a small Hoare logic, and the ledger of restart requests
  (locale \<open>restart_ledger\<close>, for any transport and for the in-memory one): the requests issued for a service
  without a health report of it in between stay within the attempts of its policy. Sup_Termination: with a
  transport that drains (locale \<open>draining_control\<close>, kept by the in-memory transport) a nesting one deeper
  than the number of waiting events is enough, so every operation returns.

  \<^bold>\<open>Block layer\<close> (\<open>src/block/src\<close>). Blk_Device: geometry and request validation, the in-memory device with
  its live and durable images, the fault-injecting device. The locale \<open>block_device\<close> states visibility and
  durability as the trait documents them, \<open>reliable_device\<close> adds that requests that fit succeed.

  \<^bold>\<open>Object store\<close> (\<open>src/store/src/lib.rs\<close>). Store_Format: the superblock and its table of objects, layout and
  validation of extents, decoding as the inverse of encoding. Obj_Store: format, mount, staging, lookup and
  commit over any device of the block layer. Store_Crash: what a commit can leave in the two images of a
  device that keeps the laws of \<open>block_device\<close>, and what mount reads from an image. Store_Atomic: the store
  between commits, formatting, commits that succeed, and the histories of a store on the fault-injecting
  device. Store_Props: atomicity and durability of commits, well-formedness, staged writes. A history is made
  of formatting, staging, commits that succeed and reboots between commits, with any faults armed; the commit
  a theorem speaks of may fail, but no history goes on after a failed commit, with or without a reboot. A
  failed commit may leave a newer superblock that one mount passes over and a later one selects. The payload checksum leaves out four bytes,
  so after a crash the new objects are known only up to their checksum.

  \<^bold>\<open>Physical memory map\<close> (\<open>src/kernel/src/mm/region.rs\<close>, \<open>src/kernel/src/boot/uefi.rs\<close>). Page_Arith: rounding
  to pages, the insertion sort. Mem_Map: regions and the normalisation of the firmware's descriptors, with
  the memory type number of conventional memory as a parameter. Shown: the usable regions are exactly the
  conventional memory outside the first page and the reserved ranges, and the regions are aligned and in
  ascending order when the firmware's descriptors are aligned and do not overlap.

  \<^bold>\<open>Composition\<close>. The locale \<open>transition_system\<close> (Prelude) carries every invariant from the initial states
  along all sequences of operations; it is interpreted for the capability table, the capability space, the
  lifecycle records, the dependency graph, the health records and the converged supervisor.

  \<^bold>\<open>Not modelled\<close>. Boot, interrupts, architecture code, device drivers, paging and context switching act
  on hardware whose behaviour is not in the sources; the frame allocator and the address spaces work on raw
  physical memory. The scheduler, processes, kernel syscalls and
  services work on global state shared with interrupt handlers and raw page tables. The network stack, the
  graphics protocol, the rasteriser, the port engine (queues, calls and replies; only its capability
  transfers are modelled), the ABI crates and the ELF loader are not covered. The
  service binaries, fixtures, self tests and the build driver are test and host tooling.
\<close>

end
